(* ===== verification/Prelude.thy ===== *)
theory Prelude
  imports
    Main
    "HOL-Library.Word"
    "HOL-Library.Char_ord"
    "HOL-Library.List_Lexorder"
begin

text \<open>
  What the components share: the result type of code that may abort, throw or run into undefined
  behaviour; the fixed-width integers of the x86-64 Linux target; the operations of
  \<^verbatim>\<open>std::vector<char>\<close>, \<^verbatim>\<open>std::string\<close> and the C library that the sources call; and the generic
  lemmas on them. The programs are built with \<^verbatim>\<open>-g\<close> and without \<^verbatim>\<open>NDEBUG\<close> (\<^verbatim>\<open>build/make.rule\<close>),
  so every \<^verbatim>\<open>assert\<close> is live and a failing one aborts the process.
\<close>

unbundle bit_operations_syntax

named_theorems cpp_simps \<open>evaluation of the C++ primitives under their preconditions\<close>
named_theorems inv_simps \<open>definitions of the components' invariants\<close>


section \<open>Results of C++ code\<close>

text \<open>
  \<open>AssertFail\<close> is an \<^verbatim>\<open>assert\<close> that does not hold (\<^verbatim>\<open>abort()\<close>), \<open>OutOfRange\<close> the exception
  \<^verbatim>\<open>std::out_of_range\<close> (no handler exists in the program, so it terminates the process) and
  \<open>UndefinedBehaviour\<close> an operation to which the language gives no meaning.
\<close>

datatype cpp_error = AssertFail | OutOfRange | UndefinedBehaviour

type_synonym 'a res = "cpp_error + 'a"

fun res_bind :: "'a res \<Rightarrow> ('a \<Rightarrow> 'b res) \<Rightarrow> 'b res" where
  "res_bind (Inl e) f = Inl e"
| "res_bind (Inr x) f = f x"

definition cassert :: "bool \<Rightarrow> 'a res \<Rightarrow> 'a res" where
  "cassert b k = (if b then k else Inl AssertFail)"

lemma res_bind_cong [fundef_cong]:
  "m = m' \<Longrightarrow> (\<And>x. m' = Inr x \<Longrightarrow> f x = f' x) \<Longrightarrow> res_bind m f = res_bind m' f'"
  by (cases m') auto

lemma cassert_cong [fundef_cong]:
  "b = b' \<Longrightarrow> (b' \<Longrightarrow> k = k') \<Longrightarrow> cassert b k = cassert b' k'"
  by (auto simp: cassert_def)

lemma cassert_True [simp]: "cassert True k = k"
  and cassert_False [simp]: "cassert False k = Inl AssertFail"
  by (simp_all add: cassert_def)

lemma cassert_eq_Inr [simp]: "cassert b k = Inr x \<longleftrightarrow> b \<and> k = Inr x"
  by (auto simp: cassert_def)

lemma res_bind_eq_Inr: "res_bind m f = Inr y \<longleftrightarrow> (\<exists>x. m = Inr x \<and> f x = Inr y)"
  by (cases m) auto

lemma res_bind_assoc: "res_bind (res_bind m f) g = res_bind m (\<lambda>x. res_bind (f x) g)"
  by (cases m) auto

text \<open>A \<^verbatim>\<open>for\<close> loop over a container whose body may fail.\<close>

fun res_fold :: "('a \<Rightarrow> 's \<Rightarrow> 's res) \<Rightarrow> 'a list \<Rightarrow> 's \<Rightarrow> 's res" where
  "res_fold f [] s = Inr s"
| "res_fold f (x # xs) s = res_bind (f x s) (res_fold f xs)"

lemma res_fold_append: "res_fold f (xs @ ys) s = res_bind (res_fold f xs s) (res_fold f ys)"
  by (induction xs arbitrary: s) (auto simp: res_bind_assoc cong: res_bind_cong)

lemma res_fold_Inr: "(\<And>x s. x \<in> set xs \<Longrightarrow> f x s = Inr (g x s)) \<Longrightarrow> res_fold f xs s = Inr (fold g xs s)"
  by (induction xs arbitrary: s) auto


section \<open>Fixed-width integers\<close>

type_synonym size_t = "64 word"
type_synonym int32 = "32 word"

text \<open>\<^verbatim>\<open>char\<close> is signed on the target: \<open>schar\<close> is the promotion \<^verbatim>\<open>char \<rightarrow> int\<close>, \<open>to_char\<close> the cast back.\<close>

definition schar :: "char \<Rightarrow> int" where
  "schar c = (if of_char c < (128::int) then of_char c else of_char c - 256)"

definition to_char :: "int \<Rightarrow> char" where
  "to_char n = char_of n"

lemma of_char_int_bounds [simp]: "0 \<le> (of_char c :: int)" "of_char c < (256::int)"
proof -
  have "(of_char c :: int) = int (of_char c)" by (simp add: of_nat_of_char)
  moreover have "of_char c < (256::nat)" by simp
  ultimately show "0 \<le> (of_char c :: int)" "of_char c < (256::int)" by linarith+
qed

lemma schar_mod: "schar c mod 256 = of_char c"
  by (auto simp: schar_def minus_mod_self2)

lemma to_char_schar [simp]: "to_char (schar c) = c"
  by (metis char_of_char char_of_mod_256 schar_mod to_char_def)

lemma schar_to_char [simp]:
  assumes "-128 \<le> n" and "n < 128"
  shows "schar (to_char n) = n"
proof (cases "0 \<le> n")
  case True
  with assms show ?thesis by (simp add: schar_def to_char_def)
next
  case False
  with assms have "(n + 256) mod 256 = n + 256"
    by (intro mod_pos_pos_trivial) simp_all
  then have "n mod 256 = n + 256" by simp
  with assms False show ?thesis by (simp add: schar_def to_char_def)
qed

lemma schar_bounds: "-128 \<le> schar c" "schar c < 128"
  using of_char_int_bounds [of c] by (auto simp: schar_def simp del: of_char_int_bounds)

subsection \<open>Object representation and byte order\<close>

text \<open>
  The target is little-endian: \<open>nat_bytes k n\<close> lists the \<open>k\<close> bytes of the number \<open>n\<close>, lowest
  address first, and \<open>bytes_nat\<close> reads them back.
\<close>

fun nat_bytes :: "nat \<Rightarrow> nat \<Rightarrow> char list" where
  "nat_bytes 0 n = []"
| "nat_bytes (Suc k) n = char_of n # nat_bytes k (n div 256)"

fun bytes_nat :: "char list \<Rightarrow> nat" where
  "bytes_nat [] = 0"
| "bytes_nat (c # cs) = of_char c + 256 * bytes_nat cs"

lemma length_nat_bytes [simp]: "length (nat_bytes k n) = k"
  by (induction k arbitrary: n) auto

lemma char_of_shift [simp]: "char_of (of_char c + 256 * (n::nat)) = c"
  by (metis char_of_char char_of_mod_256 mod_mult_self2)

lemma nat_bytes_bytes_nat [simp]: "nat_bytes (length cs) (bytes_nat cs) = cs"
  by (induction cs) auto

lemma bytes_nat_nat_bytes [simp]: "bytes_nat (nat_bytes k n) = n mod 256 ^ k"
  by (induction k arbitrary: n) (auto simp: mod_mult2_eq)

lemma bytes_nat_less: "bytes_nat cs < 256 ^ length cs"
  by (metis bytes_nat_nat_bytes mod_less_divisor nat_bytes_bytes_nat zero_less_numeral zero_less_power)

text \<open>Loading and storing a 32-bit integer, and \<^verbatim>\<open>be32toh\<close> / \<^verbatim>\<open>htobe32\<close> (a byte swap on the target).\<close>

definition load32 :: "char list \<Rightarrow> int32" where
  "load32 cs = word_of_nat (bytes_nat cs)"

definition store32 :: "int32 \<Rightarrow> char list" where
  "store32 w = nat_bytes 4 (unat w)"

definition bswap32 :: "int32 \<Rightarrow> int32" where
  "bswap32 w = load32 (rev (store32 w))"

lemma length_store32 [simp]: "length (store32 w) = 4"
  by (simp add: store32_def)

lemma store32_load32: "length cs = 4 \<Longrightarrow> store32 (load32 cs) = cs"
  using bytes_nat_less [of cs] nat_bytes_bytes_nat [of cs]
  by (simp add: load32_def store32_def unat_of_nat take_bit_nat_eq_self)

lemma load32_store32 [simp]: "load32 (store32 w) = w"
proof -
  have "unat w < 2 ^ LENGTH(32)" by (rule unsigned_less)
  then show ?thesis by (simp add: load32_def store32_def)
qed

lemma bswap32_bswap32 [simp]: "bswap32 (bswap32 w) = w"
  by (simp add: bswap32_def store32_load32)


lemma unat_word_of_nat_id [simp]: "n < 2 ^ LENGTH('a) \<Longrightarrow> unat (word_of_nat n :: 'a::len word) = n"
  by (simp add: unat_of_nat take_bit_nat_eq_self)

lemma unat_add_less: "unat (a::'a::len word) + unat b < 2 ^ LENGTH('a) \<Longrightarrow> unat (a + b) = unat a + unat b"
  by (simp add: unat_word_ariths)


section \<open>Vectors and strings\<close>

abbreviation NUL :: char where
  "NUL \<equiv> CHR 0x00"

text \<open>\<^verbatim>\<open>std::vector<char>::resize\<close> and \<^verbatim>\<open>std::copy\<close> into a vector at an index.\<close>

definition vec_resize :: "nat \<Rightarrow> char list \<Rightarrow> char list" where
  "vec_resize n v = take n v @ replicate (n - length v) NUL"

definition vec_copy :: "nat \<Rightarrow> 'a list \<Rightarrow> 'a list \<Rightarrow> 'a list res" where
  "vec_copy i d v =
     (if i + length d \<le> length v then Inr (take i v @ d @ drop (i + length d) v)
      else Inl UndefinedBehaviour)"

lemma length_vec_resize [simp]: "length (vec_resize n v) = n"
  by (simp add: vec_resize_def)

lemma take_vec_resize: "k \<le> n \<Longrightarrow> k \<le> length v \<Longrightarrow> take k (vec_resize n v) = take k v"
  by (simp add: vec_resize_def)

lemma vec_copy_length: "vec_copy i d v = Inr v' \<Longrightarrow> length v' = length v"
  by (auto simp: vec_copy_def split: if_splits)

text \<open>
  \<open>str_at\<close> is \<^verbatim>\<open>std::string::operator[]\<close>: the position one past the end holds the terminating
  NUL, any further position is undefined. \<open>str_substr\<close> is \<^verbatim>\<open>std::string::substr\<close>.
\<close>

definition str_at :: "string \<Rightarrow> nat \<Rightarrow> char res" where
  "str_at s i = (if i < length s then Inr (s ! i) else if i = length s then Inr NUL
                 else Inl UndefinedBehaviour)"

definition str_substr :: "string \<Rightarrow> nat \<Rightarrow> nat \<Rightarrow> string res" where
  "str_substr s pos n = (if pos \<le> length s then Inr (take n (drop pos s)) else Inl OutOfRange)"

lemma str_at_less [cpp_simps]: "i < length s \<Longrightarrow> str_at s i = Inr (s ! i)"
  by (simp add: str_at_def)

lemma str_substr_le [cpp_simps]: "pos \<le> length s \<Longrightarrow> str_substr s pos n = Inr (take n (drop pos s))"
  by (simp add: str_substr_def)


section \<open>The C library\<close>

text \<open>
  \<^verbatim>\<open>atoi\<close>: leading white space, an optional sign, then decimal digits up to the first other
  character; \<^verbatim>\<open>strtol\<close> clamps to the 64-bit range and the result is cut to an \<^verbatim>\<open>int\<close>.
\<close>

definition isspace :: "char \<Rightarrow> bool" where
  "isspace c \<longleftrightarrow> c = CHR '' '' \<or> (9 \<le> (of_char c :: nat) \<and> (of_char c :: nat) \<le> 13)"

definition isdigit :: "char \<Rightarrow> bool" where
  "isdigit c \<longleftrightarrow> 48 \<le> (of_char c :: nat) \<and> (of_char c :: nat) \<le> 57"

fun digits_value :: "int \<Rightarrow> string \<Rightarrow> int" where
  "digits_value acc [] = acc"
| "digits_value acc (c # cs) =
     (if isdigit c then digits_value (10 * acc + (of_char c - 48)) cs else acc)"

definition atoi :: "string \<Rightarrow> int" where
  "atoi s =
     (let t = dropWhile isspace s;
          v = (case t of
                 [] \<Rightarrow> 0
               | c # cs \<Rightarrow> if c = CHR ''-'' then - digits_value 0 cs
                           else if c = CHR ''+'' then digits_value 0 cs
                           else digits_value 0 t)
      in signed_take_bit 31 (max (- (2 ^ 63)) (min (2 ^ 63 - 1) v)))"

text \<open>The decimal conversions \<^verbatim>\<open>%u\<close> and \<^verbatim>\<open>%d\<close> of \<^verbatim>\<open>snprintf\<close>.\<close>

fun show_nat :: "nat \<Rightarrow> string" where
  "show_nat n = (if n < 10 then [char_of (48 + n)] else show_nat (n div 10) @ [char_of (48 + n mod 10)])"

declare show_nat.simps [simp del]

definition show_int :: "int \<Rightarrow> string" where
  "show_int n = (if n < 0 then ''-'' @ show_nat (nat (- n)) else show_nat (nat n))"

text \<open>\<^verbatim>\<open>snprintf(buf, n, ...)\<close> keeps at most \<open>n - 1\<close> characters.\<close>

definition snprintf :: "nat \<Rightarrow> string \<Rightarrow> string" where
  "snprintf n s = take (n - 1) s"


subsection \<open>Decimal numerals\<close>

lemma of_char_digit [simp]: "d < 10 \<Longrightarrow> (of_char (char_of (48 + d :: nat)) :: 'a::linordered_semidom) = 48 + of_nat d"
proof -
  assume "d < 10"
  then have "(of_char (char_of (48 + d)) :: nat) = 48 + d" by simp
  moreover have "(of_char (char_of (48 + d)) :: 'a) = of_nat (of_char (char_of (48 + d)))" by (simp only: of_nat_of_char)
  ultimately show ?thesis by (simp only: of_nat_add of_nat_numeral)
qed

lemma isdigit_char_of [simp]: "d < 10 \<Longrightarrow> isdigit (char_of (48 + d :: nat))"
  by (simp add: isdigit_def del: of_char_of)

lemma show_nat_ne [simp]: "show_nat n \<noteq> []"
  by (simp add: show_nat.simps [of n])

lemma show_nat_digits: "c \<in> set (show_nat n) \<Longrightarrow> isdigit c"
proof (induction n rule: show_nat.induct)
  case (1 n)
  show ?case
  proof (cases "n < 10")
    case True
    with "1.prems" show ?thesis by (simp add: show_nat.simps [of n])
  next
    case False
    with 1 show ?thesis by (auto simp: show_nat.simps [of n])
  qed
qed

lemma digits_value_append:
  "\<forall>c \<in> set s. isdigit c \<Longrightarrow> digits_value acc (s @ t) = digits_value (digits_value acc s) t"
  by (induction s arbitrary: acc) auto

lemma digits_value_show [simp]: "digits_value 0 (show_nat n) = int n"
proof (induction n rule: show_nat.induct)
  case (1 n)
  show ?case
  proof (cases "n < 10")
    case True
    then show ?thesis by (simp add: show_nat.simps [of n] del: of_char_of)
  next
    case False
    have "digits_value 0 (show_nat n) = digits_value (int (n div 10)) [char_of (48 + n mod 10)]"
      using 1 False show_nat_digits digits_value_append [of "show_nat (n div 10)" 0] by (simp add: show_nat.simps [of n])
    also have "\<dots> = 10 * int (n div 10) + int (n mod 10)"
      using of_char_digit [of "n mod 10", where 'a = int] by (simp del: of_char_of of_char_digit)
    also have "\<dots> = int n"
      using mult_div_mod_eq [of 10 n] by (metis of_nat_add of_nat_mult of_nat_numeral)
    finally show ?thesis .
  qed
qed

lemma show_nat_inj: "show_nat m = show_nat n \<longleftrightarrow> m = n"
  by (metis digits_value_show of_nat_eq_iff)

lemma length_show_nat: "n < 10 ^ Suc k \<Longrightarrow> length (show_nat n) \<le> Suc k"
proof (induction k arbitrary: n)
  case 0
  then show ?case by (simp add: show_nat.simps [of n])
next
  case (Suc k)
  show ?case
  proof (cases "n < 10")
    case False
    have "n div 10 < 10 ^ Suc k" using Suc.prems by (simp add: less_mult_imp_div_less)
    from Suc.IH [OF this] False show ?thesis by (simp add: show_nat.simps [of n])
  qed (simp add: show_nat.simps [of n])
qed

end
