(* ===== verification/Buffer.thy ===== *)
theory Buffer
  imports Prelude
begin

text \<open>
  The growable byte buffer of \<^verbatim>\<open>base/inc/Buffer.h\<close> and \<^verbatim>\<open>base/src/Buffer.cpp\<close>: a vector with a
  prependable area, the readable bytes between \<open>readerIndex\<close> and \<open>writerIndex\<close>, and a writable area.
  \<open>size_t\<close> values are 64-bit words. A \<^verbatim>\<open>char*\<close> into the buffer is its index; a \<^verbatim>\<open>char*\<close> argument is
  the list of bytes from that address on. Allocation is assumed to succeed.
\<close>

section \<open>State and operations\<close>

record Buffer =
  buffer :: "char list"
  readerIndex :: size_t
  writerIndex :: size_t

definition kCheapPrepend :: size_t where
  "kCheapPrepend = 8"

definition kInitialSize :: size_t where
  "kInitialSize = 1024"

definition kCRLF :: string where
  "kCRLF = [CHR 0x0D, CHR 0x0A]"

definition new_Buffer :: Buffer where
  "new_Buffer = \<lparr>buffer = replicate (unat (kCheapPrepend + kInitialSize)) NUL,
                 readerIndex = kCheapPrepend, writerIndex = kCheapPrepend\<rparr>"

definition readableBytes :: "Buffer \<Rightarrow> size_t" where
  "readableBytes b = writerIndex b - readerIndex b"

definition writableBytes :: "Buffer \<Rightarrow> size_t" where
  "writableBytes b = word_of_nat (length (buffer b)) - writerIndex b"

definition prependableBytes :: "Buffer \<Rightarrow> size_t" where
  "prependableBytes b = readerIndex b"

definition peek :: "Buffer \<Rightarrow> char list" where
  "peek b = drop (unat (readerIndex b)) (buffer b)"

text \<open>\<^verbatim>\<open>std::search\<close>: the offset of the first occurrence of a pattern.\<close>

fun search :: "'a list \<Rightarrow> 'a list \<Rightarrow> nat option" where
  "search pat xs =
     (if take (length pat) xs = pat then Some 0
      else case xs of [] \<Rightarrow> None | _ # ys \<Rightarrow> map_option Suc (search pat ys))"

declare search.simps [simp del]

definition findCRLF :: "Buffer \<Rightarrow> nat option" where
  "findCRLF b =
     map_option (\<lambda>k. unat (readerIndex b) + k)
       (search kCRLF (take (unat (readableBytes b)) (peek b)))"

definition retrieveAll :: "Buffer \<Rightarrow> Buffer" where
  "retrieveAll b = b\<lparr>readerIndex := kCheapPrepend, writerIndex := kCheapPrepend\<rparr>"

definition retrieve :: "size_t \<Rightarrow> Buffer \<Rightarrow> Buffer res" where
  "retrieve len b =
     cassert (len \<le> readableBytes b)
       (if len < readableBytes b then Inr (b\<lparr>readerIndex := readerIndex b + len\<rparr>)
        else Inr (retrieveAll b))"

definition retrieveUntil :: "nat \<Rightarrow> Buffer \<Rightarrow> Buffer res" where
  "retrieveUntil e b =
     cassert (unat (readerIndex b) \<le> e)
       (cassert (e \<le> unat (writerIndex b))
         (retrieve (word_of_nat (e - unat (readerIndex b))) b))"

text \<open>\<^verbatim>\<open>string result(p, len)\<close> reads \<open>len\<close> bytes from the address \<open>p\<close>.\<close>

definition string_at :: "char list \<Rightarrow> size_t \<Rightarrow> string res" where
  "string_at p len = (if unat len \<le> length p then Inr (take (unat len) p) else Inl UndefinedBehaviour)"

definition retrieveAsString :: "size_t \<Rightarrow> Buffer \<Rightarrow> (string \<times> Buffer) res" where
  "retrieveAsString len b =
     cassert (len \<le> readableBytes b)
       (res_bind (string_at (peek b) len) (\<lambda>result.
        res_bind (retrieve len b) (\<lambda>b'. Inr (result, b'))))"

definition retrieveAllAsString :: "Buffer \<Rightarrow> (string \<times> Buffer) res" where
  "retrieveAllAsString b = retrieveAsString (readableBytes b) b"

definition makeSpace :: "size_t \<Rightarrow> Buffer \<Rightarrow> Buffer res" where
  "makeSpace len b =
     (if writableBytes b + prependableBytes b < len + kCheapPrepend
      then Inr (b\<lparr>buffer := vec_resize (unat (writerIndex b + len)) (buffer b)\<rparr>)
      else cassert (kCheapPrepend < readerIndex b)
        (let readable = readableBytes b in
         res_bind (vec_copy (unat kCheapPrepend) (take (unat readable) (peek b)) (buffer b)) (\<lambda>v.
         let b' = b\<lparr>buffer := v, readerIndex := kCheapPrepend, writerIndex := kCheapPrepend + readable\<rparr>
         in cassert (readable = readableBytes b') (Inr b'))))"

definition ensureWritableBytes :: "size_t \<Rightarrow> Buffer \<Rightarrow> Buffer res" where
  "ensureWritableBytes len b =
     res_bind (if writableBytes b < len then makeSpace len b else Inr b)
       (\<lambda>b'. cassert (len \<le> writableBytes b') (Inr b'))"

definition hasWritten :: "size_t \<Rightarrow> Buffer \<Rightarrow> Buffer" where
  "hasWritten len b = b\<lparr>writerIndex := writerIndex b + len\<rparr>"

definition append_buf :: "char list \<Rightarrow> size_t \<Rightarrow> Buffer \<Rightarrow> Buffer res" where
  "append_buf data len b =
     res_bind (ensureWritableBytes len b) (\<lambda>b'.
     res_bind (string_at data len) (\<lambda>d.
     res_bind (vec_copy (unat (writerIndex b')) d (buffer b')) (\<lambda>v.
     Inr (hasWritten len (b'\<lparr>buffer := v\<rparr>)))))"

definition prepend :: "char list \<Rightarrow> size_t \<Rightarrow> Buffer \<Rightarrow> Buffer res" where
  "prepend data len b =
     cassert (len \<le> prependableBytes b)
       (let b' = b\<lparr>readerIndex := readerIndex b - len\<rparr> in
        res_bind (string_at data len) (\<lambda>d.
        res_bind (vec_copy (unat (readerIndex b')) d (buffer b')) (\<lambda>v.
        Inr (b'\<lparr>buffer := v\<rparr>))))"

text \<open>
  \<^verbatim>\<open>sockets::readv\<close> is the system call: it either fails with an \<^verbatim>\<open>errno\<close> or delivers bytes, scattered
  over the writable area first and the 65536 bytes of \<open>extrabuf\<close> then. Its outcome is an argument; a
  kernel that delivered more than the two areas hold would have written out of bounds.
\<close>

datatype read_result = ReadError int | ReadBytes "char list"

definition sizeof_extrabuf :: nat where
  "sizeof_extrabuf = 65536"

definition readFd :: "read_result \<Rightarrow> Buffer \<Rightarrow> (int \<times> int option \<times> Buffer) res" where
  "readFd r b =
     (let writable = unat (writableBytes b) in
      case r of
        ReadError e \<Rightarrow> Inr (-1, Some e, b)
      | ReadBytes bs \<Rightarrow>
          if length bs > writable + sizeof_extrabuf then Inl UndefinedBehaviour
          else if length bs \<le> writable then
            res_bind (vec_copy (unat (writerIndex b)) bs (buffer b)) (\<lambda>v.
            Inr (int (length bs), None,
                 b\<lparr>buffer := v, writerIndex := writerIndex b + word_of_nat (length bs)\<rparr>))
          else
            res_bind (vec_copy (unat (writerIndex b)) (take writable bs) (buffer b)) (\<lambda>v.
            let extrabuf = drop writable bs;
                b' = b\<lparr>buffer := v, writerIndex := word_of_nat (length v)\<rparr> in
            res_bind (append_buf extrabuf (word_of_nat (length bs - writable)) b') (\<lambda>b''.
            Inr (int (length bs), None, b''))))"


section \<open>Invariant and abstract contents\<close>

definition buf_wf :: "Buffer \<Rightarrow> bool" where
  [inv_simps]: "buf_wf b \<longleftrightarrow>
     unat (readerIndex b) \<le> unat (writerIndex b) \<and> unat (writerIndex b) \<le> length (buffer b) \<and>
     8 \<le> length (buffer b) \<and> length (buffer b) < 2 ^ 64"

definition content :: "Buffer \<Rightarrow> char list" where
  "content b = take (unat (writerIndex b) - unat (readerIndex b)) (drop (unat (readerIndex b)) (buffer b))"

text \<open>\<open>buf_room n b\<close>: the address space still has room for \<open>n\<close> more bytes.\<close>

definition buf_room :: "nat \<Rightarrow> Buffer \<Rightarrow> bool" where
  "buf_room n b \<longleftrightarrow> length (buffer b) + n + 8 < 2 ^ 64"


section \<open>Sizes under the invariant\<close>

lemmas word_nat_conv = word_le_nat_alt word_less_nat_alt

lemma unat_kCheapPrepend [simp]: "unat kCheapPrepend = 8"
  by (simp add: kCheapPrepend_def)

lemma buf_wfD:
  assumes "buf_wf b"
  shows "unat (readerIndex b) \<le> unat (writerIndex b)" "unat (writerIndex b) \<le> length (buffer b)"
    "8 \<le> length (buffer b)" "length (buffer b) < 18446744073709551616"
  using assms by (auto simp: buf_wf_def)

lemma length_content [simp]:
  "buf_wf b \<Longrightarrow> length (content b) = unat (writerIndex b) - unat (readerIndex b)"
  by (auto simp: content_def dest: buf_wfD)

lemma unat_readableBytes: "buf_wf b \<Longrightarrow> unat (readableBytes b) = length (content b)"
  by (simp add: readableBytes_def unat_sub word_nat_conv buf_wfD)

lemma unat_writableBytes:
  "buf_wf b \<Longrightarrow> unat (writableBytes b) = length (buffer b) - unat (writerIndex b)"
  by (simp add: writableBytes_def unat_sub word_nat_conv buf_wfD)

lemma take_peek: "buf_wf b \<Longrightarrow> n \<le> length (content b) \<Longrightarrow> take n (peek b) = take n (content b)"
  by (simp add: length_content del: length_take) (simp add: content_def peek_def)

lemma string_at_peek [cpp_simps]:
  "buf_wf b \<Longrightarrow> unat n \<le> length (content b) \<Longrightarrow> string_at (peek b) n = Inr (take (unat n) (content b))"
proof -
  assume wf: "buf_wf b" and le: "unat n \<le> length (content b)"
  then have "unat n \<le> length (peek b)"
    using buf_wfD [OF wf] by (simp add: peek_def)
  with wf le show ?thesis by (simp add: string_at_def take_peek)
qed

lemma le_readableBytes: "buf_wf b \<Longrightarrow> n \<le> readableBytes b \<longleftrightarrow> unat n \<le> length (content b)"
  by (simp add: word_nat_conv unat_readableBytes)

lemma readableBytes_eq_0: "buf_wf b \<Longrightarrow> readableBytes b = 0 \<longleftrightarrow> content b = []"
  using unat_readableBytes [of b] by (metis length_0_conv unat_0 unat_eq_zero)

lemma buf_wf_new [simp]: "buf_wf new_Buffer"
  and content_new [simp]: "content new_Buffer = []"
  by (simp_all add: new_Buffer_def buf_wf_def content_def kCheapPrepend_def kInitialSize_def)


section \<open>Effect of the operations on the contents\<close>

lemma retrieveAll_spec [simp]:
  "content (retrieveAll b) = []" "buffer (retrieveAll b) = buffer b"
  "buf_wf b \<Longrightarrow> buf_wf (retrieveAll b)"
  by (simp_all add: retrieveAll_def content_def buf_wf_def)

lemma retrieve_spec:
  assumes "buf_wf b" and "unat len \<le> length (content b)"
  shows "\<exists>b'. retrieve len b = Inr b' \<and> buf_wf b' \<and> buffer b' = buffer b \<and>
              content b' = drop (unat len) (content b)"
proof (cases "len < readableBytes b")
  case True
  then have less: "unat len < unat (writerIndex b) - unat (readerIndex b)"
    using assms by (simp add: word_nat_conv unat_readableBytes)
  then have "unat (readerIndex b) + unat len < 2 ^ LENGTH(64)"
    using buf_wfD [OF assms(1)] by simp
  then have "unat (readerIndex b + len) = unat (readerIndex b) + unat len"
    by (rule unat_add_less)
  then have "buf_wf (b\<lparr>readerIndex := readerIndex b + len\<rparr>)"
    and "content (b\<lparr>readerIndex := readerIndex b + len\<rparr>) = drop (unat len) (content b)"
    using less buf_wfD [OF assms(1)]
    by (simp_all add: buf_wf_def content_def drop_take add.commute)
  with True show ?thesis
    by (simp add: retrieve_def)
next
  case False
  then have "unat len = length (content b)"
    using assms by (simp add: word_nat_conv unat_readableBytes)
  moreover have "len \<le> readableBytes b"
    using assms by (simp add: le_readableBytes)
  ultimately show ?thesis
    using False assms(1) by (simp add: retrieve_def)
qed

lemma retrieve_too_much: "buf_wf b \<Longrightarrow> length (content b) < unat len \<Longrightarrow> retrieve len b = Inl AssertFail"
  by (simp add: retrieve_def le_readableBytes)

lemma retrieveAsString_spec:
  assumes "buf_wf b" and "unat len \<le> length (content b)"
  shows "\<exists>b'. retrieveAsString len b = Inr (take (unat len) (content b), b') \<and> buf_wf b' \<and>
              buffer b' = buffer b \<and> content b' = drop (unat len) (content b)"
  using retrieve_spec [OF assms] assms
  by (auto simp: retrieveAsString_def le_readableBytes string_at_peek)

lemma retrieveAllAsString_spec:
  assumes "buf_wf b"
  shows "\<exists>b'. retrieveAllAsString b = Inr (content b, b') \<and> buf_wf b' \<and> content b' = []"
  using retrieveAsString_spec [OF assms, of "readableBytes b"] assms
  by (auto simp: retrieveAllAsString_def unat_readableBytes)

lemma content_write:
  assumes wf: "buf_wf b" and fits: "unat (writerIndex b) + length d \<le> length (buffer b)"
    and w: "unat w = unat (writerIndex b) + length d"
  shows "content (b\<lparr>buffer := take (unat (writerIndex b)) (buffer b) @ d @ rest, writerIndex := w\<rparr>) =
           content b @ d"
  using buf_wfD [OF wf] fits w by (simp add: content_def drop_take)

lemma readableBytes_upd [simp]:
  "readableBytes (b\<lparr>buffer := v, readerIndex := r, writerIndex := w\<rparr>) = w - r"
  by (simp add: readableBytes_def)

text \<open>
  \<open>makeSpace\<close> is called only when the writable area is too small. Then either the vector grows, or
  the readable bytes move down to the end of the prepend area; the assertion that they really lie
  above it cannot fail.
\<close>

lemma makeSpace_compacts:
  assumes wf: "buf_wf b" and small: "writableBytes b < len" and room: "buf_room (unat len) b"
    and big: "\<not> writableBytes b + prependableBytes b < len + kCheapPrepend"
  shows "8 < unat (readerIndex b) \<and>
    unat len + 8 \<le> length (buffer b) - unat (writerIndex b) + unat (readerIndex b)"
proof -
  have w: "unat (writableBytes b) = length (buffer b) - unat (writerIndex b)"
    using wf by (rule unat_writableBytes)
  have "unat (writableBytes b) + unat (prependableBytes b) < 2 ^ LENGTH(64)"
    using buf_wfD [OF wf] w by (simp add: prependableBytes_def)
  then have 1: "unat (writableBytes b + prependableBytes b) =
      length (buffer b) - unat (writerIndex b) + unat (readerIndex b)"
    using w by (simp add: unat_add_less prependableBytes_def)
  have "unat len + unat kCheapPrepend < 2 ^ LENGTH(64)"
    using room by (simp add: buf_room_def)
  then have 2: "unat (len + kCheapPrepend) = unat len + 8"
    by (simp add: unat_add_less)
  show ?thesis
    using big small w 1 2 by (simp add: word_nat_conv)
qed

lemma makeSpace_spec:
  assumes wf: "buf_wf b" and small: "writableBytes b < len" and room: "buf_room (unat len) b"
  shows "\<exists>b'. makeSpace len b = Inr b' \<and> buf_wf b' \<and> content b' = content b \<and>
              unat (writerIndex b') + unat len \<le> length (buffer b') \<and>
              length (buffer b') \<le> length (buffer b) + unat len"
proof (cases "writableBytes b + prependableBytes b < len + kCheapPrepend")
  case True
  have "unat (writerIndex b) + unat len < 2 ^ LENGTH(64)"
    using wf room by (simp add: buf_wf_def buf_room_def)
  then have sum: "unat (writerIndex b + len) = unat (writerIndex b) + unat len"
    by (rule unat_add_less)
  have grow: "length (buffer b) < unat (writerIndex b) + unat len"
    using small wf by (simp add: word_nat_conv unat_writableBytes)
  with True wf room sum show ?thesis
    by (simp add: makeSpace_def buf_wf_def buf_room_def content_def vec_resize_def)
next
  case False
  from makeSpace_compacts [OF wf small room False]
  have low: "8 < unat (readerIndex b)" and fits:
    "unat len + 8 \<le> length (buffer b) - unat (writerIndex b) + unat (readerIndex b)" by auto
  let ?k = "length (content b)"
  have k: "?k = unat (readableBytes b)" using wf by (simp add: unat_readableBytes)
  have kle: "8 + ?k \<le> length (buffer b)" using buf_wfD [OF wf] wf low by simp
  have copy: "vec_copy 8 (content b) (buffer b) =
      Inr (take 8 (buffer b) @ content b @ drop (8 + ?k) (buffer b))"
    using kle by (simp add: vec_copy_def del: length_content)
  have "unat kCheapPrepend + unat (readableBytes b) < 2 ^ LENGTH(64)"
    using kle wf k by (simp add: buf_wf_def del: length_content)
  then have w': "unat (kCheapPrepend + readableBytes b) = 8 + ?k"
    using k by (simp add: unat_add_less del: length_content)
  let ?v = "take 8 (buffer b) @ content b @ drop (8 + ?k) (buffer b)"
  let ?b = "b\<lparr>buffer := ?v, readerIndex := kCheapPrepend, writerIndex := kCheapPrepend + readableBytes b\<rparr>"
  have v: "length ?v = length (buffer b)" using kle by (simp del: length_content)
  have "buf_wf ?b" using v w' kle buf_wfD [OF wf] by (simp add: buf_wf_def del: length_content)
  moreover have "content ?b = content b"
    unfolding content_def [of ?b] using w' buf_wfD(3) [OF wf] by (simp del: length_content)
  moreover have "8 + ?k + unat len \<le> length (buffer b)"
    using fits buf_wfD [OF wf] wf by simp
  moreover have "makeSpace len b = Inr ?b"
    using False low copy k wf
    by (simp add: makeSpace_def Let_def take_peek word_nat_conv del: length_content)
  ultimately show ?thesis using v w' by (simp del: length_content)
qed

lemma ensureWritableBytes_spec:
  assumes wf: "buf_wf b" and room: "buf_room (unat len) b"
  shows "\<exists>b'. ensureWritableBytes len b = Inr b' \<and> buf_wf b' \<and> content b' = content b \<and>
              unat (writerIndex b') + unat len \<le> length (buffer b') \<and>
              length (buffer b') \<le> length (buffer b) + unat len"
proof (cases "writableBytes b < len")
  case True
  from makeSpace_spec [OF wf this room] True show ?thesis
    by (auto simp: ensureWritableBytes_def word_nat_conv unat_writableBytes)
next
  case False
  with wf show ?thesis
    using buf_wfD [OF wf]
    by (auto simp: ensureWritableBytes_def word_nat_conv unat_writableBytes)
qed

text \<open>\<open>append\<close> adds exactly the given bytes behind the readable ones.\<close>

lemma append_buf_spec:
  assumes wf: "buf_wf b" and room: "buf_room (unat len) b" and len: "unat len \<le> length data"
  shows "\<exists>b'. append_buf data len b = Inr b' \<and> buf_wf b' \<and>
              content b' = content b @ take (unat len) data \<and>
              length (buffer b') \<le> length (buffer b) + unat len"
proof -
  from ensureWritableBytes_spec [OF wf room] obtain b1 where
    b1: "ensureWritableBytes len b = Inr b1" "buf_wf b1" "content b1 = content b"
        "unat (writerIndex b1) + unat len \<le> length (buffer b1)"
        "length (buffer b1) \<le> length (buffer b) + unat len" by blast
  let ?d = "take (unat len) data"
  let ?v = "take (unat (writerIndex b1)) (buffer b1) @ ?d @
            drop (unat (writerIndex b1) + unat len) (buffer b1)"
  have copy: "vec_copy (unat (writerIndex b1)) ?d (buffer b1) = Inr ?v"
    using b1(4) len by (simp add: vec_copy_def min_def)
  have "unat (writerIndex b1) + unat len < 2 ^ LENGTH(64)"
    using b1(4) buf_wfD(4) [OF b1(2)] by simp
  then have w: "unat (writerIndex b1 + len) = unat (writerIndex b1) + unat len"
    by (rule unat_add_less)
  have v: "length ?v = length (buffer b1)"
    using b1(4) len by simp
  have "buf_wf (hasWritten len (b1\<lparr>buffer := ?v\<rparr>))"
    using b1(4) buf_wfD [OF b1(2)] w v by (simp only: hasWritten_def buf_wf_def) simp
  moreover have "content (hasWritten len (b1\<lparr>buffer := ?v\<rparr>)) = content b1 @ ?d"
    using content_write [OF b1(2), of ?d] b1(4) len w
    by (simp add: hasWritten_def min_absorb2)
  ultimately show ?thesis
    using b1 copy len v by (simp add: append_buf_def string_at_def hasWritten_def)
qed


lemma prepend_spec:
  assumes wf: "buf_wf b" and le: "unat len \<le> unat (readerIndex b)" and len: "unat len = length data"
  shows "\<exists>b'. prepend data len b = Inr b' \<and> buf_wf b' \<and> content b' = data @ content b \<and>
              length (buffer b') = length (buffer b)"
proof -
  let ?r = "unat (readerIndex b) - length data"
  have r: "unat (readerIndex b - len) = ?r"
    using le len by (simp add: unat_sub word_nat_conv)
  let ?v = "take ?r (buffer b) @ data @ drop (unat (readerIndex b)) (buffer b)"
  let ?b = "b\<lparr>readerIndex := readerIndex b - len, buffer := ?v\<rparr>"
  have copy: "vec_copy ?r data (buffer b) = Inr ?v"
    using le len buf_wfD [OF wf] by (simp add: vec_copy_def)
  have v: "length ?v = length (buffer b)"
    using le len buf_wfD [OF wf] by simp
  have "buf_wf ?b" using v r buf_wfD [OF wf] by (simp only: buf_wf_def) simp
  moreover have "content ?b = data @ content b"
    using le len r buf_wfD [OF wf] by (simp add: content_def)
  ultimately show ?thesis
    using v copy r le len
    by (simp add: prepend_def prependableBytes_def word_nat_conv Let_def string_at_def)
qed

lemma prepend_too_much: "unat (readerIndex b) < unat len \<Longrightarrow> prepend data len b = Inl AssertFail"
  by (simp add: prepend_def prependableBytes_def word_nat_conv)

lemma readFd_error [simp]: "readFd (ReadError e) b = Inr (-1, Some e, b)"
  by (simp add: readFd_def Let_def)

lemma buf_wf_full:
  assumes wf: "buf_wf b" and v: "v = take (unat (writerIndex b)) (buffer b) @ d"
    and l: "length v = length (buffer b)" and w: "unat w = length v"
  shows "buf_wf (b\<lparr>buffer := v, writerIndex := w\<rparr>)"
    and "content (b\<lparr>buffer := v, writerIndex := w\<rparr>) = content b @ d"
proof -
  show "buf_wf (b\<lparr>buffer := v, writerIndex := w\<rparr>)"
    using l w buf_wfD [OF wf] by (simp add: buf_wf_def)
  have "unat (writerIndex b) + length d = length v"
    using v buf_wfD [OF wf] by simp
  then show "content (b\<lparr>buffer := v, writerIndex := w\<rparr>) = content b @ d"
    using content_write [OF wf, of d w "[]"] w v l by simp
qed

lemma readFd_spec:
  assumes wf: "buf_wf b" and n: "length bs \<le> unat (writableBytes b) + 65536"
    and room: "buf_room (length bs) b"
  shows "\<exists>b'. readFd (ReadBytes bs) b = Inr (int (length bs), None, b') \<and> buf_wf b' \<and>
              content b' = content b @ bs \<and> length (buffer b') \<le> length (buffer b) + length bs"
proof (cases "length bs \<le> unat (writableBytes b)")
  case True
  have fits: "unat (writerIndex b) + length bs \<le> length (buffer b)"
    using True unat_writableBytes [OF wf] buf_wfD [OF wf] by simp
  then have "unat (writerIndex b) + unat (word_of_nat (length bs) :: size_t) < 2 ^ LENGTH(64)"
    using buf_wfD [OF wf] by simp
  from unat_add_less [OF this]
  have w: "unat (writerIndex b + word_of_nat (length bs)) = unat (writerIndex b) + length bs"
    using fits buf_wfD [OF wf] by simp
  let ?v = "take (unat (writerIndex b)) (buffer b) @ bs @ drop (unat (writerIndex b) + length bs) (buffer b)"
  let ?b = "b\<lparr>buffer := ?v, writerIndex := writerIndex b + word_of_nat (length bs)\<rparr>"
  have v: "length ?v = length (buffer b)" using fits by simp
  have "buf_wf ?b" using v w fits buf_wfD [OF wf] by (simp only: buf_wf_def) simp
  moreover have "content ?b = content b @ bs"
    using content_write [OF wf fits w] .
  ultimately show ?thesis
    using True v fits by (simp add: readFd_def Let_def vec_copy_def)
next
  case False
  let ?k = "unat (writableBytes b)"
  define v where "v = take (unat (writerIndex b)) (buffer b) @ take ?k bs"
  let ?b = "b\<lparr>buffer := v, writerIndex := word_of_nat (length v)\<rparr>"
  have k: "?k = length (buffer b) - unat (writerIndex b)" using wf by (rule unat_writableBytes)
  have v: "length v = length (buffer b)" using False k buf_wfD [OF wf] by (simp add: v_def)
  then have "unat (word_of_nat (length v) :: size_t) = length v" using buf_wfD [OF wf] by simp
  note b = buf_wf_full [OF wf v_def v this]
  let ?m = "word_of_nat (length bs - ?k) :: size_t"
  have m: "unat ?m = length bs - ?k"
    using room by (simp add: buf_room_def del: of_nat_diff)
  have "buf_room (unat ?m) ?b" using room v m by (simp add: buf_room_def del: of_nat_diff)
  from append_buf_spec [OF b(1) this, of "drop ?k bs"] m v obtain b2 where
    b2: "append_buf (drop ?k bs) ?m ?b = Inr b2" "buf_wf b2"
        "content b2 = content ?b @ drop ?k bs" "length (buffer b2) \<le> length v + (length bs - ?k)"
    by (auto simp del: of_nat_diff)
  have copy: "vec_copy (unat (writerIndex b)) (take ?k bs) (buffer b) = Inr v"
    using False k buf_wfD [OF wf] by (simp add: vec_copy_def v_def)
  show ?thesis
    using False n b(2) b2 copy v
    by (simp add: readFd_def Let_def sizeof_extrabuf_def del: of_nat_diff)
qed

lemma readFd_overrun:
  "unat (writableBytes b) + 65536 < length bs \<Longrightarrow> readFd (ReadBytes bs) b = Inl UndefinedBehaviour"
  by (simp add: readFd_def Let_def sizeof_extrabuf_def)


section \<open>Line search\<close>

lemma search_Some:
  "search pat xs = Some k \<Longrightarrow>
     take (length pat) (drop k xs) = pat \<and> (\<forall>j<k. take (length pat) (drop j xs) \<noteq> pat)"
proof (induction pat xs arbitrary: k rule: search.induct)
  case (1 pat xs)
  show ?case
  proof (cases "take (length pat) xs = pat")
    case True
    with "1.prems" show ?thesis by (simp add: search.simps [of pat xs])
  next
    case False
    with "1.prems" obtain y ys k' where xs: "xs = y # ys" and k: "k = Suc k'" "search pat ys = Some k'"
      by (auto simp: search.simps [of pat xs] split: list.splits)
    from "1.IH" [OF False xs k(2)] False xs k(1) show ?thesis
      by (auto simp: less_Suc_eq_0_disj)
  qed
qed

lemma search_None:
  "search pat xs = None \<Longrightarrow> pat \<noteq> [] \<Longrightarrow> take (length pat) (drop j xs) \<noteq> pat"
proof (induction pat xs arbitrary: j rule: search.induct)
  case (1 pat xs)
  then have neq: "take (length pat) xs \<noteq> pat"
    by (auto simp: search.simps [of pat xs] split: if_splits)
  show ?case
  proof (cases xs)
    case Nil
    with neq show ?thesis by simp
  next
    case (Cons y ys)
    with "1.prems" neq have "search pat ys = None"
      by (simp add: search.simps [of pat "y # ys"])
    with "1.IH" [OF neq Cons] neq Cons "1.prems" show ?thesis by (cases j) auto
  qed
qed

lemma findCRLF_search: "buf_wf b \<Longrightarrow>
    findCRLF b = map_option (\<lambda>k. unat (readerIndex b) + k) (search kCRLF (content b))"
  by (simp add: findCRLF_def unat_readableBytes take_peek del: length_content)

lemma retrieveUntil_spec:
  assumes wf: "buf_wf b" and n: "n \<le> length (content b)"
  shows "\<exists>b'. retrieveUntil (unat (readerIndex b) + n) b = Inr b' \<and> buf_wf b' \<and>
              content b' = drop n (content b)"
proof -
  have "unat (word_of_nat n :: size_t) = n"
    using n buf_wfD [OF wf] wf by simp
  with retrieve_spec [OF wf, of "word_of_nat n"] n buf_wfD [OF wf] wf show ?thesis
    by (auto simp: retrieveUntil_def)
qed


section \<open>The buffer as a byte queue\<close>

text \<open>
  The contract the codec and the connections rely on: bytes come out in the order they went in, and
  taking out more than is there aborts. \<open>run_ops\<close> drives a queue through a sequence of writes and reads.
\<close>

datatype queue_op = Put "char list" | Get nat

fun run_ops ::
  "(char list \<Rightarrow> 'q \<Rightarrow> 'q res) \<Rightarrow> (nat \<Rightarrow> 'q \<Rightarrow> (char list \<times> 'q) res) \<Rightarrow> queue_op list \<Rightarrow> 'q \<Rightarrow> (char list \<times> 'q) res"
where
  "run_ops put get [] q = Inr ([], q)"
| "run_ops put get (Put d # ops) q = res_bind (put d q) (run_ops put get ops)"
| "run_ops put get (Get n # ops) q =
     res_bind (get n q) (\<lambda>(x, q').
     res_bind (run_ops put get ops q') (\<lambda>(y, q''). Inr (x @ y, q'')))"

fun puts :: "queue_op list \<Rightarrow> char list" where
  "puts [] = []"
| "puts (Put d # ops) = d @ puts ops"
| "puts (Get n # ops) = puts ops"

text \<open>No read of the sequence asks for more than \<open>k\<close> plus what was written before it.\<close>

fun ops_ok :: "nat \<Rightarrow> queue_op list \<Rightarrow> bool" where
  "ops_ok k [] \<longleftrightarrow> True"
| "ops_ok k (Put d # ops) \<longleftrightarrow> ops_ok (k + length d) ops"
| "ops_ok k (Get n # ops) \<longleftrightarrow> n \<le> k \<and> ops_ok (k - n) ops"

locale byte_queue =
  fixes wf :: "'q \<Rightarrow> bool"
    and bytes :: "'q \<Rightarrow> char list"
    and space :: "'q \<Rightarrow> nat"
    and put :: "char list \<Rightarrow> 'q \<Rightarrow> 'q res"
    and get :: "nat \<Rightarrow> 'q \<Rightarrow> (char list \<times> 'q) res"
  assumes put_law: "wf q \<Longrightarrow> length d \<le> space q \<Longrightarrow>
      \<exists>q'. put d q = Inr q' \<and> wf q' \<and> bytes q' = bytes q @ d \<and> space q \<le> space q' + length d"
    and get_law: "wf q \<Longrightarrow> n \<le> length (bytes q) \<Longrightarrow>
      \<exists>q'. get n q = Inr (take n (bytes q), q') \<and> wf q' \<and> bytes q' = drop n (bytes q) \<and> space q' = space q"
    and get_law_abort: "wf q \<Longrightarrow> length (bytes q) < n \<Longrightarrow> n < 2 ^ 64 \<Longrightarrow> get n q = Inl AssertFail"
begin

lemma put_all:
  "wf q \<Longrightarrow> length (concat ds) \<le> space q \<Longrightarrow>
     \<exists>q'. res_fold put ds q = Inr q' \<and> wf q' \<and> bytes q' = bytes q @ concat ds"
proof (induction ds arbitrary: q)
  case (Cons d ds)
  from put_law [OF Cons.prems(1), of d] Cons.prems(2) obtain q1 where
    q1: "put d q = Inr q1" "wf q1" "bytes q1 = bytes q @ d" "space q \<le> space q1 + length d" by auto
  from Cons.IH [OF q1(2)] Cons.prems(2) q1 show ?case by force
qed simp

lemma fifo:
  "wf q \<Longrightarrow> ops_ok (length (bytes q)) ops \<Longrightarrow> length (puts ops) \<le> space q \<Longrightarrow>
     \<exists>got q'. run_ops put get ops q = Inr (got, q') \<and> wf q' \<and> got @ bytes q' = bytes q @ puts ops"
proof (induction ops arbitrary: q rule: puts.induct)
  case (2 d ops)
  from put_law [OF "2.prems"(1), of d] "2.prems"(3) obtain q1 where
    q1: "put d q = Inr q1" "wf q1" "bytes q1 = bytes q @ d" "space q \<le> space q1 + length d" by auto
  from "2.IH" [OF q1(2)] "2.prems" q1 show ?case by force
next
  case (3 n ops)
  from get_law [OF "3.prems"(1), of n] "3.prems"(2) obtain q1 where
    q1: "get n q = Inr (take n (bytes q), q1)" "wf q1" "bytes q1 = drop n (bytes q)" "space q1 = space q"
    by auto
  from "3.IH" [OF q1(2)] "3.prems" q1 obtain got q' where
    r: "run_ops put get ops q1 = Inr (got, q')" "wf q'" "got @ bytes q' = drop n (bytes q) @ puts ops"
    by auto
  have "take n (bytes q) @ got @ bytes q' = bytes q @ puts ops"
    unfolding r(3) by (simp only: append.assoc [symmetric] append_take_drop_id)
  with r q1 show ?case by simp
qed simp

lemma abort:
  "wf q \<Longrightarrow> \<not> ops_ok (length (bytes q)) ops \<Longrightarrow> length (puts ops) \<le> space q \<Longrightarrow>
     (\<forall>n. Get n \<in> set ops \<longrightarrow> n < 2 ^ 64) \<Longrightarrow> run_ops put get ops q = Inl AssertFail"
proof (induction ops arbitrary: q rule: puts.induct)
  case (2 d ops)
  from put_law [OF "2.prems"(1), of d] "2.prems"(3) obtain q1 where
    q1: "put d q = Inr q1" "wf q1" "bytes q1 = bytes q @ d" "space q \<le> space q1 + length d" by auto
  from "2.IH" [OF q1(2)] "2.prems" q1 show ?case by force
next
  case (3 n ops)
  show ?case
  proof (cases "n \<le> length (bytes q)")
    case True
    from get_law [OF "3.prems"(1) this] obtain q1 where
      q1: "get n q = Inr (take n (bytes q), q1)" "wf q1" "bytes q1 = drop n (bytes q)" "space q1 = space q"
      by auto
    from "3.IH" [OF q1(2)] "3.prems" q1 True show ?thesis by simp
  next
    case False
    with get_law_abort [OF "3.prems"(1), of n] "3.prems"(4) show ?thesis by simp
  qed
qed simp

end

text \<open>The buffer's operations with the lengths as numbers, and the interpretation.\<close>

definition buf_put :: "char list \<Rightarrow> Buffer \<Rightarrow> Buffer res" where
  "buf_put d = append_buf d (word_of_nat (length d))"

definition buf_get :: "nat \<Rightarrow> Buffer \<Rightarrow> (char list \<times> Buffer) res" where
  "buf_get n = retrieveAsString (word_of_nat n)"

definition buf_space :: "Buffer \<Rightarrow> nat" where
  "buf_space b = 2 ^ 64 - 9 - length (buffer b)"

lemma buf_put_Nil: "buf_wf b \<Longrightarrow> buf_put [] b = Inr b"
  using buf_wfD [of b]
  by (simp add: buf_put_def append_buf_def ensureWritableBytes_def string_at_def vec_copy_def hasWritten_def)

lemma buf_put_spec:
  assumes wf: "buf_wf b" and d: "length d \<le> buf_space b"
  shows "\<exists>b'. buf_put d b = Inr b' \<and> buf_wf b' \<and> content b' = content b @ d \<and>
              length (buffer b') \<le> length (buffer b) + length d"
proof (cases d)
  case Nil
  with buf_put_Nil [OF wf] wf show ?thesis by simp
next
  case (Cons x xs)
  have l: "unat (word_of_nat (length d) :: size_t) = length d"
    using d by (simp add: buf_space_def)
  have "length (buffer b) + length d + 8 < 2 ^ 64"
    using d Cons by (simp add: buf_space_def)
  then have "buf_room (unat (word_of_nat (length d) :: size_t)) b"
    unfolding l buf_room_def .
  from append_buf_spec [OF wf this, of d] show ?thesis unfolding l buf_put_def by simp
qed

interpretation bq: byte_queue buf_wf content buf_space buf_put buf_get
proof unfold_locales
  fix b :: Buffer and d :: "char list"
  assume "buf_wf b" and "length d \<le> buf_space b"
  from buf_put_spec [OF this]
  show "\<exists>b'. buf_put d b = Inr b' \<and> buf_wf b' \<and> content b' = content b @ d \<and> buf_space b \<le> buf_space b' + length d"
    by (fastforce simp: buf_space_def)
next
  fix b :: Buffer and n :: nat
  assume wf: "buf_wf b" and n: "n \<le> length (content b)"
  then have "unat (word_of_nat n :: size_t) = n" using buf_wfD [OF wf] by simp
  with retrieveAsString_spec [OF wf, of "word_of_nat n"] n
  show "\<exists>b'. buf_get n b = Inr (take n (content b), b') \<and> buf_wf b' \<and> content b' = drop n (content b) \<and>
             buf_space b' = buf_space b"
    by (auto simp: buf_get_def buf_space_def)
next
  fix b :: Buffer and n :: nat
  assume wf: "buf_wf b" and n: "length (content b) < n" and "n < 2 ^ 64"
  then have "unat (word_of_nat n :: size_t) = n" by simp
  with wf n show "buf_get n b = Inl AssertFail"
    by (simp add: buf_get_def retrieveAsString_def le_readableBytes del: length_content)
qed


section \<open>Properties\<close>

text \<open>
  C40. Bytes leave a buffer exactly in the order they entered it: any sequence of appends and
  \<open>retrieveAsString\<close> calls that never asks for more than is readable runs without an assertion
  failing (through every growth and compaction of the vector), keeps the index invariant, and what was
  read followed by what is left equals what was there followed by what was appended.
\<close>

theorem buffer_fifo:
  assumes "buf_wf b" and "ops_ok (length (content b)) ops" and "length (puts ops) \<le> buf_space b"
  shows "\<exists>got b'. run_ops buf_put buf_get ops b = Inr (got, b') \<and> buf_wf b' \<and>
                  got @ content b' = content b @ puts ops"
  using assms by (rule bq.fifo)

theorem buffer_fifo_witness:
  "\<exists>got b'. run_ops buf_put buf_get [Put ''abc'', Get 2, Put ''de'', Get 3] new_Buffer = Inr (got, b') \<and>
            buf_wf b' \<and> got @ content b' = ''abcde''"
  using buffer_fifo [of new_Buffer "[Put ''abc'', Get 2, Put ''de'', Get 3]"]
  by (simp add: buf_space_def new_Buffer_def [THEN arg_cong [of _ _ buffer]] kCheapPrepend_def kInitialSize_def)

text \<open>
  A read that asks for more than is readable is caught by the assertion in \<open>retrieveAsString\<close>:
  the run aborts instead of returning bytes that were never written.
\<close>

theorem buffer_overread_aborts:
  assumes "buf_wf b" and "\<not> ops_ok (length (content b)) ops" and "length (puts ops) \<le> buf_space b"
    and "\<forall>n. Get n \<in> set ops \<longrightarrow> n < 2 ^ 64"
  shows "run_ops buf_put buf_get ops b = Inl AssertFail"
  using assms by (rule bq.abort)

theorem buffer_overread_aborts_witness:
  "run_ops buf_put buf_get [Put ''abc'', Get 4] new_Buffer = Inl AssertFail"
  using buffer_overread_aborts [of new_Buffer "[Put ''abc'', Get 4]"]
  by (simp add: buf_space_def new_Buffer_def [THEN arg_cong [of _ _ buffer]] kCheapPrepend_def kInitialSize_def)

text \<open>
  \<open>readFd\<close> stores everything one \<open>readv\<close> delivers, whether it fits the writable area or spills into
  the 64 KiB stack buffer: the contents grow by exactly the received bytes and the count is returned.
\<close>

theorem readFd_appends:
  assumes "buf_wf b" and "length bs \<le> unat (writableBytes b) + 65536"
    and "length (buffer b) + length bs + 8 < 2 ^ 64"
  shows "\<exists>b'. readFd (ReadBytes bs) b = Inr (int (length bs), None, b') \<and> buf_wf b' \<and>
              content b' = content b @ bs"
  using readFd_spec [OF assms(1,2)] assms(3) by (auto simp: buf_room_def)

theorem readFd_appends_witness:
  "\<exists>b'. readFd (ReadBytes (replicate 2000 CHR ''x'')) new_Buffer = Inr (2000, None, b') \<and> buf_wf b' \<and>
        content b' = replicate 2000 CHR ''x''"
  using readFd_appends [of new_Buffer "replicate 2000 CHR ''x''"]
  by (simp add: new_Buffer_def [THEN arg_cong [of _ _ buffer]] kCheapPrepend_def kInitialSize_def)

text \<open>
  \<open>findCRLF\<close> points at the first line end: retrieving up to and including it removes one complete
  line, which itself holds no CRLF, and leaves the rest untouched.
\<close>

theorem findCRLF_line:
  assumes wf: "buf_wf b" and p: "findCRLF b = Some p"
  shows "\<exists>line b'. retrieveUntil (p + 2) b = Inr b' \<and> buf_wf b' \<and>
           content b = line @ kCRLF @ content b' \<and> length line = p - unat (readerIndex b) \<and>
           (\<forall>j < length line. take 2 (drop j (content b)) \<noteq> kCRLF)"
proof -
  from wf p obtain k where k: "search kCRLF (content b) = Some k" and pk: "p = unat (readerIndex b) + k"
    by (auto simp: findCRLF_search)
  have two: "length kCRLF = 2" by (simp add: kCRLF_def)
  from search_Some [OF k] have here: "take 2 (drop k (content b)) = kCRLF"
    and first: "\<forall>j<k. take 2 (drop j (content b)) \<noteq> kCRLF" by (simp_all add: two)
  have le: "k + 2 \<le> length (content b)"
    using arg_cong [OF here, of length] by (simp add: two del: length_content)
  from retrieveUntil_spec [OF wf le] pk obtain b' where
    b': "retrieveUntil (p + 2) b = Inr b'" "buf_wf b'" "content b' = drop (k + 2) (content b)"
    by (auto simp: add.assoc)
  have "content b = take k (content b) @ take 2 (drop k (content b)) @ drop 2 (drop k (content b))"
    by (simp only: append_take_drop_id)
  with b' here have "content b = take k (content b) @ kCRLF @ content b'"
    by (simp add: add.commute)
  moreover have "length (take k (content b)) = k" using le by (simp del: length_content)
  ultimately show ?thesis using b' first pk by auto
qed

theorem findCRLF_line_witness:
  "\<exists>line b'. retrieveUntil 12 (new_Buffer\<lparr>buffer := replicate 8 NUL @ ''ab'' @ kCRLF @ ''cd'',
                                          writerIndex := 14\<rparr>) = Inr b' \<and> buf_wf b' \<and>
     ''ab'' @ kCRLF @ ''cd'' = line @ kCRLF @ content b' \<and> length line = 2"
proof -
  let ?b = "new_Buffer\<lparr>buffer := replicate 8 NUL @ ''ab'' @ kCRLF @ ''cd'', writerIndex := 14\<rparr>"
  have wf: "buf_wf ?b" by (simp add: buf_wf_def new_Buffer_def kCheapPrepend_def kCRLF_def)
  have c: "content ?b = ''ab'' @ kCRLF @ ''cd''"
    by (simp add: content_def new_Buffer_def kCheapPrepend_def kCRLF_def)
  have r: "unat (readerIndex ?b) = 8" by (simp add: new_Buffer_def kCheapPrepend_def)
  have f: "findCRLF ?b = Some 10"
    unfolding findCRLF_search [OF wf] c r by (simp add: search.simps kCRLF_def)
  from findCRLF_line [OF wf f] c r show ?thesis by auto
qed

end
