(* ===== verification/Codec.thy ===== *)
theory Codec
  imports Buffer
begin

text \<open>
  \<^verbatim>\<open>LengthHeaderCodec\<close> of \<^verbatim>\<open>base/inc/codec.h\<close>, which turns the byte stream of a connection into
  messages: each message travels behind its length as a 32-bit big-endian integer. The message
  callback and the two operations of the connection that the codec calls (\<^verbatim>\<open>shutdown\<close>, \<^verbatim>\<open>send(Buffer*)\<close>)
  are arguments acting on a state \<open>'s\<close>; the input buffer is no part of that state, because no
  callback of the program touches it. \<^verbatim>\<open>sleep(1)\<close> and console output are not modelled.
\<close>

section \<open>The code\<close>

record StringPiece =
  ptr :: "char list"
  length_sp :: int32

text \<open>The constructors from \<^verbatim>\<open>const char*\<close> (up to the NUL) and from \<^verbatim>\<open>std::string\<close> (all of it).\<close>

definition StringPiece_of_cstr :: "char list \<Rightarrow> StringPiece" where
  "StringPiece_of_cstr p = \<lparr>ptr = p, length_sp = word_of_nat (length (takeWhile (\<lambda>c. c \<noteq> NUL) p))\<rparr>"

definition StringPiece_of_string :: "string \<Rightarrow> StringPiece" where
  "StringPiece_of_string s = \<lparr>ptr = s, length_sp = word_of_nat (length s)\<rparr>"

definition kHeaderLen :: size_t where
  "kHeaderLen = 4"

text \<open>An \<^verbatim>\<open>int32_t\<close> in a \<^verbatim>\<open>size_t\<close> expression is sign-extended.\<close>

definition size_of_int32 :: "int32 \<Rightarrow> size_t" where
  "size_of_int32 w = word_of_int (sint w)"

lemma retrieve_readable:
  assumes "retrieve n b = Inr b'"
  shows "unat (readableBytes b') = unat (readableBytes b) - unat n"
proof (cases "n < readableBytes b")
  case True
  have "readableBytes b' = readableBytes b - n"
    using assms True by (auto simp: retrieve_def readableBytes_def)
  with True show ?thesis by (simp add: unat_sub)
next
  case False
  then have "n = readableBytes b" using assms by (auto simp: retrieve_def)
  moreover have "b' = retrieveAll b" using assms False by (auto simp: retrieve_def)
  ultimately show ?thesis by (simp add: retrieveAll_def readableBytes_def)
qed

function onMessage :: "('s \<Rightarrow> string \<Rightarrow> 's res) \<Rightarrow> ('s \<Rightarrow> 's res) \<Rightarrow> 's \<Rightarrow> Buffer \<Rightarrow> ('s \<times> Buffer) res" where
  "onMessage messageCallback shutdown s buf =
     (if kHeaderLen \<le> readableBytes buf then
        res_bind (string_at (peek buf) kHeaderLen) (\<lambda>data.
        let be32 = load32 data; len = bswap32 be32 in
        if sint len > 65536 \<or> sint len < 0 then
          res_bind (shutdown s) (\<lambda>s'. Inr (s', buf))
        else if size_of_int32 len + kHeaderLen \<le> readableBytes buf then
          res_bind (retrieve kHeaderLen buf) (\<lambda>buf1.
          res_bind (string_at (peek buf1) (size_of_int32 len)) (\<lambda>message.
          res_bind (messageCallback s message) (\<lambda>s'.
          res_bind (retrieve (size_of_int32 len) buf1) (\<lambda>buf2.
          onMessage messageCallback shutdown s' buf2))))
        else Inr (s, buf))
      else Inr (s, buf))"
  by pat_completeness auto
termination
  by (relation "measure (\<lambda>(cb, sd, s, buf). unat (readableBytes buf))")
    (auto dest!: retrieve_readable simp: kHeaderLen_def word_nat_conv)

declare onMessage.simps [simp del]

definition codec_send :: "(Buffer \<Rightarrow> 's \<Rightarrow> 's res) \<Rightarrow> StringPiece \<Rightarrow> 's \<Rightarrow> 's res" where
  "codec_send conn_send message s =
     res_bind (append_buf (ptr message) (size_of_int32 (length_sp message)) new_Buffer) (\<lambda>buf.
     let len = length_sp message; be32 = bswap32 len in
     res_bind (prepend (store32 be32) 4 buf) (\<lambda>buf'.
     conn_send buf' s))"


section \<open>Abstract framing\<close>

text \<open>
  The wire format without buffers: \<open>encode\<close> is one frame, \<open>parse\<close> splits a byte sequence into the
  complete messages at its front, the bytes left over, and whether an invalid length stopped it.
\<close>

definition header_value :: "char list \<Rightarrow> int" where
  "header_value h = sint (load32 (rev h))"

definition encode :: "string \<Rightarrow> char list" where
  "encode m = rev (store32 (word_of_nat (length m))) @ m"

function parse :: "char list \<Rightarrow> string list \<times> char list \<times> bool" where
  "parse bs =
     (if length bs < 4 then ([], bs, False)
      else let len = header_value (take 4 bs) in
        if len > 65536 \<or> len < 0 then ([], bs, True)
        else if nat len + 4 \<le> length bs then
          (case parse (drop (nat len + 4) bs) of
             (ms, rest, bad) \<Rightarrow> (take (nat len) (drop 4 bs) # ms, rest, bad))
        else ([], bs, False))"
  by pat_completeness auto
termination
  by (relation "measure length") auto

declare parse.simps [simp del]

lemma bswap32_load32: "length h = 4 \<Longrightarrow> bswap32 (load32 h) = load32 (rev h)"
  by (simp add: bswap32_def store32_load32)

lemma sint_word_of_nat_small: "n < 2 ^ 31 \<Longrightarrow> sint (word_of_nat n :: int32) = int n"
  by (simp add: signed_of_nat signed_take_bit_int_eq_self)

lemma header_value_encode: "n < 2 ^ 31 \<Longrightarrow> header_value (rev (store32 (word_of_nat n))) = int n"
  by (simp add: header_value_def sint_word_of_nat_small)

lemma unat_size_of_int32:
  assumes "0 \<le> sint w"
  shows "unat (size_of_int32 w) = nat (sint w)"
proof -
  have "sint w < 2 ^ (LENGTH(32) - 1)" by (rule sint_lt)
  with assms have "take_bit 64 (sint w) = sint w" by (intro take_bit_int_eq_self) simp_all
  then have "uint (size_of_int32 w) = sint w"
    using assms unfolding size_of_int32_def unsigned_of_int by simp
  then show ?thesis by (metis unat_eq_nat_uint)
qed


lemma parse_encode_append:
  assumes "length m \<le> 65536"
  shows "parse (encode m @ bs) = (case parse bs of (ms, rest, bad) \<Rightarrow> (m # ms, rest, bad))"
  using assms
  by (subst parse.simps) (simp add: encode_def header_value_encode Let_def)

lemma parse_encodes:
  "(\<And>m. m \<in> set ms \<Longrightarrow> length m \<le> 65536) \<Longrightarrow> parse (concat (map encode ms)) = (ms, [], False)"
proof (induction ms)
  case Nil
  show ?case by (simp add: parse.simps)
next
  case (Cons m ms)
  then show ?case by (simp add: parse_encode_append)
qed

text \<open>
  Parsing is incremental: what arrives later neither changes the messages already found nor the
  verdict on an invalid length.
\<close>

lemma parse_append_good:
  "parse xs = (ms, rest, False) \<Longrightarrow>
     parse (xs @ ys) = (case parse (rest @ ys) of (ms', rest', bad) \<Rightarrow> (ms @ ms', rest', bad))"
proof (induction xs arbitrary: ms rule: parse.induct)
  case (1 xs)
  let ?len = "header_value (take 4 xs)"
  show ?case
  proof (cases "4 \<le> length xs \<and> ?len \<le> 65536 \<and> 0 \<le> ?len \<and> nat ?len + 4 \<le> length xs")
    case False
    with "1.prems" have "ms = [] \<and> rest = xs"
      by (auto simp: parse.simps [of xs] Let_def split: if_splits)
    then show ?thesis by (simp split: prod.splits)
  next
    case True
    obtain ms1 where rec: "parse (drop (nat ?len + 4) xs) = (ms1, rest, False)"
      and ms: "ms = take (nat ?len) (drop 4 xs) # ms1"
      using "1.prems" True by (auto simp: parse.simps [of xs] Let_def split: prod.splits)
    have "parse (drop (nat ?len + 4) xs @ ys) =
        (case parse (rest @ ys) of (ms', rest', bad) \<Rightarrow> (ms1 @ ms', rest', bad))"
      using True by (intro "1.IH" rec) auto
    with True ms show ?thesis
      by (simp add: parse.simps [of "xs @ ys"] Let_def split: prod.splits)
  qed
qed

lemma parse_append_bad: "parse xs = (ms, rest, True) \<Longrightarrow> parse (xs @ ys) = (ms, rest @ ys, True)"
proof (induction xs arbitrary: ms rule: parse.induct)
  case (1 xs)
  let ?len = "header_value (take 4 xs)"
  show ?case
  proof (cases "4 \<le> length xs \<and> ?len \<le> 65536 \<and> 0 \<le> ?len \<and> nat ?len + 4 \<le> length xs")
    case False
    with "1.prems" have "4 \<le> length xs \<and> (?len > 65536 \<or> ?len < 0) \<and> ms = [] \<and> rest = xs"
      by (auto simp: parse.simps [of xs] Let_def split: if_splits)
    then show ?thesis by (simp add: parse.simps [of "xs @ ys"] Let_def)
  next
    case True
    obtain ms1 where rec: "parse (drop (nat ?len + 4) xs) = (ms1, rest, True)"
      and ms: "ms = take (nat ?len) (drop 4 xs) # ms1"
      using "1.prems" True by (auto simp: parse.simps [of xs] Let_def split: prod.splits)
    have "parse (drop (nat ?len + 4) xs @ ys) = (ms1, rest @ ys, True)"
      using True by (intro "1.IH" rec) auto
    with True ms show ?thesis
      by (simp add: parse.simps [of "xs @ ys"] Let_def)
  qed
qed



section \<open>The loop refines the abstract parser\<close>

text \<open>One round of the loop on a complete frame.\<close>

lemma header_read:
  assumes "buf_wf b" and "4 \<le> length (content b)"
  shows "string_at (peek b) kHeaderLen = Inr (take 4 (content b))"
    and "bswap32 (load32 (take 4 (content b))) = load32 (rev (take 4 (content b)))"
  using assms by (simp_all add: string_at_peek kHeaderLen_def bswap32_load32)

lemma onMessage_short:
  assumes "buf_wf b" and "length (content b) < 4"
  shows "onMessage cb sd s b = Inr (s, b)"
  using assms by (subst onMessage.simps) (simp add: le_readableBytes kHeaderLen_def)

lemma onMessage_bad:
  assumes "buf_wf b" and "4 \<le> length (content b)"
    and "header_value (take 4 (content b)) > 65536 \<or> header_value (take 4 (content b)) < 0"
  shows "onMessage cb sd s b = res_bind (sd s) (\<lambda>s'. Inr (s', b))"
  using assms header_read [OF assms(1,2)]
  by (subst onMessage.simps)
    (simp add: le_readableBytes kHeaderLen_def header_value_def Let_def del: length_content)

lemma frame_fits:
  assumes "buf_wf b" and "0 \<le> sint len" and "sint len \<le> 65536"
  shows "size_of_int32 len + kHeaderLen \<le> readableBytes b \<longleftrightarrow> nat (sint len) + 4 \<le> length (content b)"
proof -
  have "unat (size_of_int32 len) + unat kHeaderLen < 2 ^ LENGTH(64)"
    using assms by (simp add: unat_size_of_int32 kHeaderLen_def)
  then have "unat (size_of_int32 len + kHeaderLen) = nat (sint len) + 4"
    using assms by (simp add: unat_add_less unat_size_of_int32 kHeaderLen_def)
  then show ?thesis using assms by (simp add: le_readableBytes)
qed

lemma onMessage_partial:
  assumes "buf_wf b" and "4 \<le> length (content b)"
    and "0 \<le> header_value (take 4 (content b))" and "header_value (take 4 (content b)) \<le> 65536"
    and "length (content b) < nat (header_value (take 4 (content b))) + 4"
  shows "onMessage cb sd s b = Inr (s, b)"
  using assms header_read [OF assms(1,2)] frame_fits [OF assms(1), of "load32 (rev (take 4 (content b)))"]
  by (subst onMessage.simps)
    (simp add: le_readableBytes [of b 4] kHeaderLen_def header_value_def Let_def del: length_content)

lemma onMessage_frame:
  assumes wf: "buf_wf b" and four: "4 \<le> length (content b)"
    and len: "0 \<le> header_value (take 4 (content b))" "header_value (take 4 (content b)) \<le> 65536"
    and fits: "nat (header_value (take 4 (content b))) + 4 \<le> length (content b)"
  shows "\<exists>b'. buf_wf b' \<and> buffer b' = buffer b \<and>
           content b' = drop (nat (header_value (take 4 (content b))) + 4) (content b) \<and>
           (\<forall>s. onMessage cb sd s b =
              res_bind (cb s (take (nat (header_value (take 4 (content b)))) (drop 4 (content b))))
                (\<lambda>s'. onMessage cb sd s' b'))"
proof -
  let ?h = "take 4 (content b)"
  let ?w = "load32 (rev ?h)"
  let ?n = "nat (header_value ?h)"
  have n: "unat (size_of_int32 ?w) = ?n"
    using len by (simp add: unat_size_of_int32 header_value_def)
  obtain b1 where b1: "retrieve kHeaderLen b = Inr b1" "buf_wf b1" "buffer b1 = buffer b"
      "content b1 = drop 4 (content b)"
    using retrieve_spec [OF wf, of kHeaderLen] four by (auto simp: kHeaderLen_def)
  have le: "unat (size_of_int32 ?w) \<le> length (content b1)"
    using b1(4) fits n by (simp del: length_content)
  obtain b2 where b2: "retrieve (size_of_int32 ?w) b1 = Inr b2" "buf_wf b2" "buffer b2 = buffer b"
      "content b2 = drop (?n + 4) (content b)"
    using retrieve_spec [OF b1(2) le] b1 n by auto
  have msg: "string_at (peek b1) (size_of_int32 ?w) = Inr (take ?n (drop 4 (content b)))"
    using string_at_peek [OF b1(2) le] b1 n by simp
  have "onMessage cb sd s b = res_bind (cb s (take ?n (drop 4 (content b)))) (\<lambda>s'. onMessage cb sd s' b2)" for s
    using header_read [OF wf four] frame_fits [OF wf, of ?w] len fits four wf b1 b2 msg
    by (subst onMessage.simps)
      (simp add: le_readableBytes [of b 4] header_value_def Let_def kHeaderLen_def del: length_content)
  with b2 show ?thesis by blast
qed

text \<open>
  The loop delivers exactly the complete messages in the buffer, in order and each once, leaves the
  incomplete rest readable, and calls \<open>shutdown\<close> exactly when the next length is invalid.
\<close>

lemma onMessage_refines:
  assumes "buf_wf b" and "parse (content b) = (ms, rest, bad)"
  shows "\<exists>b'. buf_wf b' \<and> buffer b' = buffer b \<and> content b' = rest \<and>
           (\<forall>s. onMessage cb sd s b =
              res_bind (res_fold (\<lambda>m s. cb s m) ms s)
                (\<lambda>s'. if bad then res_bind (sd s') (\<lambda>s''. Inr (s'', b')) else Inr (s', b')))"
  using assms
proof (induction "content b" arbitrary: b ms rule: parse.induct)
  case 1
  let ?c = "content b"
  let ?len = "header_value (take 4 ?c)"
  note parsed = "1.prems"(2) [unfolded parse.simps [of ?c] Let_def]
  consider (short) "length ?c < 4" | (bad) "4 \<le> length ?c" "?len > 65536 \<or> ?len < 0"
    | (partial) "4 \<le> length ?c" "0 \<le> ?len" "?len \<le> 65536" "length ?c < nat ?len + 4"
    | (frame) "4 \<le> length ?c" "0 \<le> ?len" "?len \<le> 65536" "nat ?len + 4 \<le> length ?c"
    by linarith
  then show ?case
  proof cases
    case short
    with parsed onMessage_short [OF "1.prems"(1) short] "1.prems"(1) show ?thesis
      by (intro exI [of _ b]) (auto simp del: length_content)
  next
    case bad
    with parsed onMessage_bad [OF "1.prems"(1) bad] "1.prems"(1) show ?thesis
      by (intro exI [of _ b]) (auto simp del: length_content)
  next
    case partial
    with parsed onMessage_partial [OF "1.prems"(1) partial] "1.prems"(1) show ?thesis
      by (intro exI [of _ b]) (auto simp del: length_content)
  next
    case frame
    from onMessage_frame [OF "1.prems"(1) frame] obtain b1 where
      b1: "buf_wf b1" "buffer b1 = buffer b" "content b1 = drop (nat ?len + 4) ?c"
      and step: "\<And>s. onMessage cb sd s b =
        res_bind (cb s (take (nat ?len) (drop 4 ?c))) (\<lambda>s'. onMessage cb sd s' b1)" by blast
    from parsed frame obtain ms1 where ms: "ms = take (nat ?len) (drop 4 ?c) # ms1"
      and rec: "parse (content b1) = (ms1, rest, bad)"
      by (auto simp: b1(3) split: prod.splits)
    have "\<exists>b'. buf_wf b' \<and> buffer b' = buffer b1 \<and> content b' = rest \<and>
           (\<forall>s. onMessage cb sd s b1 =
              res_bind (res_fold (\<lambda>m s. cb s m) ms1 s)
                (\<lambda>s'. if bad then res_bind (sd s') (\<lambda>s''. Inr (s'', b')) else Inr (s', b')))"
      using frame by (intro "1.hyps" [of ?len] b1 rec) (auto simp: b1(3))
    with b1(2) ms step show ?thesis by (auto simp: res_bind_assoc)
  qed
qed



section \<open>Sending\<close>

text \<open>In a buffer that has never been read the contents start right behind the prepend area.\<close>

lemma append_new_reader: "append_buf d n new_Buffer = Inr b \<Longrightarrow> readerIndex b = kCheapPrepend"
  by (auto simp: append_buf_def ensureWritableBytes_def makeSpace_def hasWritten_def res_bind_eq_Inr
      Let_def new_Buffer_def split: if_splits)

lemma codec_send_spec:
  assumes "length m < 2 ^ 31"
  shows "\<exists>b. buf_wf b \<and> content b = encode m \<and>
           (\<forall>s. codec_send conn_send (StringPiece_of_string m) s = conn_send b s)"
proof -
  have n: "unat (size_of_int32 (word_of_nat (length m))) = length m"
    using assms by (simp add: unat_size_of_int32 sint_word_of_nat_small)
  have len0: "length (buffer new_Buffer) = 1032"
    by (simp add: new_Buffer_def kCheapPrepend_def kInitialSize_def)
  have room: "buf_room (unat (size_of_int32 (word_of_nat (length m)))) new_Buffer"
    using assms unfolding buf_room_def n len0 by simp
  from append_buf_spec [OF buf_wf_new room, of m] obtain b1 where
    b1: "append_buf m (size_of_int32 (word_of_nat (length m))) new_Buffer = Inr b1" "buf_wf b1"
        "content b1 = m" unfolding n by auto
  have "readerIndex b1 = kCheapPrepend"
    using append_new_reader [OF b1(1)] .
  then obtain b2 where b2: "prepend (store32 (bswap32 (word_of_nat (length m)))) 4 b1 = Inr b2"
      "buf_wf b2" "content b2 = encode m"
    using prepend_spec [OF b1(2), of 4 "store32 (bswap32 (word_of_nat (length m)))"] b1(3)
    by (auto simp: encode_def bswap32_def store32_load32)
  with b1 show ?thesis
    by (auto simp: codec_send_def StringPiece_of_string_def Let_def)
qed



section \<open>Reassembly from arbitrary segments\<close>

text \<open>
  \<open>receive\<close> is what a connection does with the segments the kernel hands it one readable event at a
  time: \<^verbatim>\<open>readFd\<close> into the input buffer, then the message callback, which is \<open>onMessage\<close>.
\<close>

fun receive ::
  "('s \<Rightarrow> string \<Rightarrow> 's res) \<Rightarrow> ('s \<Rightarrow> 's res) \<Rightarrow> char list list \<Rightarrow> 's \<Rightarrow> Buffer \<Rightarrow> ('s \<times> Buffer) res"
where
  "receive cb sd [] s b = Inr (s, b)"
| "receive cb sd (seg # segs) s b =
     res_bind (readFd (ReadBytes seg) b) (\<lambda>(n, e, b1).
     res_bind (onMessage cb sd s b1) (\<lambda>(s', b2).
     receive cb sd segs s' b2))"

text \<open>What the parser leaves over holds no complete message.\<close>

lemma parse_rest: "parse xs = (ms, rest, False) \<Longrightarrow> parse rest = ([], rest, False)"
proof (induction xs arbitrary: ms rule: parse.induct)
  case (1 xs)
  let ?len = "header_value (take 4 xs)"
  show ?case
  proof (cases "4 \<le> length xs \<and> ?len \<le> 65536 \<and> 0 \<le> ?len \<and> nat ?len + 4 \<le> length xs")
    case False
    with "1.prems" have "ms = [] \<and> rest = xs"
      by (auto simp: parse.simps [of xs] Let_def split: if_splits)
    with "1.prems" show ?thesis by simp
  next
    case True
    then obtain ms1 where "parse (drop (nat ?len + 4) xs) = (ms1, rest, False)"
      using "1.prems" by (auto simp: parse.simps [of xs] Let_def split: prod.splits)
    with True show ?thesis by (intro "1.IH") auto
  qed
qed

lemma receive_parse:
  assumes "buf_wf b" and "\<forall>seg \<in> set segs. length seg \<le> 65536"
    and "length (buffer b) + length (concat segs) + 8 < 2 ^ 64"
    and "parse (content b) = ([], content b, False)"
    and "parse (content b @ concat segs) = (ms, rest, False)"
  shows "\<exists>b'. buf_wf b' \<and> content b' = rest \<and>
           (\<forall>s. receive cb sd segs s b = res_bind (res_fold (\<lambda>m s. cb s m) ms s) (\<lambda>s'. Inr (s', b')))"
  using assms
proof (induction segs arbitrary: b ms)
  case Nil
  then show ?case by auto
next
  case (Cons seg segs)
  have "buf_room (length seg) b" using Cons.prems(3) by (simp add: buf_room_def)
  from readFd_spec [OF Cons.prems(1) _ this] Cons.prems(2) obtain b1 where
    b1: "readFd (ReadBytes seg) b = Inr (int (length seg), None, b1)" "buf_wf b1"
        "content b1 = content b @ seg" "length (buffer b1) \<le> length (buffer b) + length seg" by fastforce
  obtain ms1 rest1 bad where p1: "parse (content b1) = (ms1, rest1, bad)" by (cases "parse (content b1)")
  have bad: "bad = False"
    using parse_append_bad [of "content b @ seg" ms1 rest1 "concat segs"] p1 b1(3) Cons.prems(5)
    by (cases bad) auto
  from onMessage_refines [OF b1(2) p1, of cb sd] bad obtain b2 where
    b2: "buf_wf b2" "buffer b2 = buffer b1" "content b2 = rest1"
    and on: "\<And>s. onMessage cb sd s b1 = res_bind (res_fold (\<lambda>m s. cb s m) ms1 s) (\<lambda>s'. Inr (s', b2))"
    by auto
  have stable: "parse rest1 = ([], rest1, False)"
    using parse_rest [OF p1 [unfolded bad]] .
  have split: "parse (content b @ concat (seg # segs)) =
      (case parse (rest1 @ concat segs) of (ms', rest', bad) \<Rightarrow> (ms1 @ ms', rest', bad))"
    using parse_append_good [of "content b @ seg" ms1 rest1 "concat segs"] p1 bad b1(3) by simp
  then obtain ms2 where p2: "parse (rest1 @ concat segs) = (ms2, rest, False)" and ms: "ms = ms1 @ ms2"
    using Cons.prems(5) by (auto split: prod.splits)
  have "length (buffer b2) + length (concat segs) + 8 < 2 ^ 64"
    using b1(4) b2(2) Cons.prems(3) by simp
  from Cons.IH [OF b2(1) _ this] Cons.prems(2) stable p2 b2(3) obtain b3 where
    b3: "buf_wf b3" "content b3 = rest"
    and rec: "\<And>s. receive cb sd segs s b2 = res_bind (res_fold (\<lambda>m s. cb s m) ms2 s) (\<lambda>s'. Inr (s', b3))"
    by auto
  have "receive cb sd (seg # segs) s b = res_bind (res_fold (\<lambda>m s. cb s m) ms s) (\<lambda>s'. Inr (s', b3))" for s
    by (simp add: b1(1) on rec ms res_fold_append res_bind_assoc)
  with b3 show ?case by blast
qed



section \<open>Handlers behind the codec\<close>

text \<open>
  What the codec and the handlers need of a connection: \<open>send\<close> and \<open>shutdown\<close> succeed and keep its
  invariant as long as the output buffer has room for the bytes.
\<close>

locale codec_connection =
  fixes csend :: "Buffer \<Rightarrow> 'c \<Rightarrow> 'c res"
    and sd :: "'c \<Rightarrow> 'c res"
    and conn_inv :: "'c \<Rightarrow> bool"
    and conn_room :: "'c \<Rightarrow> nat"
  assumes send_law: "conn_inv k \<Longrightarrow> buf_wf b \<Longrightarrow> length (content b) \<le> conn_room k \<Longrightarrow>
      \<exists>k'. csend b k = Inr k' \<and> conn_inv k' \<and> conn_room k \<le> conn_room k' + length (content b)"
    and shutdown_law: "conn_inv k \<Longrightarrow> \<exists>k'. sd k = Inr k' \<and> conn_inv k' \<and> conn_room k \<le> conn_room k'"
begin

lemma codec_send_law:
  assumes "conn_inv k" and "length m < 2 ^ 31" and "length m + 4 \<le> conn_room k"
  shows "\<exists>k'. codec_send csend (StringPiece_of_string m) k = Inr k' \<and> conn_inv k' \<and>
           conn_room k \<le> conn_room k' + (length m + 4)"
proof -
  obtain buf where buf: "buf_wf buf" "content buf = encode m"
      "codec_send csend (StringPiece_of_string m) k = csend buf k"
    using codec_send_spec [OF assms(2), of csend] by auto
  moreover have "length (encode m) = length m + 4" by (simp add: encode_def)
  ultimately show ?thesis using send_law [OF assms(1) buf(1)] assms(3) by simp
qed

end

text \<open>
  The contract of a message callback: on messages that are valid for it, and only on those, it returns,
  and it then keeps an invariant of its own state, while the connection has \<open>cost\<close> bytes of room. The
  codec then keeps the invariant for whatever bytes the peer sends, and delivers valid messages without
  failing.
\<close>

locale message_handler =
  fixes handle :: "'s \<Rightarrow> string \<Rightarrow> 's res"
    and close_conn :: "'s \<Rightarrow> 's res"
    and state_inv :: "'s \<Rightarrow> bool"
    and valid_msg :: "'s \<Rightarrow> string \<Rightarrow> bool"
    and room :: "'s \<Rightarrow> nat"
    and cost :: nat
  assumes handle_law: "state_inv s \<Longrightarrow> valid_msg s m \<Longrightarrow> cost \<le> room s \<Longrightarrow>
      \<exists>s'. handle s m = Inr s' \<and> state_inv s' \<and> room s \<le> room s' + cost \<and> (\<forall>m'. valid_msg s m' \<longrightarrow> valid_msg s' m')"
    and handle_valid: "state_inv s \<Longrightarrow> handle s m = Inr s' \<Longrightarrow> valid_msg s m"
    and close_law: "state_inv s \<Longrightarrow> \<exists>s'. close_conn s = Inr s' \<and> state_inv s'"
begin

lemma fold_total:
  "state_inv s \<Longrightarrow> \<forall>m \<in> set ms. valid_msg s m \<Longrightarrow> cost * length ms \<le> room s \<Longrightarrow>
     \<exists>s'. res_fold (\<lambda>m s. handle s m) ms s = Inr s' \<and> state_inv s'"
proof (induction ms arbitrary: s)
  case (Cons m ms)
  then obtain s1 where s1: "handle s m = Inr s1" "state_inv s1" "room s \<le> room s1 + cost"
      "\<forall>m'. valid_msg s m' \<longrightarrow> valid_msg s1 m'" using handle_law [of s m] by auto
  from Cons.IH [OF s1(2)] Cons.prems(2,3) s1 show ?case by auto
qed simp

lemma fold_keeps:
  "state_inv s \<Longrightarrow> cost * length ms \<le> room s \<Longrightarrow> res_fold (\<lambda>m s. handle s m) ms s = Inr s' \<Longrightarrow> state_inv s'"
proof (induction ms arbitrary: s)
  case (Cons m ms)
  then obtain s1 where s1: "handle s m = Inr s1" "res_fold (\<lambda>m s. handle s m) ms s1 = Inr s'"
    by (auto simp: res_bind_eq_Inr)
  have "state_inv s1" "room s \<le> room s1 + cost"
    using handle_law [OF Cons.prems(1) handle_valid [OF Cons.prems(1) s1(1)]] Cons.prems(2) s1(1) by auto
  with Cons.IH s1(2) Cons.prems(2) show ?case by auto
qed simp

lemma on_message_keeps:
  assumes "state_inv s" and "buf_wf b" and "parse (content b) = (ms, rest, bad)" and "cost * length ms \<le> room s"
    and "onMessage handle close_conn s b = Inr (s', b')"
  shows "state_inv s' \<and> buf_wf b' \<and> content b' = rest"
proof -
  from onMessage_refines [OF assms(2,3), of handle close_conn] obtain b1 where
    b1: "buf_wf b1" "content b1 = rest"
    and on: "onMessage handle close_conn s b = res_bind (res_fold (\<lambda>m s. handle s m) ms s)
        (\<lambda>s'. if bad then res_bind (close_conn s') (\<lambda>s''. Inr (s'', b1)) else Inr (s', b1))" by blast
  obtain s1 where s1: "res_fold (\<lambda>m s. handle s m) ms s = Inr s1"
      "(if bad then res_bind (close_conn s1) (\<lambda>s''. Inr (s'', b1)) else Inr (s1, b1)) = Inr (s', b')"
    using assms(5) unfolding on by (cases "res_fold (\<lambda>m s. handle s m) ms s") simp_all
  have "state_inv s1" using fold_keeps [OF assms(1,4) s1(1)] .
  with s1(2) b1 close_law [OF this] show ?thesis by (auto simp: res_bind_eq_Inr split: if_splits)
qed

lemma on_message_total:
  assumes "state_inv s" and "buf_wf b" and "parse (content b) = (ms, rest, bad)" and "cost * length ms \<le> room s"
    and "\<forall>m \<in> set ms. valid_msg s m"
  shows "\<exists>s' b'. onMessage handle close_conn s b = Inr (s', b') \<and> state_inv s' \<and> buf_wf b' \<and> content b' = rest"
proof -
  from onMessage_refines [OF assms(2,3), of handle close_conn] obtain b1 where
    b1: "buf_wf b1" "content b1 = rest"
    and on: "onMessage handle close_conn s b = res_bind (res_fold (\<lambda>m s. handle s m) ms s)
        (\<lambda>s'. if bad then res_bind (close_conn s') (\<lambda>s''. Inr (s'', b1)) else Inr (s', b1))" by blast
  obtain s1 where s1: "res_fold (\<lambda>m s. handle s m) ms s = Inr s1" "state_inv s1"
    using fold_total [OF assms(1,5,4)] by blast
  obtain s2 where "close_conn s1 = Inr s2" "state_inv s2" using close_law [OF s1(2)] by blast
  with b1 s1 show ?thesis unfolding on by (cases bad) auto
qed

lemma receive_total:
  assumes "state_inv s" and "\<forall>m \<in> set ms. valid_msg s m \<and> length m \<le> 65536" and "cost * length ms \<le> room s"
    and "concat segs = concat (map encode ms)" and "\<forall>seg \<in> set segs. length seg \<le> 65536"
    and "length (concat segs) + 1040 < 2 ^ 64"
  shows "\<exists>s' b'. receive handle close_conn segs s new_Buffer = Inr (s', b') \<and> content b' = [] \<and>
           state_inv s' \<and> res_fold (\<lambda>m s. handle s m) ms s = Inr s'"
proof -
  have "parse (content new_Buffer @ concat segs) = (ms, [], False)"
    using assms(2,4) by (simp add: parse_encodes)
  moreover have "length (buffer new_Buffer) = 1032"
    by (simp add: new_Buffer_def kCheapPrepend_def kInitialSize_def)
  ultimately obtain b' where "content b' = []" and
    "receive handle close_conn segs s new_Buffer = res_bind (res_fold (\<lambda>m s. handle s m) ms s) (\<lambda>s'. Inr (s', b'))"
    using receive_parse [OF buf_wf_new assms(5), of ms "[]" handle close_conn] assms(6)
    by (auto simp: parse.simps)
  moreover obtain s' where "res_fold (\<lambda>m s. handle s m) ms s = Inr s'" "state_inv s'"
    using fold_total [OF assms(1)] assms(2,3) by blast
  ultimately show ?thesis by auto
qed

end


section \<open>Properties\<close>

text \<open>
  C39. On any buffer contents, \<open>onMessage\<close> hands the callback exactly the complete frames at the front of
  the buffer, in order and each once; it then stops with the incomplete rest still readable, or, if the
  next length field is negative or above 65536, calls \<open>shutdown\<close> once and leaves the bytes in place.
\<close>

theorem onMessage_delivers_frames:
  assumes "buf_wf b" and "parse (content b) = (ms, rest, bad)"
  shows "\<exists>b'. buf_wf b' \<and> content b' = rest \<and>
           onMessage cb sd s b =
             res_bind (res_fold (\<lambda>m s. cb s m) ms s)
               (\<lambda>s'. if bad then res_bind (sd s') (\<lambda>s''. Inr (s'', b')) else Inr (s', b'))"
  using onMessage_refines [OF assms, of cb sd] by blast

theorem onMessage_delivers_frames_witness:
  "\<exists>b'. buf_wf b' \<and> content b' = ''x'' \<and>
     onMessage (\<lambda>s m. Inr (s @ [m])) (\<lambda>s. Inr s) []
       (new_Buffer\<lparr>buffer := replicate 8 NUL @ encode ''ab'' @ ''x'', writerIndex := 15\<rparr>) = Inr ([''ab''], b')"
proof -
  let ?b = "new_Buffer\<lparr>buffer := replicate 8 NUL @ encode ''ab'' @ ''x'', writerIndex := 15\<rparr>"
  have l: "length (encode ''ab'') = 6" by (simp add: encode_def)
  have wf: "buf_wf ?b" by (simp add: buf_wf_def new_Buffer_def kCheapPrepend_def l)
  have c: "content ?b = encode ''ab'' @ ''x''"
    by (simp add: content_def new_Buffer_def kCheapPrepend_def l)
  have "parse (content ?b) = ([''ab''], ''x'', False)"
    unfolding c by (subst parse_encode_append) (simp_all add: parse.simps)
  from onMessage_delivers_frames [OF wf this, of "\<lambda>s m. Inr (s @ [m])" "\<lambda>s. Inr s" "[]"] show ?thesis
    by simp
qed

text \<open>
  C38. End to end through the codec: messages sent with \<open>LengthHeaderCodec::send\<close>, their bytes put on the
  wire one after another and cut into segments in any way, come out of the receiver's \<open>onMessage\<close> as
  exactly the same messages in the same order, with nothing left in the buffer.
\<close>

theorem codec_roundtrip:
  assumes "\<forall>m \<in> set ms. length m \<le> 65536"
    and "res_fold (\<lambda>m. codec_send (\<lambda>buf wire. Inr (wire @ content buf)) (StringPiece_of_string m)) ms [] = Inr wire"
    and "concat segs = wire" and "\<forall>seg \<in> set segs. length seg \<le> 65536" and "length wire + 1040 < 2 ^ 64"
  shows "\<exists>b'. receive (\<lambda>s m. Inr (s @ [m])) (\<lambda>s. Inr s) segs [] new_Buffer = Inr (ms, b') \<and> content b' = []"
proof -
  have send: "codec_send (\<lambda>buf wire. Inr (wire @ content buf)) (StringPiece_of_string m) w = Inr (w @ encode m)"
    if "length m \<le> 65536" for m and w :: "char list"
    using codec_send_spec [of m "\<lambda>buf wire. Inr (wire @ content buf)"] that by auto
  have "res_fold (\<lambda>m. codec_send (\<lambda>buf wire. Inr (wire @ content buf)) (StringPiece_of_string m)) ms w =
      Inr (w @ concat (map encode ms))" for w
    using assms(1) by (induction ms arbitrary: w) (auto simp: send)
  with assms(2,3) have w: "concat segs = concat (map encode ms)" by simp
  have "res_fold (\<lambda>m s. Inr (s @ [m])) ms acc = Inr (acc @ ms)" for acc :: "string list"
    by (induction ms arbitrary: acc) auto
  moreover have "parse (content new_Buffer @ concat segs) = (ms, [], False)"
    unfolding w using assms(1) by (simp add: parse_encodes)
  moreover have "length (buffer new_Buffer) = 1032"
    by (simp add: new_Buffer_def kCheapPrepend_def kInitialSize_def)
  ultimately show ?thesis
    using receive_parse [OF buf_wf_new assms(4), of ms "[]" "\<lambda>s m. Inr (s @ [m])" "\<lambda>s. Inr s"] assms(3,5)
    by (auto simp: parse.simps)
qed

theorem codec_roundtrip_witness:
  "\<exists>b'. receive (\<lambda>s m. Inr (s @ [m])) (\<lambda>s. Inr s)
     [take 3 (encode ''a03001'' @ encode ''c0''), drop 3 (encode ''a03001'' @ encode ''c0'')] [] new_Buffer =
     Inr ([''a03001'', ''c0''], b') \<and> content b' = []"
proof -
  let ?w = "encode ''a03001'' @ encode ''c0''"
  have l: "length ?w = 16" by (simp add: encode_def)
  have "codec_send (\<lambda>buf wire. Inr (wire @ content buf)) (StringPiece_of_string m) w = Inr (w @ encode m)"
    if "length m < 2 ^ 31" for m and w :: "char list"
    using codec_send_spec [OF that, of "\<lambda>buf wire. Inr (wire @ content buf)"] by auto
  then have "res_fold (\<lambda>m. codec_send (\<lambda>buf wire. Inr (wire @ content buf)) (StringPiece_of_string m))
      [''a03001'', ''c0''] [] = Inr ?w" by simp
  note sent = this
  have cut: "concat [take 3 ?w, drop 3 ?w] = ?w"
    by (simp only: concat.simps append_Nil2 append_take_drop_id)
  have small: "\<forall>seg \<in> set [take 3 ?w, drop 3 ?w]. length seg \<le> 65536"
    using l by (simp only: list.set ball_simps length_take length_drop) simp
  show ?thesis
    by (rule codec_roundtrip [OF _ sent cut small]) (use l in simp_all)
qed

text \<open>
  \<open>send\<close> accepts messages that \<open>onMessage\<close> refuses: a message above 65536 bytes is framed without
  complaint, and the receiver shuts the connection down without delivering it.
\<close>

theorem oversized_message_refused:
  assumes "65536 < length m" and "length m < 2 ^ 31"
  shows "\<exists>b. codec_send (\<lambda>buf _. Inr buf) (StringPiece_of_string m) new_Buffer = Inr b \<and>
           content b = encode m \<and> onMessage cb sd s b = res_bind (sd s) (\<lambda>s'. Inr (s', b))"
proof -
  obtain b where b: "buf_wf b" "content b = encode m"
      "codec_send (\<lambda>buf _. Inr buf) (StringPiece_of_string m) new_Buffer = Inr b"
    using codec_send_spec [OF assms(2), of "\<lambda>buf _. Inr buf"] by auto
  have "4 \<le> length (content b)" and "header_value (take 4 (content b)) = int (length m)"
    using assms(2) unfolding b(2) by (simp_all add: encode_def header_value_encode)
  with onMessage_bad [OF b(1)] assms(1) b show ?thesis by auto
qed

theorem oversized_message_refused_witness:
  "\<exists>b. codec_send (\<lambda>buf _. Inr buf) (StringPiece_of_string (replicate 70000 CHR ''x'')) new_Buffer = Inr b \<and>
       content b = encode (replicate 70000 CHR ''x'') \<and>
       onMessage (\<lambda>s m. Inr (Suc s)) (\<lambda>s. Inr (s + 100)) 0 b = Inr (100, b)"
  using oversized_message_refused [of "replicate 70000 CHR ''x''" "\<lambda>s m. Inr (Suc s)" "\<lambda>s. Inr (s + 100)" 0]
  by simp

end
