(* ===== verification/Containers.thy ===== *)
theory Containers
  imports Prelude
begin

text \<open>
  The ordered containers of the C++ standard library that the programs use. A \<^verbatim>\<open>std::map\<close> that is
  iterated is an association list in key order. A \<^verbatim>\<open>std::set\<close> is the list of its elements in
  iteration order, for whatever comparison \<open>lt\<close> it was instantiated with: two elements count as the
  same key when neither is less than the other, \<^verbatim>\<open>insert\<close> adds an element only when no equivalent one
  is there, and \<^verbatim>\<open>erase\<close> removes the equivalent ones. The standard asks for a strict weak order
  (\<open>strict_weak_order\<close>) and promises nothing without one, so \<open>set_insert\<close> and \<open>set_erase\<close> are undefined
  when the elements they compare violate it.
\<close>

section \<open>Maps in key order\<close>

fun om_put :: "'k::linorder \<Rightarrow> 'v \<Rightarrow> ('k \<times> 'v) list \<Rightarrow> ('k \<times> 'v) list" where
  "om_put k v [] = [(k, v)]"
| "om_put k v (e # m) =
     (if fst e < k then e # om_put k v m
      else if fst e = k then (k, v) # m
      else (k, v) # e # m)"

definition om_erase :: "'k::linorder \<Rightarrow> ('k \<times> 'v) list \<Rightarrow> ('k \<times> 'v) list" where
  "om_erase k m = filter (\<lambda>e. fst e \<noteq> k) m"

definition om_wf :: "('k::linorder \<times> 'v) list \<Rightarrow> bool" where
  [inv_simps]: "om_wf m \<longleftrightarrow> sorted_wrt (<) (map fst m)"

lemma om_put_keys: "set (map fst (om_put k v m)) = insert k (set (map fst m))"
  by (induction m) auto

lemma om_put_wf: "om_wf m \<Longrightarrow> om_wf (om_put k v m)"
proof (induction m)
  case (Cons e m)
  then show ?case
    using om_put_keys [of k v m] by (auto simp: om_wf_def)
qed (simp add: om_wf_def)

lemma om_erase_wf: "om_wf m \<Longrightarrow> om_wf (om_erase k m)"
  by (induction m) (auto simp: om_wf_def om_erase_def)

lemma om_put_lookup: "map_of (om_put k v m) = (map_of m)(k \<mapsto> v)"
  by (induction m) (auto simp: fun_eq_iff)

lemma om_erase_lookup: "map_of (om_erase k m) = (map_of m)(k := None)"
  by (induction m) (auto simp: om_erase_def fun_eq_iff)

locale ordered_map =
  fixes wf :: "'m \<Rightarrow> bool"
    and look :: "'m \<Rightarrow> 'k \<Rightarrow> 'v option"
    and put :: "'k \<Rightarrow> 'v \<Rightarrow> 'm \<Rightarrow> 'm"
    and erase :: "'k \<Rightarrow> 'm \<Rightarrow> 'm"
  assumes put_wf: "wf m \<Longrightarrow> wf (put k v m)"
    and erase_wf: "wf m \<Longrightarrow> wf (erase k m)"
    and put_look: "wf m \<Longrightarrow> look (put k v m) = (look m)(k \<mapsto> v)"
    and erase_look: "wf m \<Longrightarrow> look (erase k m) = (look m)(k := None)"
begin

lemma put_all_look:
  "wf m \<Longrightarrow> wf (fold (\<lambda>(k, v). put k v) kvs m) \<and>
     look (fold (\<lambda>(k, v). put k v) kvs m) = look m ++ map_of (rev kvs)"
  by (induction kvs arbitrary: m)
    (auto simp: put_wf put_look fun_eq_iff map_add_def split: option.splits)

lemma erase_put: "wf m \<Longrightarrow> look (erase k (put k v m)) = look (erase k m)"
  by (simp add: put_wf put_look erase_look)

end

interpretation om: ordered_map om_wf map_of om_put om_erase
  by unfold_locales (simp_all add: om_put_wf om_erase_wf om_put_lookup om_erase_lookup)


section \<open>Sets under a comparison\<close>

definition equiv_keys :: "('a \<Rightarrow> 'a \<Rightarrow> bool) \<Rightarrow> 'a \<Rightarrow> 'a \<Rightarrow> bool" where
  "equiv_keys lt x y \<longleftrightarrow> \<not> lt x y \<and> \<not> lt y x"

definition strict_weak_order :: "('a \<Rightarrow> 'a \<Rightarrow> bool) \<Rightarrow> bool" where
  "strict_weak_order lt \<longleftrightarrow>
     (\<forall>x. \<not> lt x x) \<and> (\<forall>x y z. lt x y \<longrightarrow> lt y z \<longrightarrow> lt x z) \<and>
     (\<forall>x y z. equiv_keys lt x y \<longrightarrow> equiv_keys lt y z \<longrightarrow> equiv_keys lt x z)"

text \<open>The same on the elements that an operation may compare, as an executable check.\<close>

definition swo_on :: "('a \<Rightarrow> 'a \<Rightarrow> bool) \<Rightarrow> 'a list \<Rightarrow> bool" where
  "swo_on lt xs \<longleftrightarrow>
     (\<forall>x \<in> set xs. \<not> lt x x) \<and>
     (\<forall>x \<in> set xs. \<forall>y \<in> set xs. \<forall>z \<in> set xs. lt x y \<longrightarrow> lt y z \<longrightarrow> lt x z) \<and>
     (\<forall>x \<in> set xs. \<forall>y \<in> set xs. \<forall>z \<in> set xs. equiv_keys lt x y \<longrightarrow> equiv_keys lt y z \<longrightarrow> equiv_keys lt x z)"

definition set_insert :: "('a \<Rightarrow> 'a \<Rightarrow> bool) \<Rightarrow> 'a \<Rightarrow> 'a list \<Rightarrow> 'a list res" where
  "set_insert lt x s =
     (if \<not> swo_on lt (x # s) then Inl UndefinedBehaviour
      else if \<exists>y \<in> set s. equiv_keys lt x y then Inr s
      else Inr (takeWhile (\<lambda>y. \<not> lt x y) s @ x # dropWhile (\<lambda>y. \<not> lt x y) s))"

definition set_erase :: "('a \<Rightarrow> 'a \<Rightarrow> bool) \<Rightarrow> 'a \<Rightarrow> 'a list \<Rightarrow> ('a list \<times> nat) res" where
  "set_erase lt x s =
     (if \<not> swo_on lt (x # s) then Inl UndefinedBehaviour
      else Inr (filter (\<lambda>y. \<not> equiv_keys lt x y) s, length (filter (equiv_keys lt x) s)))"

lemma swo_on_strict: "strict_weak_order lt \<Longrightarrow> swo_on lt xs"
  unfolding strict_weak_order_def swo_on_def by blast

lemma set_insert_new:
  assumes "strict_weak_order lt" and "\<forall>y \<in> set s. \<not> equiv_keys lt x y"
  shows "\<exists>l r. s = l @ r \<and> set_insert lt x s = Inr (l @ x # r)"
proof (intro exI conjI)
  show "s = takeWhile (\<lambda>y. \<not> lt x y) s @ dropWhile (\<lambda>y. \<not> lt x y) s" by simp
  show "set_insert lt x s = Inr (takeWhile (\<lambda>y. \<not> lt x y) s @ x # dropWhile (\<lambda>y. \<not> lt x y) s)"
    using assms swo_on_strict [OF assms(1), of "x # s"] by (simp add: set_insert_def)
qed

lemma set_erase_strict:
  "strict_weak_order lt \<Longrightarrow> set_erase lt x s =
     Inr (filter (\<lambda>y. \<not> equiv_keys lt x y) s, length (filter (equiv_keys lt x) s))"
  by (simp add: set_erase_def swo_on_strict)

text \<open>Without a strict weak order on them, two elements that are each less than the other end the contract.\<close>

lemma set_ops_undefined:
  assumes "y \<in> set s" and "lt x y" and "lt y x"
  shows "set_insert lt x s = Inl UndefinedBehaviour" and "set_erase lt x s = Inl UndefinedBehaviour"
proof -
  have "\<not> swo_on lt (x # s)"
    using assms unfolding swo_on_def by (metis list.set_intros(1) list.set_intros(2))
  then show "set_insert lt x s = Inl UndefinedBehaviour" "set_erase lt x s = Inl UndefinedBehaviour"
    by (simp_all add: set_insert_def set_erase_def)
qed

end
