(* ===== verification/UserCatalogue.thy ===== *)
theory UserCatalogue
  imports Containers
begin

text \<open>
  The server's catalogue of clients, \<^verbatim>\<open>p2pserver/inc/usercatalogue.h\<close> and
  \<^verbatim>\<open>p2pserver/src/usercatalogue.cpp\<close>. Clients are named by their four-character \<^verbatim>\<open>IP\<close> (a port number
  on the local host) and grouped by its first three characters. A group holds at most \<^verbatim>\<open>MAXQUE\<close>
  clients: \<open>users\<close> has their records, \<open>userQue\<close> the order in which they are probed for replacement.
  Whether a TCP connection to a port of the local host succeeds is the argument \<open>reach\<close> of the operations.
\<close>

section \<open>Data\<close>

record UserInfo =
  userIP :: string
  userFile :: int

text \<open>\<^verbatim>\<open>std::string::compare\<close> and the comparison \<^verbatim>\<open>UserInfo::operator<\<close>, which returns its result as a \<^verbatim>\<open>bool\<close>.\<close>

definition str_compare :: "string \<Rightarrow> string \<Rightarrow> int" where
  "str_compare s t = (if s < t then -1 else if s = t then 0 else 1)"

definition UserInfo_less :: "UserInfo \<Rightarrow> UserInfo \<Rightarrow> bool" where
  "UserInfo_less a b \<longleftrightarrow> str_compare (userIP a) (userIP b) \<noteq> 0"

definition MAXQUE :: nat where
  "MAXQUE = 3"

text \<open>
  \<open>leakedFds\<close> counts the descriptors the catalogue opened and never closed; the C++ class has no such
  field, the process does.
\<close>

record UserCatalogue =
  userQue :: "string \<rightharpoonup> string list"
  users :: "string \<rightharpoonup> UserInfo list"
  leakedFds :: nat

definition processIP :: "string \<Rightarrow> string" where
  "processIP ip = take 3 ip"

text \<open>\<^verbatim>\<open>userQue[k]\<close>: \<^verbatim>\<open>operator[]\<close> of \<^verbatim>\<open>std::map\<close> inserts an empty queue for a key it does not have.\<close>

definition que_at :: "string \<Rightarrow> UserCatalogue \<Rightarrow> string list" where
  "que_at k c = (case userQue c k of Some q \<Rightarrow> q | None \<Rightarrow> [])"

definition set_que :: "string \<Rightarrow> string list \<Rightarrow> UserCatalogue \<Rightarrow> UserCatalogue" where
  "set_que k q c = c\<lparr>userQue := (userQue c)(k \<mapsto> q)\<rparr>"

definition touch_que :: "string \<Rightarrow> UserCatalogue \<Rightarrow> UserCatalogue" where
  "touch_que k c = set_que k (que_at k c) c"

definition push_que :: "string \<Rightarrow> string \<Rightarrow> UserCatalogue \<Rightarrow> UserCatalogue" where
  "push_que k ip c = set_que k (que_at k c @ [ip]) c"


section \<open>Operations\<close>

text \<open>
  The operations take the comparison \<open>lt\<close> of \<^verbatim>\<open>set<UserInfo>\<close> as an argument: in the code it is
  \<open>UserInfo_less\<close>; \<open>UserInfoSortCriterion\<close> is the comparison the header names in comments in its place.
\<close>

definition UserInfoSortCriterion :: "UserInfo \<Rightarrow> UserInfo \<Rightarrow> bool" where
  "UserInfoSortCriterion p1 p2 \<longleftrightarrow> userIP p1 < userIP p2"

definition new_UserCatalogue :: "(UserInfo \<Rightarrow> UserInfo \<Rightarrow> bool) \<Rightarrow> string \<Rightarrow> int \<Rightarrow> UserCatalogue res" where
  "new_UserCatalogue lt ip file =
     (let usr = \<lparr>userIP = ip, userFile = file\<rparr> in
      res_bind (set_insert lt usr []) (\<lambda>uset.
      Inr (push_que (processIP ip) ip
             \<lparr>userQue = Map.empty, users = [processIP ip \<mapsto> uset], leakedFds = 0\<rparr>)))"

text \<open>The default arguments of the constructor.\<close>

definition default_UserCatalogue :: "(UserInfo \<Rightarrow> UserInfo \<Rightarrow> bool) \<Rightarrow> UserCatalogue res" where
  "default_UserCatalogue lt = new_UserCatalogue lt ''1111'' 100"

definition isClientWorking :: "(16 word \<Rightarrow> bool) \<Rightarrow> string \<Rightarrow> UserCatalogue \<Rightarrow> bool \<times> UserCatalogue" where
  "isClientWorking reach ip c =
     (if reach (word_of_int (atoi ip)) then (True, touch_que (processIP ip) c)
      else (False, c\<lparr>leakedFds := Suc (leakedFds c)\<rparr>))"

definition insertUser ::
  "(UserInfo \<Rightarrow> UserInfo \<Rightarrow> bool) \<Rightarrow> (16 word \<Rightarrow> bool) \<Rightarrow> string \<Rightarrow> int \<Rightarrow> UserCatalogue \<Rightarrow> UserCatalogue res"
where
  "insertUser lt reach ip file c =
     (let key = processIP ip;
          usr = \<lparr>userIP = ip, userFile = file\<rparr>;
          finish = (\<lambda>uset c. res_bind (set_insert lt usr uset)
                      (\<lambda>uset. Inr (c\<lparr>users := (users c)(key \<mapsto> uset)\<rparr>)))
      in case users c key of
        Some uset0 \<Rightarrow>
          let c = touch_que key c in
          res_bind (set_erase lt usr uset0) (\<lambda>(uset, n).
           if n = 0 then
             if length (que_at key c) < MAXQUE then finish uset (push_que key ip c)
             else (case que_at key c of
                 [] \<Rightarrow> Inl UndefinedBehaviour
               | firstIP # rest \<Rightarrow>
                   (case isClientWorking reach firstIP (set_que key rest c) of (working, c) \<Rightarrow>
                    if working then Inr (push_que key firstIP c)
                    else
                      let usrtemp = \<lparr>userIP = firstIP, userFile = 0\<rparr> in
                      res_bind (set_erase lt usrtemp uset) (\<lambda>(uset, _).
                      finish uset (push_que key ip c))))
           else finish uset c)
      | None \<Rightarrow> finish [] (push_que key ip c))"

text \<open>
  Both lookups dereference \<^verbatim>\<open>users.find(...)\<close> without comparing it with \<^verbatim>\<open>end()\<close>.
\<close>

definition hasNeighbor :: "string \<Rightarrow> UserCatalogue \<Rightarrow> int res" where
  "hasNeighbor ip c =
     (case users c (processIP ip) of Some s \<Rightarrow> Inr (int (length s) - 1) | None \<Rightarrow> Inl UndefinedBehaviour)"

definition getNeighborUsers :: "string \<Rightarrow> UserCatalogue \<Rightarrow> UserInfo list res" where
  "getNeighborUsers ip c =
     (case users c (processIP ip) of Some s \<Rightarrow> Inr s | None \<Rightarrow> Inl UndefinedBehaviour)"


section \<open>Invariant\<close>

text \<open>A group and its queue name the same clients, each once, between one and \<open>MAXQUE\<close> of them.\<close>

definition group_wf :: "string \<Rightarrow> UserInfo list \<Rightarrow> string list \<Rightarrow> bool" where
  [inv_simps]: "group_wf k s q \<longleftrightarrow>
     distinct (map userIP s) \<and> distinct q \<and> userIP ` set s = set q \<and>
     q \<noteq> [] \<and> length q \<le> MAXQUE \<and> (\<forall>ip \<in> set q. processIP ip = k)"

definition cat_wf :: "UserCatalogue \<Rightarrow> bool" where
  [inv_simps]: "cat_wf c \<longleftrightarrow>
     dom (users c) = dom (userQue c) \<and>
     (\<forall>k s q. users c k = Some s \<longrightarrow> userQue c k = Some q \<longrightarrow> group_wf k s q)"

text \<open>The files a group records, as a map from clients.\<close>

definition members :: "UserCatalogue \<Rightarrow> string \<Rightarrow> (string \<rightharpoonup> int)" where
  "members c k = map_of (map (\<lambda>u. (userIP u, userFile u)) (case users c k of Some s \<Rightarrow> s | None \<Rightarrow> []))"


section \<open>Sets of users\<close>

text \<open>What the catalogue needs of the comparison: it orders users by their \<^verbatim>\<open>userIP\<close>.\<close>

definition orders_by_ip :: "(UserInfo \<Rightarrow> UserInfo \<Rightarrow> bool) \<Rightarrow> bool" where
  "orders_by_ip lt \<longleftrightarrow> (\<forall>a b. lt a b \<longleftrightarrow> userIP a < userIP b)"

lemma orders_SortCriterion: "orders_by_ip UserInfoSortCriterion"
  by (simp add: orders_by_ip_def UserInfoSortCriterion_def)

lemma equiv_users: "orders_by_ip lt \<Longrightarrow> equiv_keys lt a b \<longleftrightarrow> userIP a = userIP b"
  by (auto simp: equiv_keys_def orders_by_ip_def)

lemma strict_users: "orders_by_ip lt \<Longrightarrow> strict_weak_order lt"
  by (auto simp: strict_weak_order_def equiv_users) (auto simp: orders_by_ip_def)

lemma erase_users:
  assumes "orders_by_ip lt"
  shows "set_erase lt u s =
    Inr (filter (\<lambda>v. userIP u \<noteq> userIP v) s, length (filter (\<lambda>v. userIP u = userIP v) s))"
proof -
  have "equiv_keys lt u = (\<lambda>v. userIP u = userIP v)" using equiv_users [OF assms] by blast
  then show ?thesis using set_erase_strict [OF strict_users [OF assms], of u s] by simp
qed

lemma filter_ip_absent: "ip \<notin> userIP ` set s \<Longrightarrow> filter (\<lambda>v. ip \<noteq> userIP v) s = s"
  by (rule filter_True) auto

lemma filter_ip_none: "filter (\<lambda>v. ip = userIP v) s = [] \<longleftrightarrow> ip \<notin> userIP ` set s"
  by (auto simp: filter_empty_conv)

text \<open>\<open>with_user u s s'\<close>: \<open>s'\<close> is the set \<open>s\<close> with the user \<open>u\<close> put in its place of the order.\<close>

definition with_user :: "UserInfo \<Rightarrow> UserInfo list \<Rightarrow> UserInfo list \<Rightarrow> bool" where
  "with_user u s s' \<longleftrightarrow> userIP u \<notin> userIP ` set s \<and> (\<exists>l r. s = l @ r \<and> s' = l @ u # r)"

lemma insert_user_new:
  assumes "orders_by_ip lt" and "userIP u \<notin> userIP ` set s"
  obtains s' where "set_insert lt u s = Inr s'" and "with_user u s s'"
proof -
  have "\<forall>y \<in> set s. \<not> equiv_keys lt u y" using assms by (auto simp: equiv_users)
  from set_insert_new [OF strict_users [OF assms(1)] this] obtain l r where
    "s = l @ r" "set_insert lt u s = Inr (l @ u # r)" by blast
  with assms(2) show thesis by (intro that [of "l @ u # r"]) (auto simp: with_user_def)
qed

lemma insert_user_empty [simp]: "set_insert lt u [] = (if lt u u then Inl UndefinedBehaviour else Inr [u])"
  by (auto simp: set_insert_def swo_on_def equiv_keys_def)

lemma que_simps [simp]:
  "que_at k (set_que k' q c) = (if k = k' then q else que_at k c)"
  "users (set_que k q c) = users c" "leakedFds (set_que k q c) = leakedFds c"
  by (simp_all add: que_at_def set_que_def)

lemma touch_que_id: "k \<in> dom (userQue c) \<Longrightarrow> touch_que k c = c"
  by (auto simp: touch_que_def set_que_def que_at_def map_upd_triv)



section \<open>What \<open>insertUser\<close> does\<close>

definition set_group :: "string \<Rightarrow> UserInfo list \<Rightarrow> string list \<Rightarrow> UserCatalogue \<Rightarrow> UserCatalogue" where
  "set_group k s q c = c\<lparr>users := (users c)(k \<mapsto> s), userQue := (userQue c)(k \<mapsto> q)\<rparr>"

lemma set_group_wf: "cat_wf c \<Longrightarrow> group_wf k s q \<Longrightarrow> cat_wf (set_group k s q c)"
  by (auto simp: cat_wf_def set_group_def)

lemma cat_wf_leaked [simp]: "cat_wf (c\<lparr>leakedFds := n\<rparr>) = cat_wf c"
  by (simp add: cat_wf_def)

lemma set_group_simps [simp]:
  "users (set_group k s q c) = (users c)(k \<mapsto> s)" "userQue (set_group k s q c) = (userQue c)(k \<mapsto> q)"
  "leakedFds (set_group k s q c) = leakedFds c"
  by (simp_all add: set_group_def)

lemma cat_wfD:
  assumes "cat_wf c" and "users c k = Some s"
  obtains q where "userQue c k = Some q" and "que_at k c = q" and "group_wf k s q"
  using assms by (fastforce simp: cat_wf_def que_at_def)

lemma group_size:
  assumes "group_wf k s q"
  shows "length s = length q" and "1 \<le> length s" and "length s \<le> 3"
proof -
  have "length s = card (userIP ` set s)"
    using assms by (metis distinct_card group_wf_def length_map set_map)
  also have "\<dots> = length q" using assms by (simp add: group_wf_def distinct_card)
  finally show "length s = length q" .
  then show "1 \<le> length s" "length s \<le> 3"
    using assms by (cases q; auto simp: group_wf_def MAXQUE_def)+
qed

lemma cat_wf_queue:
  assumes "cat_wf c" and "userQue c k = Some q"
  obtains s where "users c k = Some s" and "group_wf k s q"
  using assms by (fastforce simp: cat_wf_def)

text \<open>One lemma per branch of the code, for a comparison that orders users by their \<^verbatim>\<open>userIP\<close>.\<close>

lemma insertUser_new_group:
  assumes "orders_by_ip lt" and "users c (processIP ip) = None" and "cat_wf c"
  shows "insertUser lt reach ip f c = Inr (set_group (processIP ip) [\<lparr>userIP = ip, userFile = f\<rparr>] [ip] c)"
proof -
  have "userQue c (processIP ip) = None" using assms(2,3) by (metis cat_wf_def domIff)
  moreover have "\<not> lt u u" for u using assms(1) by (simp add: orders_by_ip_def)
  ultimately show ?thesis using assms(2)
    by (simp add: insertUser_def Let_def push_que_def que_at_def set_que_def set_group_def)
qed

lemma insertUser_known:
  assumes ord: "orders_by_ip lt" and "cat_wf c" and "users c (processIP ip) = Some s" and "ip \<in> userIP ` set s"
  obtains s' where "with_user \<lparr>userIP = ip, userFile = f\<rparr> (filter (\<lambda>v. ip \<noteq> userIP v) s) s'"
    and "insertUser lt reach ip f c = Inr (set_group (processIP ip) s' (que_at (processIP ip) c) c)"
proof -
  obtain q where q: "userQue c (processIP ip) = Some q" "que_at (processIP ip) c = q"
    using cat_wfD [OF assms(2,3)] by blast
  obtain s' where s': "set_insert lt \<lparr>userIP = ip, userFile = f\<rparr> (filter (\<lambda>v. ip \<noteq> userIP v) s) = Inr s'"
      "with_user \<lparr>userIP = ip, userFile = f\<rparr> (filter (\<lambda>v. ip \<noteq> userIP v) s) s'"
    using insert_user_new [OF ord, of "\<lparr>userIP = ip, userFile = f\<rparr>" "filter (\<lambda>v. ip \<noteq> userIP v) s"] by auto
  have "filter (\<lambda>v. ip = userIP v) s \<noteq> []" using assms(4) by (simp add: filter_ip_none)
  with q s' assms(3) show thesis
    by (intro that [of s'])
      (simp_all add: insertUser_def Let_def touch_que_id dom_def set_group_def map_upd_triv erase_users [OF ord])
qed

lemma insertUser_fits:
  assumes ord: "orders_by_ip lt" and "cat_wf c" and "users c (processIP ip) = Some s" and "ip \<notin> userIP ` set s"
    and "length (que_at (processIP ip) c) < MAXQUE"
  obtains s' where "with_user \<lparr>userIP = ip, userFile = f\<rparr> s s'"
    and "insertUser lt reach ip f c = Inr (set_group (processIP ip) s' (que_at (processIP ip) c @ [ip]) c)"
proof -
  obtain q where q: "userQue c (processIP ip) = Some q" "que_at (processIP ip) c = q"
    using cat_wfD [OF assms(2,3)] by blast
  obtain s' where s': "set_insert lt \<lparr>userIP = ip, userFile = f\<rparr> s = Inr s'"
      "with_user \<lparr>userIP = ip, userFile = f\<rparr> s s'"
    using insert_user_new [OF ord, of "\<lparr>userIP = ip, userFile = f\<rparr>" s] assms(4) by auto
  with q assms(3-5) show thesis
    by (intro that [of s'])
      (simp_all add: insertUser_def Let_def touch_que_id dom_def set_group_def push_que_def set_que_def
        erase_users [OF ord] filter_ip_none filter_ip_absent)
qed

lemma insertUser_turned_away:
  assumes ord: "orders_by_ip lt" and "cat_wf c" and "users c (processIP ip) = Some s" and "ip \<notin> userIP ` set s"
    and "que_at (processIP ip) c = first # rest" and "MAXQUE \<le> length (first # rest)"
    and "reach (word_of_int (atoi first))"
  shows "insertUser lt reach ip f c = Inr (set_group (processIP ip) s (rest @ [first]) c)"
proof -
  obtain q where q: "userQue c (processIP ip) = Some q" "que_at (processIP ip) c = q"
      "group_wf (processIP ip) s q"
    using cat_wfD [OF assms(2,3)] by blast
  have "processIP first = processIP ip" using q assms(5) by (auto simp: group_wf_def)
  with q assms(3-7) show ?thesis
    by (simp add: insertUser_def Let_def touch_que_id dom_def set_group_def push_que_def set_que_def
        que_at_def isClientWorking_def touch_que_def map_upd_triv erase_users [OF ord] filter_ip_none)
qed

lemma insertUser_replaces:
  assumes ord: "orders_by_ip lt" and "cat_wf c" and "users c (processIP ip) = Some s" and "ip \<notin> userIP ` set s"
    and "que_at (processIP ip) c = first # rest" and "MAXQUE \<le> length (first # rest)"
    and "\<not> reach (word_of_int (atoi first))"
  obtains s' where "with_user \<lparr>userIP = ip, userFile = f\<rparr> (filter (\<lambda>v. first \<noteq> userIP v) s) s'"
    and "insertUser lt reach ip f c =
           Inr ((set_group (processIP ip) s' (rest @ [ip]) c)\<lparr>leakedFds := Suc (leakedFds c)\<rparr>)"
proof -
  obtain q where q: "userQue c (processIP ip) = Some q" "que_at (processIP ip) c = q"
    using cat_wfD [OF assms(2,3)] by blast
  obtain s' where s': "set_insert lt \<lparr>userIP = ip, userFile = f\<rparr> (filter (\<lambda>v. first \<noteq> userIP v) s) = Inr s'"
      "with_user \<lparr>userIP = ip, userFile = f\<rparr> (filter (\<lambda>v. first \<noteq> userIP v) s) s'"
    using insert_user_new [OF ord, of "\<lparr>userIP = ip, userFile = f\<rparr>" "filter (\<lambda>v. first \<noteq> userIP v) s"] assms(4)
    by auto
  with q assms(3-7) show thesis
    by (intro that [of s'])
      (simp_all add: insertUser_def Let_def touch_que_id dom_def set_group_def push_que_def set_que_def
        que_at_def isClientWorking_def erase_users [OF ord] filter_ip_none filter_ip_absent)
qed


section \<open>Abstract specification of a group\<close>

text \<open>
  A group is a map from clients to files and a replacement queue. Registering updates a known client,
  admits a new one while there is room, and otherwise probes the oldest: a working one goes to the back
  of the queue and the newcomer is turned away, a dead one is replaced by the newcomer.
\<close>

type_synonym group = "(string \<rightharpoonup> int) \<times> string list"

definition register :: "(16 word \<Rightarrow> bool) \<Rightarrow> string \<Rightarrow> int \<Rightarrow> group \<Rightarrow> group" where
  "register reach ip f g =
     (case g of (m, q) \<Rightarrow>
        if ip \<in> set q then (m(ip \<mapsto> f), q)
        else if length q < MAXQUE then (m(ip \<mapsto> f), q @ [ip])
        else if reach (word_of_int (atoi (hd q))) then (m, tl q @ [hd q])
        else (m(hd q := None, ip \<mapsto> f), tl q @ [ip]))"

definition group_of :: "UserCatalogue \<Rightarrow> string \<Rightarrow> group" where
  "group_of c k = (members c k, que_at k c)"

abbreviation user_map :: "UserInfo list \<Rightarrow> (string \<rightharpoonup> int)" where
  "user_map s \<equiv> map_of (map (\<lambda>u. (userIP u, userFile u)) s)"

lemma user_map_filter: "user_map (filter (\<lambda>v. ip \<noteq> userIP v) s) = (user_map s)(ip := None)"
  by (induction s) (auto simp: fun_eq_iff)

lemma dom_user_map: "dom (user_map s) = userIP ` set s"
  by (simp add: dom_map_of_conv_image_fst image_image)

lemma user_map_absent: "ip \<notin> userIP ` set s \<Longrightarrow> user_map s ip = None"
  using dom_user_map [of s] by (metis domIff)

lemma user_map_with:
  assumes "with_user u s s'"
  shows "user_map s' = (user_map s)(userIP u \<mapsto> userFile u)"
proof -
  obtain l r where lr: "s = l @ r" "s' = l @ u # r" and new: "userIP u \<notin> userIP ` set s"
    using assms by (auto simp: with_user_def)
  have "user_map l (userIP u) = None" using new lr(1) by (intro user_map_absent) auto
  then show ?thesis unfolding lr by (auto simp: fun_eq_iff map_add_def split: option.splits)
qed

lemma group_of_set_group [simp]:
  "group_of (set_group k s q c) k = (user_map s, q)"
  "k' \<noteq> k \<Longrightarrow> group_of (set_group k s q c) k' = group_of c k'"
  "group_of (c\<lparr>leakedFds := n\<rparr>) k = group_of c k"
  by (simp_all add: group_of_def members_def que_at_def)

lemma ips_filter: "userIP ` set (filter (\<lambda>v. ip \<noteq> userIP v) s) = userIP ` set s - {ip}"
  by auto

lemma ips_with:
  assumes "with_user u s s'"
  shows "userIP ` set s' = insert (userIP u) (userIP ` set s)"
    and "distinct (map userIP s) \<Longrightarrow> distinct (map userIP s')"
  using assms by (auto simp: with_user_def)

lemma group_wf_add:
  assumes "group_wf k s q" and "with_user u s s'" and "processIP (userIP u) = k" and "length q < MAXQUE"
  shows "group_wf k s' (q @ [userIP u])"
  using assms ips_with [OF assms(2)] by (auto simp: group_wf_def with_user_def simp del: set_map)

lemma group_wf_update:
  assumes "group_wf k s q" and "with_user u (filter (\<lambda>v. userIP u \<noteq> userIP v) s) s'" and "userIP u \<in> set q"
  shows "group_wf k s' q"
  using assms ips_with [OF assms(2)]
  by (auto simp: group_wf_def distinct_map_filter ips_filter simp del: set_filter)

lemma group_wf_rotate: "group_wf k s (x # q) \<Longrightarrow> group_wf k s (q @ [x])"
  by (auto simp: group_wf_def)

lemma group_wf_replace:
  assumes "group_wf k s (x # q)" and "with_user u (filter (\<lambda>v. x \<noteq> userIP v) s) s'"
    and "userIP u \<notin> set (x # q)" and "processIP (userIP u) = k"
  shows "group_wf k s' (q @ [userIP u])"
  using assms ips_with [OF assms(2)]
  by (simp add: group_wf_def distinct_map_filter ips_filter del: set_filter)

text \<open>A newcomer in a full group.\<close>

lemma insertUser_full:
  assumes ord: "orders_by_ip lt" and wf: "cat_wf c" and s: "users c (processIP ip) = Some s"
    and q: "que_at (processIP ip) c = x # r" and g: "group_wf (processIP ip) s (x # r)"
    and full: "ip \<notin> set (x # r)" "MAXQUE \<le> length (x # r)"
  shows "\<exists>s' q' n. insertUser lt reach ip f c = Inr ((set_group (processIP ip) s' q' c)\<lparr>leakedFds := n\<rparr>) \<and> group_wf (processIP ip) s' q' \<and>
    (user_map s', q') = register reach ip f (user_map s, x # r)"
proof -
  let ?u = "\<lparr>userIP = ip, userFile = f\<rparr>"
  have ip: "ip \<notin> userIP ` set s" using g full(1) by (auto simp: group_wf_def)
  show ?thesis
  proof (cases "reach (word_of_int (atoi x))")
    case True
    have "insertUser lt reach ip f c = Inr (set_group (processIP ip) s (r @ [x]) c)"
      by (rule insertUser_turned_away [where reach = reach, OF ord wf s ip q full(2) True])
    with True full group_wf_rotate [OF g] show ?thesis
      by (intro exI [of _ s] exI [of _ "r @ [x]"] exI [of _ "leakedFds c"]) (auto simp: register_def)
  next
    case False
    obtain s' where s': "with_user ?u (filter (\<lambda>v. x \<noteq> userIP v) s) s'"
        "insertUser lt reach ip f c = Inr ((set_group (processIP ip) s' (r @ [ip]) c)\<lparr>leakedFds := Suc (leakedFds c)\<rparr>)"
      by (rule insertUser_replaces [where reach = reach, OF ord wf s ip q full(2) False])
    have "group_wf (processIP ip) s' (r @ [ip])" using group_wf_replace [OF g, of ?u s'] s'(1) full by simp
    with s' False full show ?thesis
      by (intro exI [of _ s'] exI [of _ "r @ [ip]"] exI [of _ "Suc (leakedFds c)"]) (auto simp: register_def user_map_with user_map_filter)
  qed
qed

lemma insertUser_spec:
  assumes ord: "orders_by_ip lt" and wf: "cat_wf c"
  shows "\<exists>c'. insertUser lt reach ip f c = Inr c' \<and> cat_wf c' \<and> dom (users c) \<subseteq> dom (users c') \<and>
           processIP ip \<in> dom (users c') \<and>
           (\<forall>k. group_of c' k = (if k = processIP ip then register reach ip f (group_of c k) else group_of c k))"
proof (cases "users c (processIP ip)")
  case None
  then have q: "que_at (processIP ip) c = []"
    using wf by (metis cat_wf_def domIff option.simps(4) que_at_def)
  have "group_wf (processIP ip) [\<lparr>userIP = ip, userFile = f\<rparr>] [ip]"
    by (simp add: group_wf_def MAXQUE_def)
  with None q show ?thesis
    using insertUser_new_group [OF ord None wf] set_group_wf [OF wf]
    by (auto simp: register_def group_of_def [of c] members_def MAXQUE_def)
next
  case (Some s)
  let ?u = "\<lparr>userIP = ip, userFile = f\<rparr>"
  obtain q where q: "que_at (processIP ip) c = q" and g: "group_wf (processIP ip) s q"
    using cat_wfD [OF wf Some] by blast
  have ips: "userIP ` set s = set q" and le: "length q \<le> MAXQUE" and ne: "q \<noteq> []"
    using g by (auto simp: group_wf_def)
  have gc: "group_of c (processIP ip) = (user_map s, q)"
    using Some q by (simp add: group_of_def members_def)
  consider (known) "ip \<in> set q" | (fits) "ip \<notin> set q" "length q < MAXQUE"
    | (full) x r where "ip \<notin> set q" "MAXQUE \<le> length q" "q = x # r"
    using ne by (cases q) fastforce+
  then show ?thesis
  proof cases
    case known
    then obtain s' where "with_user ?u (filter (\<lambda>v. ip \<noteq> userIP v) s) s'"
        "insertUser lt reach ip f c = Inr (set_group (processIP ip) s' q c)"
      using insertUser_known [OF ord wf Some] ips q by metis
    with known g gc show ?thesis
      using set_group_wf [OF wf group_wf_update [OF g, of ?u s']]
      by (auto simp: register_def user_map_with user_map_filter)
  next
    case fits
    then obtain s' where "with_user ?u s s'"
        "insertUser lt reach ip f c = Inr (set_group (processIP ip) s' (q @ [ip]) c)"
      using insertUser_fits [OF ord wf Some] ips q by metis
    with fits g gc show ?thesis
      using set_group_wf [OF wf group_wf_add [OF g, of ?u s']]
      by (auto simp: register_def user_map_with)
  next
    case (full x r)
    obtain s' q' n where r: "insertUser lt reach ip f c = Inr ((set_group (processIP ip) s' q' c)\<lparr>leakedFds := n\<rparr>)"
        "group_wf (processIP ip) s' q'" "(user_map s', q') = register reach ip f (user_map s, q)"
      using insertUser_full [OF ord wf Some, of x r reach f] q g full by auto
    with gc set_group_wf [OF wf r(2)] show ?thesis by auto
  qed
qed

text \<open>The catalogue the constructor builds from its default arguments.\<close>

definition first_catalogue :: UserCatalogue where
  "first_catalogue = \<lparr>userQue = [''111'' \<mapsto> [''1111'']],
     users = [''111'' \<mapsto> [\<lparr>userIP = ''1111'', userFile = 100\<rparr>]], leakedFds = 0\<rparr>"

lemma default_catalogue: "(\<And>u. \<not> lt u u) \<Longrightarrow> default_UserCatalogue lt = Inr first_catalogue"
  by (simp add: default_UserCatalogue_def new_UserCatalogue_def first_catalogue_def push_que_def set_que_def
      que_at_def processIP_def)

lemma default_ordered: "orders_by_ip lt \<Longrightarrow> default_UserCatalogue lt = Inr first_catalogue"
  by (rule default_catalogue) (simp add: orders_by_ip_def)

lemma cat_wf_first: "cat_wf first_catalogue"
  by (auto simp: first_catalogue_def cat_wf_def group_wf_def MAXQUE_def processIP_def split: if_splits)

lemma group_of_first: "group_of first_catalogue ''111'' = ([''1111'' \<mapsto> 100], [''1111''])"
  by (simp add: group_of_def members_def que_at_def first_catalogue_def)

text \<open>The catalogues a server can reach: it starts with the default one and registers clients.\<close>

inductive cat_reachable :: "(UserInfo \<Rightarrow> UserInfo \<Rightarrow> bool) \<Rightarrow> UserCatalogue \<Rightarrow> bool" for lt where
  start: "default_UserCatalogue lt = Inr c \<Longrightarrow> cat_reachable lt c"
| insert: "cat_reachable lt c \<Longrightarrow> insertUser lt reach ip f c = Inr c' \<Longrightarrow> cat_reachable lt c'"

lemma cat_reachable_wf: "cat_reachable lt c \<Longrightarrow> orders_by_ip lt \<Longrightarrow> cat_wf c"
proof (induction rule: cat_reachable.induct)
  case (start c)
  then show ?case using default_ordered cat_wf_first by auto
next
  case (insert c reach ip f c')
  then show ?case using insertUser_spec [of lt c reach ip f] by auto
qed

text \<open>Rotation of the queue while the probed clients work.\<close>

lemma register_rotates:
  assumes "ip \<notin> set q" and "MAXQUE \<le> length q" and "i \<le> length q"
    and "\<forall>j<i. reach (word_of_int (atoi (q ! j)))"
  shows "(register reach ip f ^^ i) (m, q) = (m, drop i q @ take i q)"
  using assms(3,4)
proof (induction i)
  case (Suc i)
  then have i: "i < length q" by simp
  have "hd (drop i q @ take i q) = q ! i" using i by (simp add: hd_append hd_drop_conv_nth)
  moreover have "tl (drop i q @ take i q) @ [q ! i] = drop (Suc i) q @ take (Suc i) q"
    using i by (simp add: tl_append2 take_Suc_conv_app_nth tl_drop drop_Suc)
  moreover have "ip \<notin> set (drop i q @ take i q)"
    using assms(1) by (auto dest: in_set_dropD in_set_takeD)
  ultimately show ?case
    using Suc assms(2) i by (simp add: register_def del: set_append)
qed simp

lemma insertUser_iterated:
  assumes "orders_by_ip lt"
  shows "cat_wf c \<Longrightarrow> \<exists>c'. res_fold (\<lambda>_. insertUser lt reach ip f) [0..<n] c = Inr c' \<and> cat_wf c' \<and>
     group_of c' (processIP ip) = (register reach ip f ^^ n) (group_of c (processIP ip))"
proof (induction n)
  case (Suc n)
  then obtain c1 where c1: "res_fold (\<lambda>_. insertUser lt reach ip f) [0..<n] c = Inr c1" "cat_wf c1"
      "group_of c1 (processIP ip) = (register reach ip f ^^ n) (group_of c (processIP ip))" by blast
  with insertUser_spec [OF assms c1(2), of reach ip f] show ?case
    by (auto simp: res_fold_append)
qed simp


section \<open>Properties\<close>





text \<open>
  With such a comparison, a full group in which some client has died takes a newcomer after as many
  attempts as the queue position of the first dead client: the working ones before it are rotated to the
  back, then the dead one is replaced.
\<close>

theorem dead_client_replaced:
  assumes "orders_by_ip lt" and "cat_wf c" and "que_at (processIP ip) c = q" and "ip \<notin> set q" and "length q = MAXQUE"
    and "i < length q" and "\<forall>j<i. reach (word_of_int (atoi (q ! j)))" and "\<not> reach (word_of_int (atoi (q ! i)))"
  shows "\<exists>c'. res_fold (\<lambda>_. insertUser lt reach ip f) [0..<Suc i] c = Inr c' \<and> cat_wf c' \<and>
           members c' (processIP ip) = (members c (processIP ip))(q ! i := None, ip \<mapsto> f)"
proof -
  from insertUser_iterated [OF assms(1,2), where n = "Suc i" and reach = reach and ip = ip and f = f] obtain c' where
    c': "res_fold (\<lambda>_. insertUser lt reach ip f) [0..<Suc i] c = Inr c'" "cat_wf c'"
        "group_of c' (processIP ip) = (register reach ip f ^^ Suc i) (members c (processIP ip), q)"
    using assms(3) by (auto simp: group_of_def [of c] simp del: upt_Suc funpow.simps)
  have "(register reach ip f ^^ i) (m, q) = (m, drop i q @ take i q)" for m
    using assms by (intro register_rotates) auto
  moreover have "hd (drop i q @ take i q) = q ! i"
    using assms(6) by (simp add: hd_append hd_drop_conv_nth)
  moreover have "ip \<notin> set (drop i q @ take i q)"
    using assms(4) by (auto dest: in_set_dropD in_set_takeD)
  ultimately have "fst (group_of c' (processIP ip)) = (members c (processIP ip))(q ! i := None, ip \<mapsto> f)"
    using assms c'(3) by (simp add: register_def del: set_append)
  moreover have "fst (group_of c' (processIP ip)) = members c' (processIP ip)" by (simp add: group_of_def)
  ultimately show ?thesis using c'(1,2) by auto
qed

theorem dead_client_replaced_witness:
  "\<exists>c'. res_fold (\<lambda>_. insertUser UserInfoSortCriterion (\<lambda>p. p = 1111) ''1114'' 9) [0..<2]
          (set_group ''111'' [\<lparr>userIP = ''1113'', userFile = 3\<rparr>, \<lparr>userIP = ''1112'', userFile = 2\<rparr>,
             \<lparr>userIP = ''1111'', userFile = 100\<rparr>] [''1111'', ''1112'', ''1113''] first_catalogue) = Inr c' \<and>
        cat_wf c' \<and> members c' ''111'' ''1112'' = None \<and> members c' ''111'' ''1114'' = Some 9"
proof -
  let ?s = "[\<lparr>userIP = ''1113'', userFile = 3\<rparr>, \<lparr>userIP = ''1112'', userFile = 2\<rparr>, \<lparr>userIP = ''1111'', userFile = 100\<rparr>]"
  let ?q = "[''1111'', ''1112'', ''1113'']"
  have a: "atoi ''1111'' = 1111" "atoi ''1112'' = 1112" by code_simp+
  have "cat_wf (set_group ''111'' ?s ?q first_catalogue)"
    by (rule set_group_wf [OF cat_wf_first]) (auto simp: group_wf_def MAXQUE_def processIP_def)
  from dead_client_replaced [OF orders_SortCriterion this, of "''1114''" ?q 1 "\<lambda>p. p = 1111" 9] a show ?thesis
    by (simp add: processIP_def MAXQUE_def que_at_def numeral_2_eq_2 del: res_fold.simps) auto
qed

text \<open>
  C34. \<open>UserInfo::operator<\<close> as written returns the result of \<open>compare\<close> as a \<open>bool\<close>: of two different
  clients each is less than the other, so it is no strict weak order, and registering a client in a group
  that has another one is undefined behaviour.
\<close>

theorem second_client_undefined:
  assumes "users c (processIP ip) = Some s" and "\<exists>u \<in> set s. userIP u \<noteq> ip"
  shows "\<not> strict_weak_order UserInfo_less \<and> insertUser UserInfo_less reach ip f c = Inl UndefinedBehaviour"
proof -
  obtain u where u: "u \<in> set s" "userIP u \<noteq> ip" using assms(2) by blast
  let ?v = "\<lparr>userIP = ip, userFile = f\<rparr>"
  have both: "UserInfo_less ?v u" "UserInfo_less u ?v" and "\<not> UserInfo_less u u"
    using u(2) by (auto simp: UserInfo_less_def str_compare_def)
  then have "\<not> strict_weak_order UserInfo_less" unfolding strict_weak_order_def by blast
  then show ?thesis
    using assms(1) set_ops_undefined(2) [where lt = UserInfo_less, OF u(1) both]
    by (simp add: insertUser_def Let_def)
qed

theorem second_client_undefined_witness:
  "\<exists>c. default_UserCatalogue UserInfo_less = Inr c \<and>
       insertUser UserInfo_less (\<lambda>_. True) ''1112'' 1 c = Inl UndefinedBehaviour"
proof -
  have "default_UserCatalogue UserInfo_less = Inr first_catalogue"
    by (rule default_catalogue) (simp add: UserInfo_less_def str_compare_def)
  moreover have "users first_catalogue (processIP ''1112'') = Some [\<lparr>userIP = ''1111'', userFile = 100\<rparr>]"
    by (simp add: first_catalogue_def processIP_def)
  ultimately show ?thesis using second_client_undefined [of first_catalogue "''1112''"] by auto
qed

end
