(* ===== verification/P2PServer.thy ===== *)
theory P2PServer
  imports Codec UserCatalogue
begin

text \<open>
  The directory server, \<^verbatim>\<open>p2pserver/src/p2pserver.cpp\<close>. Its message callback registers the sender in the
  catalogue and answers with the other clients of the sender's group (type \<^verbatim>\<open>a\<close>), or serves the file
  itself (type \<^verbatim>\<open>c\<close>). The callback acts on the catalogue and on the connection the message came from;
  \<^verbatim>\<open>TcpConnection::send\<close> and \<^verbatim>\<open>shutdown\<close> are the arguments \<open>csend\<close> and \<open>sd\<close>, and \<open>lt\<close> and \<open>reach\<close> are
  the catalogue's comparison and the reachability of ports.
\<close>

section \<open>The callback\<close>

record P2PServer =
  seq_id :: int
  catalogue :: UserCatalogue

definition new_P2PServer :: "(UserInfo \<Rightarrow> UserInfo \<Rightarrow> bool) \<Rightarrow> P2PServer res" where
  "new_P2PServer lt = res_bind (default_UserCatalogue lt) (\<lambda>c. Inr \<lparr>seq_id = 0, catalogue = c\<rparr>)"

definition retNeighborIP :: "string \<Rightarrow> UserCatalogue \<Rightarrow> string res" where
  "retNeighborIP ip c =
     res_bind (getNeighborUsers ip c) (\<lambda>neiset.
     let (ret, num) =
       fold (\<lambda>u (ret, num).
               if userIP u \<noteq> ip then ((ret @ userIP u) @ [to_char (userFile u)], num + 1) else (ret, num))
         neiset (''0'', 0::int)
     in Inr (ret[0 := to_char num]))"

definition processMyself :: "string \<Rightarrow> string" where
  "processMyself ip = ''11111''[0 := to_char 1]"

definition processMessage :: "string \<Rightarrow> UserCatalogue \<Rightarrow> string res" where
  "processMessage ip c =
     res_bind (hasNeighbor ip c) (\<lambda>n.
     if n \<noteq> 0 then retNeighborIP ip c else Inr (processMyself ip))"

text \<open>
  The trace output evaluates \<^verbatim>\<open>hasNeighbor(ip)\<close> before the type is looked at and before the client is
  registered.
\<close>

definition P2PServer_onStringMessage ::
  "(UserInfo \<Rightarrow> UserInfo \<Rightarrow> bool) \<Rightarrow> (16 word \<Rightarrow> bool) \<Rightarrow> (Buffer \<Rightarrow> 'c \<Rightarrow> 'c res) \<Rightarrow> ('c \<Rightarrow> 'c res) \<Rightarrow>
     P2PServer \<times> 'c \<Rightarrow> string \<Rightarrow> (P2PServer \<times> 'c) res"
where
  "P2PServer_onStringMessage lt reach csend sd st message =
     (case st of (srv, conn) \<Rightarrow>
      res_bind (str_at message 0) (\<lambda>type.
      res_bind (str_at message 1) (\<lambda>id.
      res_bind (str_substr message 2 4) (\<lambda>ip.
      res_bind (str_at message 6) (\<lambda>reqfile.
      res_bind (hasNeighbor ip (catalogue srv)) (\<lambda>_.
      if type = CHR ''a'' then
        res_bind (insertUser lt reach ip (schar reqfile) (catalogue srv)) (\<lambda>cat.
        res_bind (processMessage ip cat) (\<lambda>r.
        let ret = ''b0'' @ r in
        res_bind (codec_send csend (StringPiece_of_string ret) conn) (\<lambda>conn.
        res_bind (sd conn) (\<lambda>conn.
        Inr (srv\<lparr>catalogue := cat\<rparr>, conn)))))
      else if type = CHR ''c'' then
        let ret = ''d01111'' @ [to_char 100] in
        res_bind (codec_send csend (StringPiece_of_string ret) conn) (\<lambda>conn.
        Inr (srv, conn))
      else Inr (srv, conn)))))))"


section \<open>The reply\<close>

definition nei_entry :: "string \<times> int \<Rightarrow> string" where
  "nei_entry e = fst e @ [to_char (snd e)]"

definition nei_entries :: "string \<Rightarrow> UserInfo list \<Rightarrow> (string \<times> int) list" where
  "nei_entries ip s = map (\<lambda>u. (userIP u, userFile u)) (filter (\<lambda>u. userIP u \<noteq> ip) s)"

text \<open>The neighbour list on the wire: the count, then each address with its file number.\<close>

definition nei_reply :: "(string \<times> int) list \<Rightarrow> string" where
  "nei_reply es = to_char (int (length es)) # concat (map nei_entry es)"

definition server_reply :: "string \<Rightarrow> UserInfo list \<Rightarrow> string" where
  "server_reply ip s =
     ''b0'' @ (if length s = 1 then to_char 1 # ''1111'' else nei_reply (nei_entries ip s))"

lemma retNeighborIP_fold:
  "fold (\<lambda>u (ret, num).
      if userIP u \<noteq> ip then ((ret @ userIP u) @ [to_char (userFile u)], num + 1) else (ret, num)) s (r, n::int) =
   (r @ concat (map nei_entry (nei_entries ip s)), n + int (length (nei_entries ip s)))"
  by (induction s arbitrary: r n) (auto simp: nei_entries_def nei_entry_def)

lemma retNeighborIP_spec:
  "users c (processIP ip) = Some s \<Longrightarrow> retNeighborIP ip c = Inr (nei_reply (nei_entries ip s))"
  by (simp add: retNeighborIP_def getNeighborUsers_def retNeighborIP_fold nei_reply_def)

lemma processMessage_spec:
  "users c (processIP ip) = Some s \<Longrightarrow> Inr (server_reply ip s) = res_bind (processMessage ip c) (\<lambda>r. Inr (''b0'' @ r))"
  by (auto simp: processMessage_def hasNeighbor_def retNeighborIP_spec processMyself_def server_reply_def)

text \<open>What the catalogue of a running server holds: four-character addresses and file numbers of one byte.\<close>

definition server_inv :: "P2PServer \<Rightarrow> bool" where
  [inv_simps]: "server_inv srv \<longleftrightarrow> cat_wf (catalogue srv) \<and>
     (\<forall>k ip f. members (catalogue srv) k ip = Some f \<longrightarrow> length ip = 4 \<and> -128 \<le> f \<and> f < 128)"

text \<open>
  Messages the server handles without undefined behaviour: at least the type, the identifier and four
  characters of address, whose prefix is that of a group it knows.
\<close>

definition server_valid :: "P2PServer \<Rightarrow> string \<Rightarrow> bool" where
  "server_valid srv m \<longleftrightarrow> 6 \<le> length m \<and> processIP (take 4 (drop 2 m)) \<in> dom (users (catalogue srv))"

lemma group_member:
  assumes "cat_wf c" and "users c k = Some s" and "u \<in> set s"
  shows "members c k (userIP u) = Some (userFile u)"
proof -
  have "distinct (map userIP s)" using cat_wfD [OF assms(1,2)] by (auto simp: group_wf_def)
  with assms(2,3) show ?thesis by (simp add: members_def map_of_eq_Some_iff comp_def)
qed

lemma server_inv_insert:
  assumes "orders_by_ip lt" and "server_inv srv" and "length ip = 4" and "-128 \<le> f" and "f < 128"
    and "insertUser lt reach ip f (catalogue srv) = Inr c'"
  shows "server_inv (srv\<lparr>catalogue := c'\<rparr>)" and "dom (users (catalogue srv)) \<subseteq> dom (users c')"
    and "processIP ip \<in> dom (users c')"
proof -
  let ?c = "catalogue srv"
  have wf: "cat_wf ?c" using assms(2) by (simp add: server_inv_def)
  from insertUser_spec [OF assms(1) wf, of reach ip f] assms(6) have
    c': "cat_wf c'" "dom (users ?c) \<subseteq> dom (users c')" "processIP ip \<in> dom (users c')"
    and g: "\<And>k. group_of c' k = (if k = processIP ip then register reach ip f (group_of ?c k) else group_of ?c k)"
    by auto
  have step: "members ?c k ip' = Some f' \<or> (ip' = ip \<and> f' = f)" if "members c' k ip' = Some f'" for k ip' f'
    using g [of k] that
    by (auto simp: group_of_def register_def split: if_splits)
  then have "length ip' = 4 \<and> -128 \<le> f' \<and> f' < 128" if "members c' k ip' = Some f'" for k ip' f'
    using that assms(2-5) step [OF that] unfolding server_inv_def by blast
  with c' show "server_inv (srv\<lparr>catalogue := c'\<rparr>)" by (simp add: server_inv_def)
  show "dom (users ?c) \<subseteq> dom (users c')" "processIP ip \<in> dom (users c')" by (rule c')+
qed

lemma entries_length:
  assumes "server_inv srv" and "users (catalogue srv) k = Some s" and "e \<in> set (nei_entries ip s)"
  shows "length (fst e) = 4" and "-128 \<le> snd e" and "snd e < 128"
proof -
  obtain u where u: "u \<in> set s" "e = (userIP u, userFile u)" using assms(3) by (auto simp: nei_entries_def)
  have "members (catalogue srv) k (userIP u) = Some (userFile u)"
    using group_member assms(1,2) u(1) by (auto simp: server_inv_def)
  then show "length (fst e) = 4" "-128 \<le> snd e" "snd e < 128"
    using assms(1) u(2) by (auto simp: server_inv_def)
qed

lemma length_nei_reply:
  "\<forall>e \<in> set es. length (fst e) = 4 \<Longrightarrow> length (nei_reply es) = 1 + 5 * length es"
  by (induction es) (auto simp: nei_reply_def nei_entry_def)

lemma length_server_reply:
  assumes "server_inv srv" and "users (catalogue srv) k = Some s"
  shows "length (server_reply ip s) \<le> 18"
proof -
  have "length s \<le> 3" using assms cat_wfD group_size(3) unfolding server_inv_def by metis
  then have "length (nei_entries ip s) \<le> 3"
    using length_filter_le [of "\<lambda>u. userIP u \<noteq> ip" s] unfolding nei_entries_def length_map by linarith
  moreover have "length (nei_reply (nei_entries ip s)) = 1 + 5 * length (nei_entries ip s)"
    using entries_length [OF assms] by (intro length_nei_reply) auto
  ultimately show ?thesis by (auto simp: server_reply_def)
qed

text \<open>The branches of the callback on a valid message.\<close>

definition message_ip :: "string \<Rightarrow> string" where
  "message_ip m = take 4 (drop 2 m)"

definition message_file :: "string \<Rightarrow> int" where
  "message_file m = (if 7 \<le> length m then schar (m ! 6) else 0)"

lemma message_file_bounds: "-128 \<le> message_file m" "message_file m < 128"
  using schar_bounds by (auto simp: message_file_def)

lemma str_at_6: "6 \<le> length m \<Longrightarrow> \<exists>ch. str_at m 6 = Inr ch \<and> schar ch = message_file m"
  by (auto simp: str_at_def message_file_def schar_def)

lemma length_message_ip: "6 \<le> length m \<Longrightarrow> length (message_ip m) = 4"
  by (simp add: message_ip_def)

lemma server_callback:
  assumes ord: "orders_by_ip lt" and inv: "server_inv srv" and valid: "server_valid srv m"
  obtains (register) cat s where "m ! 0 = CHR ''a''"
      "insertUser lt reach (message_ip m) (message_file m) (catalogue srv) = Inr cat"
      "server_inv (srv\<lparr>catalogue := cat\<rparr>)" "dom (users (catalogue srv)) \<subseteq> dom (users cat)"
      "users cat (processIP (message_ip m)) = Some s"
      "P2PServer_onStringMessage lt reach csend sd (srv, k) m =
         res_bind (codec_send csend (StringPiece_of_string (server_reply (message_ip m) s)) k) (\<lambda>k.
         res_bind (sd k) (\<lambda>k. Inr (srv\<lparr>catalogue := cat\<rparr>, k)))"
  | (serve) "m ! 0 = CHR ''c''"
      "P2PServer_onStringMessage lt reach csend sd (srv, k) m =
         res_bind (codec_send csend (StringPiece_of_string (''d01111'' @ [to_char 100])) k) (\<lambda>k. Inr (srv, k))"
  | (other) "m ! 0 \<noteq> CHR ''a''" "m ! 0 \<noteq> CHR ''c''"
      "P2PServer_onStringMessage lt reach csend sd (srv, k) m = Inr (srv, k)"
proof -
  have len: "6 \<le> length m" using valid by (simp add: server_valid_def)
  obtain ch where ch: "str_at m 6 = Inr ch" "schar ch = message_file m" using str_at_6 [OF len] by blast
  have parts: "str_at m 0 = Inr (m ! 0)" "str_at m (Suc 0) = Inr (m ! 1)" "str_substr m 2 4 = Inr (message_ip m)"
    using len by (auto simp: str_at_def str_substr_def message_ip_def)
  obtain n where n: "hasNeighbor (message_ip m) (catalogue srv) = Inr n"
    using valid by (auto simp: server_valid_def hasNeighbor_def message_ip_def)
  consider "m ! 0 = CHR ''a''" | "m ! 0 = CHR ''c''" | "m ! 0 \<noteq> CHR ''a''" "m ! 0 \<noteq> CHR ''c''" by blast
  then show thesis
  proof cases
    case 1
    have wf: "cat_wf (catalogue srv)" using inv by (simp add: server_inv_def)
    obtain cat where cat: "insertUser lt reach (message_ip m) (message_file m) (catalogue srv) = Inr cat"
      using insertUser_spec [OF ord wf, of reach "message_ip m" "message_file m"] by blast
    note kept = server_inv_insert [OF ord inv length_message_ip [OF len] message_file_bounds cat]
    then obtain s where s: "users cat (processIP (message_ip m)) = Some s" by blast
    obtain r where "processMessage (message_ip m) cat = Inr r" "CHR ''b'' # CHR ''0'' # r = server_reply (message_ip m) s"
      using processMessage_spec [OF s] by (cases "processMessage (message_ip m) cat") auto
    then show thesis
      by (intro register [OF 1 cat kept(1,2) s])
        (simp add: P2PServer_onStringMessage_def parts ch n 1 cat Let_def)
  next
    case 2
    then show thesis
      by (intro serve) (simp_all add: P2PServer_onStringMessage_def parts ch n Let_def)
  next
    case 3
    then show thesis
      by (intro other) (simp_all add: P2PServer_onStringMessage_def parts ch n)
  qed
qed


section \<open>The handler contract\<close>

text \<open>Over every connection that keeps its own contract, the callback keeps the message handler's.\<close>

definition server_conn_inv :: "('c \<Rightarrow> bool) \<Rightarrow> P2PServer \<times> 'c \<Rightarrow> bool" where
  "server_conn_inv conn_inv st \<longleftrightarrow> server_inv (fst st) \<and> conn_inv (snd st)"

definition on_conn :: "('c \<Rightarrow> 'c res) \<Rightarrow> 's \<times> 'c \<Rightarrow> ('s \<times> 'c) res" where
  "on_conn sd st = (case st of (s, k) \<Rightarrow> res_bind (sd k) (\<lambda>k. Inr (s, k)))"

text \<open>A message the code accepts without undefined behaviour is a valid one.\<close>

lemma server_accepts:
  "P2PServer_onStringMessage lt reach csend sd (srv, k) m = Inr st' \<Longrightarrow> server_valid srv m"
  by (auto simp: P2PServer_onStringMessage_def res_bind_eq_Inr str_at_def str_substr_def hasNeighbor_def
      server_valid_def Let_def split: if_splits option.splits)

sublocale codec_connection \<subseteq> p2p_server: message_handler
  "P2PServer_onStringMessage UserInfoSortCriterion reach csend sd" "on_conn sd"
  "server_conn_inv conn_inv" "\<lambda>st. server_valid (fst st)" "\<lambda>st. conn_room (snd st)" 22
  for reach
proof
  fix st st' :: "P2PServer \<times> 'c" and m
  assume inv: "server_conn_inv conn_inv st"
  obtain srv k where st: "st = (srv, k)" by (cases st)
  have i: "server_inv srv" "conn_inv k" using inv by (simp_all add: st server_conn_inv_def)
  { assume "P2PServer_onStringMessage UserInfoSortCriterion reach csend sd st m = Inr st'"
    then show "server_valid (fst st) m" using server_accepts by (simp add: st) }
  { show "\<exists>st'. on_conn sd st = Inr st' \<and> server_conn_inv conn_inv st'"
      using i shutdown_law [OF i(2)] by (auto simp: st on_conn_def server_conn_inv_def) }
  assume "server_valid (fst st) m" and room: "22 \<le> conn_room (snd st)"
  then have valid: "server_valid srv m" by (simp add: st)
  from orders_SortCriterion i(1) valid
  show "\<exists>st'. P2PServer_onStringMessage UserInfoSortCriterion reach csend sd st m = Inr st' \<and>
      server_conn_inv conn_inv st' \<and> conn_room (snd st) \<le> conn_room (snd st') + 22 \<and>
      (\<forall>m'. server_valid (fst st) m' \<longrightarrow> server_valid (fst st') m')"
  proof (cases rule: server_callback [where reach = reach and csend = csend and sd = sd and k = k])
    case (register cat s)
    have len: "length (server_reply (message_ip m) s) \<le> 18"
      using length_server_reply [OF register(3), of "processIP (message_ip m)" s "message_ip m"] register(5) by simp
    then obtain k1 where k1: "codec_send csend (StringPiece_of_string (server_reply (message_ip m) s)) k = Inr k1"
        "conn_inv k1" "conn_room k \<le> conn_room k1 + (length (server_reply (message_ip m) s) + 4)"
      using codec_send_law [OF i(2), of "server_reply (message_ip m) s"] room by (auto simp: st)
    obtain k2 where "sd k1 = Inr k2" "conn_inv k2" "conn_room k1 \<le> conn_room k2" using shutdown_law [OF k1(2)] by blast
    with k1 len register(3,4,6) show ?thesis by (auto simp: st server_conn_inv_def server_valid_def)
  next
    case serve
    obtain k1 where "codec_send csend (StringPiece_of_string (''d01111'' @ [to_char 100])) k = Inr k1"
        "conn_inv k1" "conn_room k \<le> conn_room k1 + 11"
      using codec_send_law [OF i(2), of "''d01111'' @ [to_char 100]"] room by (auto simp: st)
    with serve i(1) show ?thesis by (auto simp: st server_conn_inv_def)
  next
    case other
    with inv show ?thesis by (simp add: st)
  qed
qed


section \<open>Properties\<close>

text \<open>
  A registration message (type \<open>a\<close>, known prefix) changes the sender's group by exactly the
  replacement policy, answers with the other members of the group as it is afterwards, or with the
  server's own address when the sender is alone, and then shuts the connection down.
\<close>

theorem server_register_reply:
  assumes "orders_by_ip lt" and "server_inv srv" and "server_valid srv m" and "m ! 0 = CHR ''a''"
  shows "\<exists>cat s buf. group_of cat (processIP (message_ip m)) =
             register reach (message_ip m) (message_file m) (group_of (catalogue srv) (processIP (message_ip m))) \<and>
           users cat (processIP (message_ip m)) = Some s \<and> server_inv (srv\<lparr>catalogue := cat\<rparr>) \<and>
           content buf = encode (server_reply (message_ip m) s) \<and>
           P2PServer_onStringMessage lt reach csend sd (srv, k) m =
             res_bind (csend buf k) (\<lambda>k. res_bind (sd k) (\<lambda>k. Inr (srv\<lparr>catalogue := cat\<rparr>, k)))"
  using assms(1-3)
proof (cases rule: server_callback [where reach = reach and csend = csend and sd = sd and k = k])
  case (register cat s)
  have "length (server_reply (message_ip m) s) < 2 ^ 31"
    using length_server_reply [OF register(3), of "processIP (message_ip m)" s "message_ip m"] register(5) by simp
  from codec_send_spec [OF this, of csend] obtain buf where
    "content buf = encode (server_reply (message_ip m) s)"
    "\<And>k. codec_send csend (StringPiece_of_string (server_reply (message_ip m) s)) k = csend buf k" by blast
  moreover have "group_of cat (processIP (message_ip m)) =
      register reach (message_ip m) (message_file m) (group_of (catalogue srv) (processIP (message_ip m)))"
    using insertUser_spec [OF assms(1), of "catalogue srv" reach "message_ip m" "message_file m"] register(2) assms(2)
    by (auto simp: server_inv_def)
  ultimately show ?thesis using register by auto
qed (use assms(4) in auto)

text \<open>Concrete states for the witnesses: a server that knows the group \<^verbatim>\<open>111\<close>.\<close>

definition first_server :: P2PServer where
  "first_server = \<lparr>seq_id = 0, catalogue = first_catalogue\<rparr>"

lemma first_server_inv: "server_inv first_server"
  using cat_wf_first
  by (simp add: server_inv_def first_server_def) (auto simp: members_def first_catalogue_def split: if_splits)

lemma first_server_valid: "6 \<le> length m \<Longrightarrow> take 3 (drop 2 m) = ''111'' \<Longrightarrow> server_valid first_server m"
  by (simp add: server_valid_def first_server_def first_catalogue_def processIP_def)

theorem server_register_reply_witness:
  "\<exists>cat s buf. group_of cat ''111'' = ([''1111'' \<mapsto> 100, ''1112'' \<mapsto> 1], [''1111'', ''1112'']) \<and>
     users cat ''111'' = Some s \<and> content buf = encode (server_reply ''1112'' s) \<and>
     P2PServer_onStringMessage UserInfoSortCriterion (\<lambda>_. True) (\<lambda>b k. Inr (k @ [content b])) (\<lambda>k. Inr (k @ [''EOF'']))
       (first_server, []) (''a01112'' @ [to_char 1]) =
     Inr (first_server\<lparr>catalogue := cat\<rparr>, [content buf, ''EOF''])"
proof -
  let ?m = "''a01112'' @ [to_char 1]"
  have m: "message_ip ?m = ''1112''" "message_file ?m = 1" by (simp_all add: message_ip_def message_file_def)
  have "register (\<lambda>_. True) ''1112'' 1 (group_of first_catalogue ''111'') =
      ([''1111'' \<mapsto> 100, ''1112'' \<mapsto> 1], [''1111'', ''1112''])"
    by (simp add: group_of_first register_def MAXQUE_def fun_upd_twist)
  with server_register_reply [OF orders_SortCriterion first_server_inv first_server_valid, of ?m "\<lambda>_. True"
      "\<lambda>b k. Inr (k @ [content b])" "\<lambda>k. Inr (k @ [''EOF''])" "[]"] m show ?thesis
    by (auto simp: processIP_def first_server_def)
qed

text \<open>
  C35. A message from a client whose three-character prefix no registered client shares makes the server
  dereference \<open>users.end()\<close>: the trace output calls \<open>hasNeighbor\<close> before \<open>insertUser\<close> has made the group.
\<close>

theorem server_new_group_undefined:
  assumes "6 \<le> length m" and "users (catalogue srv) (processIP (message_ip m)) = None"
  shows "P2PServer_onStringMessage lt reach csend sd (srv, k) m = Inl UndefinedBehaviour"
proof -
  obtain ch where "str_at m 6 = Inr ch" using str_at_6 [OF assms(1)] by blast
  moreover have "str_at m 0 = Inr (m ! 0)" "str_at m (Suc 0) = Inr (m ! 1)" "str_substr m 2 4 = Inr (message_ip m)"
    using assms(1) by (auto simp: str_at_def str_substr_def message_ip_def)
  ultimately show ?thesis
    using assms(2) by (simp add: P2PServer_onStringMessage_def hasNeighbor_def)
qed

theorem server_new_group_undefined_witness:
  "P2PServer_onStringMessage UserInfo_less (\<lambda>_. True) (\<lambda>b k. Inr k) (\<lambda>k. Inr k) (first_server, ()) ''a03001x'' =
     Inl UndefinedBehaviour"
  by (rule server_new_group_undefined)
    (simp_all add: message_ip_def processIP_def first_server_def first_catalogue_def)

text \<open>
  The server does not check the length of a message before it takes it apart: a frame of fewer than six
  bytes, which any peer can send, ends in an uncaught \<open>out_of_range\<close> or in undefined behaviour.
\<close>

theorem server_short_message_fails:
  "P2PServer_onStringMessage lt reach csend sd (srv, k) [] = Inl UndefinedBehaviour \<and>
   P2PServer_onStringMessage lt reach csend sd (srv, k) [c0] = Inl OutOfRange \<and>
   (2 \<le> length m \<and> length m < 6 \<longrightarrow> P2PServer_onStringMessage lt reach csend sd (srv, k) m = Inl UndefinedBehaviour)"
proof (intro conjI impI)
  assume "2 \<le> length m \<and> length m < 6"
  then have "str_at m 0 = Inr (m ! 0)" "str_at m (Suc 0) = Inr (m ! 1)" "str_substr m 2 4 = Inr (message_ip m)"
      "str_at m 6 = Inl UndefinedBehaviour"
    by (auto simp: str_at_def str_substr_def message_ip_def)
  then show "P2PServer_onStringMessage lt reach csend sd (srv, k) m = Inl UndefinedBehaviour"
    by (simp add: P2PServer_onStringMessage_def)
qed (simp_all add: P2PServer_onStringMessage_def str_at_def str_substr_def)

theorem server_short_message_fails_witness:
  "P2PServer_onStringMessage UserInfo_less (\<lambda>_. True) (\<lambda>b k. Inr k) (\<lambda>k. Inr k) (first_server, ()) ''a0'' =
     Inl UndefinedBehaviour"
  using server_short_message_fails [of UserInfo_less "\<lambda>_. True" "\<lambda>b k. Inr k" "\<lambda>k. Inr k" first_server "()" _ "''a0''"]
  by simp

end
