(* ===== verification/P2PClient.thy ===== *)
theory P2PClient
  imports P2PServer
begin

text \<open>
  The peer program, \<^verbatim>\<open>p2pclient/src/p2pclient.cpp\<close>: the static state of \<^verbatim>\<open>P2PCServer\<close> (the neighbours a
  peer knows, how far its copy of the file has got, its own address), the serving side that answers other
  peers, and the \<^verbatim>\<open>P2PClient\<close> that asks one neighbour after another until the file is complete.

  Whether the \<open>n\<close>th connection attempt of the process to a port of the local host succeeds is \<open>reach n port\<close>.
  The calls that \<^verbatim>\<open>P2PClient\<close> makes on its \<^verbatim>\<open>TcpClient\<close> are recorded in order in \<open>commands\<close>.
\<close>

section \<open>State\<close>

record P2PCServer =
  neiIP :: "(string \<times> int) list"
  updateFile :: int
  selfIP :: string

datatype ConnState = kConnecting | kConnected | kDisconnected | kDisconnecting

datatype client_cmd = CmdDisconnect | CmdStop | CmdDelete | CmdNew "16 word" | CmdConnect

record 'c P2PClient =
  cstate :: ConnState
  isFirst :: int
  peerIP :: string
  connection :: "'c option"
  commands :: "client_cmd list"
  attempts :: nat
  probeLeaks :: nat

type_synonym 'c peer = "P2PCServer \<times> 'c P2PClient"
type_synonym probes = "nat \<Rightarrow> 16 word \<Rightarrow> bool"

definition init_P2PCServer :: P2PCServer where
  "init_P2PCServer = \<lparr>neiIP = [], updateFile = 1, selfIP = []\<rparr>"

text \<open>The constructor leaves \<^verbatim>\<open>state_\<close> uninitialised: \<open>s0\<close> is whatever the memory held.\<close>

definition new_P2PClient :: "ConnState \<Rightarrow> 16 word \<Rightarrow> 'c P2PClient" where
  "new_P2PClient s0 serverPort =
     \<lparr>cstate = s0, isFirst = 1, peerIP = [], connection = None, commands = [CmdNew serverPort],
      attempts = 0, probeLeaks = 0\<rparr>"


section \<open>The static operations\<close>

definition setIP :: "string \<Rightarrow> P2PCServer \<Rightarrow> P2PCServer" where
  "setIP ip g = g\<lparr>selfIP := ip\<rparr>"

definition getIP :: "P2PCServer \<Rightarrow> string" where
  "getIP g = selfIP g"

definition insertNeiIP :: "string \<Rightarrow> int \<Rightarrow> P2PCServer \<Rightarrow> P2PCServer" where
  "insertNeiIP ip file g =
     (let file = (if file = 1 then 101 else file) in g\<lparr>neiIP := om_put ip file (neiIP g)\<rparr>)"

definition insertNeiIP_default :: "string \<Rightarrow> P2PCServer \<Rightarrow> P2PCServer" where
  "insertNeiIP_default ip g = insertNeiIP ip 101 g"

definition removeNeiIP :: "string \<Rightarrow> P2PCServer \<Rightarrow> P2PCServer" where
  "removeNeiIP ip g = g\<lparr>neiIP := om_erase ip (neiIP g)\<rparr>"

fun find_newer :: "int \<Rightarrow> (string \<times> int) list \<Rightarrow> string" where
  "find_newer level [] = ''1111''"
| "find_newer level ((ip, f) # m) = (if f > level \<and> ip \<noteq> ''1111'' then ip else find_newer level m)"

definition findNeiIP :: "int \<Rightarrow> P2PCServer \<Rightarrow> string" where
  "findNeiIP level g = find_newer level (neiIP g)"

definition getFile :: "P2PCServer \<Rightarrow> int" where
  "getFile g = updateFile g"

definition processUpdateFile :: "int \<Rightarrow> P2PCServer \<Rightarrow> int \<times> P2PCServer" where
  "processUpdateFile level g =
     (if level > updateFile g then (1, g\<lparr>updateFile := updateFile g + 1\<rparr>) else (0, g))"


section \<open>The serving side\<close>

definition P2PCServer_onStringMessage ::
  "(Buffer \<Rightarrow> 'c \<Rightarrow> 'c res) \<Rightarrow> P2PCServer \<times> 'c \<Rightarrow> string \<Rightarrow> (P2PCServer \<times> 'c) res"
where
  "P2PCServer_onStringMessage csend st message =
     (case st of (g, conn) \<Rightarrow>
      res_bind (str_at message 0) (\<lambda>type.
      res_bind (str_at message 1) (\<lambda>id.
      res_bind (str_substr message 2 4) (\<lambda>ip.
      res_bind (str_at message 6) (\<lambda>reqfile.
      let g = insertNeiIP ip (schar reqfile) g;
          localfile = getFile g;
          ret = ''d0'' @ getIP g @ [to_char localfile] in
      res_bind (codec_send csend (StringPiece_of_string ret) conn) (\<lambda>conn.
      Inr (g, conn)))))))"


section \<open>The client\<close>

definition port_of :: "string \<Rightarrow> 16 word" where
  "port_of ip = word_of_int (atoi ip)"

definition changeServer :: "probes \<Rightarrow> 16 word \<Rightarrow> 'c P2PClient \<Rightarrow> bool \<times> 'c P2PClient" where
  "changeServer reach newAddr p =
     (let cmds = commands p @ (if connection p \<noteq> None then [CmdDisconnect] else []) @ [CmdStop];
          ok = reach (attempts p) newAddr;
          p = p\<lparr>commands := cmds, cstate := kConnecting, attempts := Suc (attempts p)\<rparr>
      in if \<not> ok then (False, p\<lparr>probeLeaks := Suc (probeLeaks p)\<rparr>)
         else (True, p\<lparr>commands := commands p @ [CmdDelete, CmdNew newAddr, CmdConnect]\<rparr>))"

definition write_client :: "(Buffer \<Rightarrow> 'c \<Rightarrow> 'c res) \<Rightarrow> string \<Rightarrow> 'c P2PClient \<Rightarrow> 'c P2PClient res" where
  "write_client csend message p =
     (case connection p of
        Some conn \<Rightarrow>
          res_bind (codec_send csend (StringPiece_of_string message) conn) (\<lambda>conn.
          Inr (p\<lparr>connection := Some conn\<rparr>))
      | None \<Rightarrow> Inr p)"

text \<open>
  The two search loops. \<open>None\<close> is a loop that never ends: each calls \<^verbatim>\<open>changeServer\<close> until an attempt
  succeeds.
\<close>

partial_function (option) search_next :: "probes \<Rightarrow> int \<Rightarrow> 'c peer \<Rightarrow> 'c peer option" where
  [code]: "search_next reach level st =
     (case st of (g, p) \<Rightarrow>
      let ip = findNeiIP level g;
          (ok, p) = changeServer reach (port_of ip) (p\<lparr>peerIP := ip\<rparr>)
      in if ok then Some (g, p) else search_next reach level (removeNeiIP (peerIP p) g, p))"

partial_function (option) reconnect :: "probes \<Rightarrow> 'c peer \<Rightarrow> 'c peer option" where
  [code]: "reconnect reach st =
     (case st of (g, p) \<Rightarrow>
      let g = removeNeiIP (peerIP p) g;
          ip = findNeiIP (getFile g) g;
          (ok, p) = changeServer reach (port_of ip) (p\<lparr>peerIP := ip\<rparr>)
      in if ok then Some (g, p) else reconnect reach (g, p))"

fun nei_loop :: "string \<Rightarrow> nat \<Rightarrow> nat \<Rightarrow> P2PCServer \<Rightarrow> P2PCServer res" where
  "nei_loop message i 0 g = Inr g"
| "nei_loop message i (Suc n) g =
     res_bind (str_substr message (3 + i * 5) 4) (\<lambda>ip.
     res_bind (str_at message (7 + i * 5)) (\<lambda>f.
     nei_loop message (Suc i) n (insertNeiIP ip (schar f) g)))"

definition client_processMessage :: "string \<Rightarrow> P2PCServer \<Rightarrow> (int \<times> P2PCServer) res" where
  "client_processMessage message g =
     res_bind (str_at message 0) (\<lambda>type.
     res_bind (str_at message 1) (\<lambda>id.
     if type = CHR ''b'' then
       res_bind (str_at message 2) (\<lambda>num.
       res_bind (nei_loop message 0 (nat (schar num)) g) (\<lambda>g.
       Inr (0, g)))
     else if type = CHR ''d'' then
       res_bind (str_substr message 2 4) (\<lambda>ip.
       res_bind (str_at message 6) (\<lambda>level.
       case processUpdateFile (schar level) (insertNeiIP ip (schar level) g) of (r, g) \<Rightarrow>
       Inr (if r \<noteq> 0 then 1 else 0, g)))
     else Inr (-1, g)))"

text \<open>The callbacks: \<open>None\<close> when a search loop does not end.\<close>

definition P2PClient_onStringMessage ::
  "probes \<Rightarrow> (Buffer \<Rightarrow> 'c \<Rightarrow> 'c res) \<Rightarrow> 'c peer \<Rightarrow> string \<Rightarrow> 'c peer res option"
where
  "P2PClient_onStringMessage reach csend st message =
     (case st of (g, p) \<Rightarrow>
      case client_processMessage message g of
        Inl e \<Rightarrow> Some (Inl e)
      | Inr (r, g) \<Rightarrow>
          let upfile = getFile g in
          if upfile < 100 then
            let mes = ''c0'' @ getIP g @ [to_char upfile] in
            if r \<noteq> 0 then Some (res_bind (write_client csend mes p) (\<lambda>p. Inr (g, p)))
            else map_option Inr (search_next reach upfile (g, p))
          else Some (Inr (g, p)))"

definition P2PClient_onConnection ::
  "probes \<Rightarrow> (Buffer \<Rightarrow> 'c \<Rightarrow> 'c res) \<Rightarrow> 'c peer \<Rightarrow> 'c \<Rightarrow> bool \<Rightarrow> 'c peer res option"
where
  "P2PClient_onConnection reach csend st conn connected =
     (case st of (g, p) \<Rightarrow>
      if connected then
        let p = p\<lparr>cstate := kConnected, connection := Some conn\<rparr> in
        if isFirst p \<noteq> 0 then
          let mes = ''a0'' @ getIP g @ [to_char 1] in
          Some (res_bind (write_client csend mes (p\<lparr>isFirst := 0\<rparr>)) (\<lambda>p. Inr (g, p)))
        else
          let mes = ''c0'' @ getIP g @ [to_char (getFile g)] in
          Some (res_bind (write_client csend mes p) (\<lambda>p. Inr (g, p)))
      else
        let p = p\<lparr>connection := None\<rparr> in
        if cstate p = kConnected then map_option Inr (reconnect reach (g, p))
        else Some (Inr (g, p)))"


section \<open>Neighbours\<close>

definition peer_inv :: "P2PCServer \<Rightarrow> bool" where
  [inv_simps]: "peer_inv g \<longleftrightarrow> om_wf (neiIP g) \<and> 1 \<le> updateFile g \<and> updateFile g < 128 \<and> length (selfIP g) = 4"

text \<open>The file number a neighbour is remembered with: \<open>1\<close> counts as \<open>101\<close>.\<close>

definition known_file :: "int \<Rightarrow> int" where
  "known_file f = (if f = 1 then 101 else f)"

lemma insertNeiIP_simps [simp]:
  "neiIP (insertNeiIP ip f g) = om_put ip (known_file f) (neiIP g)"
  "updateFile (insertNeiIP ip f g) = updateFile g" "selfIP (insertNeiIP ip f g) = selfIP g"
  by (simp_all add: insertNeiIP_def known_file_def)

lemma removeNeiIP_simps [simp]:
  "neiIP (removeNeiIP ip g) = om_erase ip (neiIP g)"
  "updateFile (removeNeiIP ip g) = updateFile g" "selfIP (removeNeiIP ip g) = selfIP g"
  by (simp_all add: removeNeiIP_def)

lemma peer_inv_insert: "peer_inv g \<Longrightarrow> peer_inv (insertNeiIP ip f g)"
  by (simp add: peer_inv_def om.put_wf)

lemma peer_inv_remove: "peer_inv g \<Longrightarrow> peer_inv (removeNeiIP ip g)"
  by (simp add: peer_inv_def om.erase_wf)

text \<open>The neighbours a peer may turn to at a file level.\<close>

definition newer :: "int \<Rightarrow> (string \<times> int) list \<Rightarrow> string set" where
  "newer level m = {ip. ip \<noteq> ''1111'' \<and> (\<exists>f. (ip, f) \<in> set m \<and> level < f)}"

lemma finite_newer: "finite (newer level m)"
  by (rule finite_subset [of _ "fst ` set m"]) (force simp: newer_def)+

lemma newer_Cons: "newer level ((ip, f) # m) = (if f > level \<and> ip \<noteq> ''1111'' then insert ip (newer level m) else newer level m)"
  by (auto simp: newer_def)

lemma find_newer_none: "newer level m = {} \<Longrightarrow> find_newer level m = ''1111''"
  by (induction m) (auto simp: newer_Cons split: if_splits)

lemma find_newer_min: "om_wf m \<Longrightarrow> newer level m \<noteq> {} \<Longrightarrow> find_newer level m = Min (newer level m)"
proof (induction m)
  case (Cons e m)
  obtain ip f where e: "e = (ip, f)" by (cases e)
  have lt: "ip < k" if "k \<in> newer level m" for k
    using Cons.prems(1) that by (fastforce simp: om_wf_def newer_def e)
  show ?case
  proof (cases "f > level \<and> ip \<noteq> ''1111''")
    case True
    have "Min (insert ip (newer level m)) = ip"
      using lt finite_newer by (intro Min_eqI) (auto intro: less_imp_le)
    with True show ?thesis by (simp add: e newer_Cons)
  next
    case False
    with Cons have "find_newer level m = Min (newer level m)" by (auto simp: e newer_Cons om_wf_def)
    with False show ?thesis by (auto simp: e newer_Cons)
  qed
qed (simp add: newer_def)

lemma find_newer_mem: "find_newer level m \<noteq> ''1111'' \<Longrightarrow> find_newer level m \<in> fst ` set m"
  by (induction level m rule: find_newer.induct) (auto split: if_splits)


section \<open>The search for a peer\<close>

lemma changeServer_simps:
  assumes "changeServer reach a p = (ok, p')"
  shows "ok = reach (attempts p) a" and "attempts p' = Suc (attempts p)" and "cstate p' = kConnecting"
    and "peerIP p' = peerIP p" and "connection p' = connection p" and "isFirst p' = isFirst p"
    and "ok \<Longrightarrow> \<exists>cs. commands p' = cs @ [CmdStop, CmdDelete, CmdNew a, CmdConnect]"
    and "probeLeaks p' = (if ok then probeLeaks p else Suc (probeLeaks p))"
  using assms by (auto simp: changeServer_def Let_def split: if_splits)

lemma search_step:
  "search_next reach level (g, p) =
     (case changeServer reach (port_of (findNeiIP level g)) (p\<lparr>peerIP := findNeiIP level g\<rparr>) of
        (ok, p') \<Rightarrow> if ok then Some (g, p')
                   else search_next reach level (removeNeiIP (findNeiIP level g) g, p'))"
proof -
  obtain ok p' where c: "changeServer reach (port_of (findNeiIP level g)) (p\<lparr>peerIP := findNeiIP level g\<rparr>) = (ok, p')"
    by fastforce
  have "peerIP p' = findNeiIP level g" using changeServer_simps(4) [OF c] by simp
  with c show ?thesis by (subst search_next.simps) (simp add: Let_def)
qed

lemma search_terminates:
  assumes "\<forall>t \<ge> attempts p. reach t (port_of ''1111'')"
  shows "\<exists>g' p'. search_next reach level (g, p) = Some (g', p') \<and> attempts p' \<le> attempts p + length (neiIP g) + 1"
  using assms
proof (induction "length (neiIP g)" arbitrary: g p rule: less_induct)
  case less
  let ?ip = "findNeiIP level g"
  obtain ok p' where c: "changeServer reach (port_of ?ip) (p\<lparr>peerIP := ?ip\<rparr>) = (ok, p')" by fastforce
  note c' = changeServer_simps [OF c]
  show ?case
  proof (cases ok)
    case True
    with c c'(2) show ?thesis by (simp add: search_step)
  next
    case False
    then have "?ip \<noteq> ''1111''" using c'(1) less.prems by auto
    then have "?ip \<in> fst ` set (neiIP g)" using find_newer_mem by (simp add: findNeiIP_def)
    then have "length (neiIP (removeNeiIP ?ip g)) < length (neiIP g)"
      unfolding removeNeiIP_simps om_erase_def by (auto intro: length_filter_less)
    from less.hyps [OF this, of p'] less.prems c'(2) False c this show ?thesis
      by (auto simp: search_step [of reach level g p])
  qed
qed

text \<open>What a search leaves: it has only dropped neighbours, and the last attempt went to the best of the rest.\<close>

lemma search_result:
  assumes "search_next reach level st = Some st'"
  shows "case (st, st') of ((g, p), (g', p')) \<Rightarrow>
     set (neiIP g') \<subseteq> set (neiIP g) \<and> updateFile g' = updateFile g \<and> selfIP g' = selfIP g \<and>
     (om_wf (neiIP g) \<longrightarrow> om_wf (neiIP g')) \<and> connection p' = connection p \<and> isFirst p' = isFirst p \<and>
     attempts p < attempts p' \<and> reach (attempts p' - 1) (port_of (peerIP p')) \<and>
     peerIP p' = findNeiIP level g' \<and> cstate p' = kConnecting \<and>
     (\<exists>cs. commands p' = cs @ [CmdStop, CmdDelete, CmdNew (port_of (peerIP p')), CmdConnect]) \<and>
     probeLeaks p' + attempts p + 1 = probeLeaks p + attempts p'"
  using assms
proof (induction rule: search_next.raw_induct [rotated, consumes 1, case_names 1])
  case (1 search reach level st st')
  obtain g p where st: "st = (g, p)" by (cases st)
  let ?ip = "findNeiIP level g"
  obtain ok p1 where c: "changeServer reach (port_of ?ip) (p\<lparr>peerIP := ?ip\<rparr>) = (ok, p1)" by fastforce
  note c' = changeServer_simps [OF c]
  obtain g' p' where st': "st' = (g', p')" by (cases st')
  show ?case
  proof (cases ok)
    case True
    with 1(2) c c' show ?thesis by (auto simp: st st' Let_def)
  next
    case False
    with 1(2) c c'(4) have "search reach level (removeNeiIP ?ip g, p1) = Some st'"
      by (simp add: st Let_def)
    from 1(1) [OF this] show ?thesis
      using c' False by (auto simp: st st' om.erase_wf) (auto simp: om_erase_def)
  qed
qed

lemma search_diverges:
  assumes "search_next reach level st = Some st'"
  shows "\<exists>t \<ge> attempts (snd st). \<exists>a. reach t a"
proof -
  obtain g p g' p' where "st = (g, p)" "st' = (g', p')" by (cases st; cases st')
  with search_result [OF assms] show ?thesis
    by (auto intro!: exI [of _ "attempts p' - 1"])
qed

lemma reconnect_search:
  "reconnect reach (g, p) = search_next reach (updateFile g) (removeNeiIP (peerIP p) g, p)"
proof -
  have one: "reconnect reach st = Some y \<Longrightarrow>
      search_next reach (updateFile (fst st)) (removeNeiIP (peerIP (snd st)) (fst st), snd st) = Some y" for st y
  proof (induction rule: reconnect.raw_induct [rotated, consumes 1, case_names 1])
    case (1 rec reach st y)
    obtain g p where st: "st = (g, p)" by (cases st)
    let ?g = "removeNeiIP (peerIP p) g" and ?l = "updateFile g"
    let ?ip = "findNeiIP ?l ?g"
    obtain ok p1 where c: "changeServer reach (port_of ?ip) (p\<lparr>peerIP := ?ip\<rparr>) = (ok, p1)" by fastforce
    have ip: "peerIP p1 = ?ip" using changeServer_simps(4) [OF c] by simp
    from 1(2) c have "(if ok then Some (?g, p1) else rec reach (?g, p1)) = Some y" by (simp add: st Let_def getFile_def)
    with 1(1) [of reach "(?g, p1)" y] c ip show ?case
      by (cases ok) (simp_all add: st search_step [of reach _ ?g p])
  qed
  have two: "search_next reach level st = Some y \<Longrightarrow>
      (\<And>g p. level = updateFile g \<Longrightarrow> st = (removeNeiIP (peerIP p) g, p) \<Longrightarrow> reconnect reach (g, p) = Some y)" for level st y
  proof (induction rule: search_next.raw_induct [rotated, consumes 1, case_names 1])
    case (1 search reach level st y)
    let ?g = "removeNeiIP (peerIP p) g"
    let ?ip = "findNeiIP level ?g"
    obtain ok p1 where c: "changeServer reach (port_of ?ip) (p\<lparr>peerIP := ?ip\<rparr>) = (ok, p1)" by fastforce
    from 1(2) c have s: "(if ok then Some (?g, p1) else search reach level (removeNeiIP (peerIP p1) ?g, p1)) = Some y"
      by (simp add: 1(4) Let_def)
    have "reconnect reach (g, p) = (if ok then Some (?g, p1) else reconnect reach (?g, p1))"
      using c 1(3) by (subst reconnect.simps) (simp add: Let_def getFile_def)
    with s 1(1) [of reach level "(removeNeiIP (peerIP p1) ?g, p1)" y ?g p1] 1(3) show ?case by (cases ok) simp_all
  qed
  show ?thesis
    using one [of "(g, p)"] two [of "updateFile g" "(removeNeiIP (peerIP p) g, p)"]
    by (cases "reconnect reach (g, p)"; cases "search_next reach (updateFile g) (removeNeiIP (peerIP p) g, p)") auto
qed


section \<open>Messages\<close>

lemma nei_loop_spec:
  assumes "\<forall>e \<in> set es. length (fst e) = 4 \<and> -128 \<le> snd e \<and> snd e < 128" and "length pre = 3 + i * 5"
  shows "nei_loop (pre @ concat (map nei_entry es)) i (length es) g = Inr (fold (\<lambda>(ip, f). insertNeiIP ip f) es g)"
  using assms
proof (induction es arbitrary: pre i g)
  case (Cons e es)
  obtain ip f where e: "e = (ip, f)" by (cases e)
  have ip: "length ip = 4" "-128 \<le> f" "f < 128" using Cons.prems(1) by (auto simp: e)
  let ?m = "pre @ concat (map nei_entry (e # es))"
  have "str_substr ?m (3 + i * 5) 4 = Inr ip"
    using Cons.prems(2) ip by (simp add: str_substr_def e nei_entry_def)
  moreover have "str_at ?m (7 + i * 5) = Inr (to_char f)"
    using Cons.prems(2) ip by (simp add: str_at_def e nei_entry_def nth_append)
  moreover have "nei_loop ((pre @ nei_entry e) @ concat (map nei_entry es)) (Suc i) (length es) (insertNeiIP ip f g) =
      Inr (fold (\<lambda>(ip, f). insertNeiIP ip f) es (insertNeiIP ip f g))"
    using Cons.prems ip by (intro Cons.IH) (auto simp: e nei_entry_def)
  ultimately show ?case using ip by (simp add: e)
qed simp

lemma fold_insertNeiIP:
  "neiIP (fold (\<lambda>(ip, f). insertNeiIP ip f) es g) = fold (\<lambda>(k, v). om_put k v) (map (apsnd known_file) es) (neiIP g)"
  "updateFile (fold (\<lambda>(ip, f). insertNeiIP ip f) es g) = updateFile g"
  "selfIP (fold (\<lambda>(ip, f). insertNeiIP ip f) es g) = selfIP g"
  by (induction es arbitrary: g) auto

lemma process_b:
  assumes "\<forall>e \<in> set es. length (fst e) = 4 \<and> -128 \<le> snd e \<and> snd e < 128" and "length es < 128"
  shows "client_processMessage (''b0'' @ nei_reply es) g = Inr (0, fold (\<lambda>(ip, f). insertNeiIP ip f) es g)"
proof -
  have "''b0'' @ nei_reply es = (''b0'' @ [to_char (int (length es))]) @ concat (map nei_entry es)"
    by (simp add: nei_reply_def)
  moreover have "nei_loop ((''b0'' @ [to_char (int (length es))]) @ concat (map nei_entry es)) 0 (length es) g =
      Inr (fold (\<lambda>(ip, f). insertNeiIP ip f) es g)"
    using assms by (intro nei_loop_spec) auto
  ultimately show ?thesis
    using assms(2) by (simp add: client_processMessage_def str_at_def)
qed

text \<open>The answer of the directory server to a client that is alone has no file byte: the terminator is read.\<close>

lemma process_b_alone: "client_processMessage (''b0'' @ to_char 1 # ''1111'') g = Inr (0, insertNeiIP ''1111'' 0 g)"
  by (simp add: client_processMessage_def str_at_def str_substr_def numeral_eq_Suc)
    (simp add: schar_def)

lemma process_d:
  assumes "length ip = 4" and "-128 \<le> f" and "f < 128"
  shows "client_processMessage (''d0'' @ ip @ [to_char f]) g =
    Inr (if updateFile g < f then (1, (insertNeiIP ip f g)\<lparr>updateFile := updateFile g + 1\<rparr>)
         else (0, insertNeiIP ip f g))"
proof -
  let ?m = "''d0'' @ ip @ [to_char f]"
  have "str_at ?m 6 = Inr (to_char f)" "str_substr ?m 2 4 = Inr ip" "str_at ?m 0 = Inr CHR ''d''"
      "str_at ?m (Suc 0) = Inr CHR ''0''"
    using assms by (simp_all add: str_at_def str_substr_def nth_append)
  then show ?thesis
    using assms by (simp add: client_processMessage_def processUpdateFile_def)
qed

lemma nei_loop_keeps:
  "nei_loop m i n g = Inr g' \<Longrightarrow> peer_inv g \<Longrightarrow> peer_inv g' \<and> updateFile g' = updateFile g \<and> selfIP g' = selfIP g"
  by (induction m i n g rule: nei_loop.induct) (auto simp: res_bind_eq_Inr peer_inv_insert)

lemma processMessage_keeps:
  assumes "client_processMessage m g = Inr (r, g')" and "peer_inv g"
  shows "peer_inv g' \<and> updateFile g' \<in> {updateFile g, updateFile g + 1} \<and> selfIP g' = selfIP g"
proof -
  have up: "peer_inv ((insertNeiIP ip f g)\<lparr>updateFile := updateFile g + 1\<rparr>)" if "updateFile g < schar c" for ip f c
    using assms(2) that schar_bounds(2) [of c] by (simp add: peer_inv_def om.put_wf)
  obtain ty ident where ty: "str_at m 0 = Inr ty" "str_at m 1 = Inr ident"
    using assms(1) by (auto simp: client_processMessage_def res_bind_eq_Inr)
  consider "ty = CHR ''b''" | "ty = CHR ''d''" | "ty \<noteq> CHR ''b''" "ty \<noteq> CHR ''d''" by blast
  then show ?thesis
  proof cases
    case 1
    then obtain num where "nei_loop m 0 (nat (schar num)) g = Inr g'"
      using assms(1) ty by (auto simp: client_processMessage_def res_bind_eq_Inr)
    with nei_loop_keeps assms(2) show ?thesis by blast
  next
    case 2
    obtain ip c where ic: "str_substr m 2 4 = Inr ip" "str_at m 6 = Inr c"
      using assms(1) ty 2 by (auto simp: client_processMessage_def res_bind_eq_Inr)
    obtain r0 g0 where pu: "processUpdateFile (schar c) (insertNeiIP ip (schar c) g) = (r0, g0)" by fastforce
    have "g' = g0" using assms(1) ty 2 ic pu by (simp add: client_processMessage_def)
    with pu have "processUpdateFile (schar c) (insertNeiIP ip (schar c) g) = (r0, g')" by simp
    with up [of c ip "schar c"] peer_inv_insert [OF assms(2)] show ?thesis
      by (auto simp: processUpdateFile_def split: if_splits)
  next
    case 3
    with assms ty show ?thesis by (simp add: client_processMessage_def)
  qed
qed

text \<open>A list of messages handled one after another.\<close>

fun handle_all :: "('s \<Rightarrow> string \<Rightarrow> 's res option) \<Rightarrow> string list \<Rightarrow> 's \<Rightarrow> 's res option" where
  "handle_all h [] st = Some (Inr st)"
| "handle_all h (m # ms) st =
     (case h st m of
        None \<Rightarrow> None
      | Some (Inl e) \<Rightarrow> Some (Inl e)
      | Some (Inr st) \<Rightarrow> handle_all h ms st)"


section \<open>The handler contract of the serving side\<close>

definition peer_conn_inv :: "('c \<Rightarrow> bool) \<Rightarrow> P2PCServer \<times> 'c \<Rightarrow> bool" where
  "peer_conn_inv conn_inv st \<longleftrightarrow> peer_inv (fst st) \<and> conn_inv (snd st)"

lemma serving_callback:
  assumes "6 \<le> length m"
  shows "P2PCServer_onStringMessage csend (g, k) m =
    res_bind (codec_send csend (StringPiece_of_string (''d0'' @ selfIP g @ [to_char (updateFile g)])) k)
      (\<lambda>k. Inr (insertNeiIP (message_ip m) (message_file m) g, k))"
proof -
  obtain ch where "str_at m 6 = Inr ch" "schar ch = message_file m" using str_at_6 [OF assms] by blast
  moreover have "str_at m 0 = Inr (m ! 0)" "str_at m (Suc 0) = Inr (m ! 1)" "str_substr m 2 4 = Inr (message_ip m)"
    using assms by (auto simp: str_at_def str_substr_def message_ip_def)
  ultimately show ?thesis
    by (simp add: P2PCServer_onStringMessage_def getIP_def getFile_def)
qed

lemma serving_accepts: "P2PCServer_onStringMessage csend (g, k) m = Inr st' \<Longrightarrow> 6 \<le> length m"
  by (auto simp: P2PCServer_onStringMessage_def res_bind_eq_Inr str_at_def str_substr_def split: if_splits)

sublocale codec_connection \<subseteq> p2p_serving: message_handler
  "P2PCServer_onStringMessage csend" "on_conn sd" "peer_conn_inv conn_inv"
  "\<lambda>st m. 6 \<le> length m" "\<lambda>st. conn_room (snd st)" 11
proof
  fix st st' :: "P2PCServer \<times> 'c" and m :: string
  assume inv: "peer_conn_inv conn_inv st"
  obtain g k where st: "st = (g, k)" by (cases st)
  have i: "peer_inv g" "conn_inv k" using inv by (simp_all add: st peer_conn_inv_def)
  let ?reply = "''d0'' @ selfIP g @ [to_char (updateFile g)]"
  have len: "length ?reply = 7" using i(1) by (simp add: peer_inv_def)
  { assume "P2PCServer_onStringMessage csend st m = Inr st'"
    then show "6 \<le> length m" using serving_accepts by (simp add: st) }
  { show "\<exists>st'. on_conn sd st = Inr st' \<and> peer_conn_inv conn_inv st'"
      using i shutdown_law [OF i(2)] by (auto simp: st on_conn_def peer_conn_inv_def) }
  { assume m: "6 \<le> length m" and room: "11 \<le> conn_room (snd st)"
    then obtain k1 where "codec_send csend (StringPiece_of_string ?reply) k = Inr k1" "conn_inv k1"
        "conn_room k \<le> conn_room k1 + 11"
      using codec_send_law [OF i(2), of ?reply] len by (auto simp: st)
    then show "\<exists>st'. P2PCServer_onStringMessage csend st m = Inr st' \<and> peer_conn_inv conn_inv st' \<and>
        conn_room (snd st) \<le> conn_room (snd st') + 11 \<and> (\<forall>m' :: string. 6 \<le> length m' \<longrightarrow> 6 \<le> length m')"
      using i(1) unfolding st serving_callback [OF m] by (auto simp: peer_conn_inv_def peer_inv_insert) }
qed


text \<open>What a message does to the level.\<close>

lemma client_message_keeps:
  assumes "P2PClient_onStringMessage reach csend (g, p) m = Some (Inr (g', p'))" and "peer_inv g"
  shows "peer_inv g' \<and> updateFile g \<le> updateFile g' \<and> updateFile g' \<le> updateFile g + 1"
proof -
  obtain r g1 where r: "client_processMessage m g = Inr (r, g1)"
    using assms(1) by (auto simp: P2PClient_onStringMessage_def split: sum.splits)
  note k = processMessage_keeps [OF r assms(2)]
  show ?thesis
  proof (cases "getFile g1 < 100 \<and> r = 0")
    case True
    then have "search_next reach (getFile g1) (g1, p) = Some (g', p')"
      using assms(1) r by (auto simp: P2PClient_onStringMessage_def Let_def)
    from search_result [OF this] k show ?thesis by (auto simp: peer_inv_def)
  next
    case False
    then have "g' = g1"
      using assms(1) r by (auto simp: P2PClient_onStringMessage_def Let_def res_bind_eq_Inr split: if_splits)
    with k show ?thesis by auto
  qed
qed


section \<open>Properties\<close>

text \<open>
  C32. The neighbour list of the directory server is read back exactly: from \<open>"b0"\<close>, the count and the
  entries \<open>es\<close>, \<open>processMessage\<close> learns the addresses and file numbers of \<open>es\<close>, each in place of what
  was known before (a file number of 1 counting as 101), and nothing else changes.
\<close>

theorem neighbour_list_received:
  assumes "om_wf (neiIP g)" and "length es < 128"
    and "\<forall>e \<in> set es. length (fst e) = 4 \<and> -128 \<le> snd e \<and> snd e < 128"
  shows "\<exists>g'. client_processMessage (''b0'' @ nei_reply es) g = Inr (0, g') \<and>
           map_of (neiIP g') = map_of (neiIP g) ++ map_of (rev (map (apsnd known_file) es)) \<and>
           om_wf (neiIP g') \<and> updateFile g' = updateFile g \<and> selfIP g' = selfIP g"
  using process_b [OF assms(3,2), of g] om.put_all_look [OF assms(1), of "map (apsnd known_file) es"]
  by (simp add: fold_insertNeiIP)

theorem neighbour_list_received_witness:
  "\<exists>g'. client_processMessage (''b0'' @ nei_reply [(''1112'', 7), (''1113'', 1)]) init_P2PCServer = Inr (0, g') \<and>
        map_of (neiIP g') = [''1112'' \<mapsto> 7, ''1113'' \<mapsto> 101] \<and> updateFile g' = 1"
  using neighbour_list_received [of init_P2PCServer "[(''1112'', 7), (''1113'', 1)]"]
  by (auto simp: init_P2PCServer_def om_wf_def known_file_def fun_upd_twist)

text \<open>
  \<open>findNeiIP\<close> returns the smallest address among the neighbours with a newer file, the server's own
  \<open>"1111"\<close> never counting as one, and \<open>"1111"\<close> when there is none.
\<close>

theorem findNeiIP_least:
  assumes "om_wf (neiIP g)"
  shows "findNeiIP level g = (if newer level (neiIP g) = {} then ''1111'' else Min (newer level (neiIP g)))"
  using find_newer_min [OF assms] find_newer_none by (simp add: findNeiIP_def)

theorem findNeiIP_least_witness:
  "findNeiIP 5 \<lparr>neiIP = [(''1112'', 3), (''1113'', 9)], updateFile = 5, selfIP = ''1114''\<rparr> =
     (if newer 5 [(''1112'', 3), (''1113'', 9)] = {} then ''1111'' else Min (newer 5 [(''1112'', 3), (''1113'', 9)]))"
  using findNeiIP_least [of "\<lparr>neiIP = [(''1112'', 3), (''1113'', 9)], updateFile = 5, selfIP = ''1114''\<rparr>" 5]
  by (simp add: om_wf_def)



text \<open>
  When nothing can be reached any more, neither search loop ever returns: the callback keeps the event
  loop's thread for itself.
\<close>

theorem search_never_returns:
  assumes "\<forall>t \<ge> attempts p. \<forall>a. \<not> reach t a"
  shows "search_next reach level (g, p) = None \<and> reconnect reach (g, p) = None"
proof -
  have "search_next reach l (h, p) = None" for l h
  proof (cases "search_next reach l (h, p)")
    case (Some st')
    from search_diverges [OF this] assms show ?thesis by auto
  qed
  then show ?thesis by (simp add: reconnect_search)
qed

theorem search_never_returns_witness:
  "reconnect (\<lambda>t a. False) (init_P2PCServer, new_P2PClient kConnected 1111 :: nat P2PClient) = None"
  using search_never_returns [of "new_P2PClient kConnected 1111 :: nat P2PClient" "\<lambda>t a. False" 1 init_P2PCServer]
  by simp

text \<open>
  No message lowers the file level of a peer or raises it by more than one, and the peer's state stays
  well-formed: neighbours in key order, a level between 1 and 127.
\<close>

theorem client_level_monotone:
  assumes "P2PClient_onStringMessage reach csend (g, p) m = Some (Inr (g', p'))" and "peer_inv g"
  shows "peer_inv g' \<and> updateFile g \<le> updateFile g' \<and> updateFile g' \<le> updateFile g + 1"
  by (rule client_message_keeps [OF assms])

theorem client_level_monotone_witness:
  "peer_inv \<lparr>neiIP = [(''1111'', 100)], updateFile = 100, selfIP = ''1112''\<rparr>"
proof -
  let ?g = "\<lparr>neiIP = [(''1111'', 100)], updateFile = 99, selfIP = ''1112''\<rparr>"
  let ?g' = "\<lparr>neiIP = [(''1111'', 100)], updateFile = 100, selfIP = ''1112''\<rparr>"
  let ?p = "new_P2PClient kConnected 1111 :: nat P2PClient"
  have "client_processMessage (''d0'' @ ''1111'' @ [to_char 100]) ?g = Inr (1, ?g')"
    by (subst process_d) (simp_all add: insertNeiIP_def)
  then have "P2PClient_onStringMessage (\<lambda>t a. True) (\<lambda>b k. Inr k) (?g, ?p) (''d0'' @ ''1111'' @ [to_char 100]) =
      Some (Inr (?g', ?p))"
    by (simp add: P2PClient_onStringMessage_def getFile_def)
  from client_level_monotone [OF this] show ?thesis by (simp add: peer_inv_def om_wf_def)
qed

text \<open>
  C26. Downloading from the directory server: each of its answers raises the level of a connected peer by
  one and makes it ask for the next part, until level 100, where it asks no more. After \<open>n\<close> answers a peer
  that was at level \<open>u\<close> is at \<open>u + n\<close> and has sent the requests for \<open>u + 1\<close> up to, but not including, 100.
\<close>

theorem download_completes:
  assumes "peer_inv g" and "connection p = Some k" and "updateFile g + int n \<le> 100"
  shows "\<exists>g' p'. handle_all (P2PClient_onStringMessage reach (\<lambda>b k. Inr (k @ [content b])))
             (replicate n (''d01111'' @ [to_char 100])) (g, p) = Some (Inr (g', p')) \<and>
           updateFile g' = updateFile g + int n \<and> attempts p' = attempts p \<and>
           connection p' = Some (k @ map (\<lambda>i. encode (''c0'' @ selfIP g @ [to_char i]))
                                   [updateFile g + 1 .. min 99 (updateFile g + int n)])"
  using assms
proof (induction n arbitrary: g p k)
  case (Suc n)
  let ?csend = "\<lambda>b k. Inr (k @ [content b])"
  let ?g1 = "(insertNeiIP ''1111'' 100 g)\<lparr>updateFile := updateFile g + 1\<rparr>"
  let ?req = "''c0'' @ selfIP g @ [to_char (updateFile g + 1)]"
  have pm: "client_processMessage (''d01111'' @ [to_char 100]) g = Inr (1, ?g1)"
    using process_d [of "''1111''" 100 g] Suc.prems(3) by simp
  have inv1: "peer_inv ?g1"
    using processMessage_keeps [OF pm Suc.prems(1)] by simp
  have len: "length ?req = 7" using Suc.prems(1) by (simp add: peer_inv_def)
  have send: "codec_send ?csend (StringPiece_of_string ?req) k = Inr (k @ [encode ?req])"
    using codec_send_spec [of ?req ?csend] len by auto
  show ?case
  proof (cases "updateFile g + 1 < 100")
    case True
    let ?p1 = "p\<lparr>connection := Some (k @ [encode ?req])\<rparr>"
    have step: "P2PClient_onStringMessage reach ?csend (g, p) (''d01111'' @ [to_char 100]) = Some (Inr (?g1, ?p1))"
      using pm True send Suc.prems(2)
      by (simp add: P2PClient_onStringMessage_def getFile_def getIP_def write_client_def Let_def)
    have range: "[updateFile g + 1 .. min 99 (updateFile g + int (Suc n))] =
        (updateFile g + 1) # [updateFile g + 2 .. min 99 (updateFile g + int (Suc n))]"
      using True by (subst upto.simps) (simp add: add.assoc)
    from Suc.IH [OF inv1, of ?p1 "k @ [encode ?req]"] Suc.prems(3) show ?thesis
      unfolding range replicate_Suc handle_all.simps step by (simp add: algebra_simps)
  next
    case False
    then have n: "n = 0" "updateFile g = 99" using Suc.prems(3) by auto
    have step: "P2PClient_onStringMessage reach ?csend (g, p) (''d01111'' @ [to_char 100]) = Some (Inr (?g1, p))"
      using pm n by (simp add: P2PClient_onStringMessage_def getFile_def)
    show ?thesis unfolding replicate_Suc handle_all.simps step using n Suc.prems(2) by simp
  qed
qed simp

theorem download_completes_witness:
  "\<exists>g' p'. handle_all (P2PClient_onStringMessage (\<lambda>t a. True) (\<lambda>b k. Inr (k @ [content b])))
     (replicate 99 (''d01111'' @ [to_char 100]))
     (setIP ''1112'' init_P2PCServer, (new_P2PClient kConnected 1111)\<lparr>connection := Some []\<rparr>) = Some (Inr (g', p')) \<and>
     updateFile g' = 100"
proof -
  let ?g = "setIP ''1112'' init_P2PCServer"
  let ?p = "(new_P2PClient kConnected 1111)\<lparr>connection := Some []\<rparr>"
  have inv: "peer_inv ?g" by (simp add: peer_inv_def setIP_def init_P2PCServer_def om_wf_def)
  have conn: "connection ?p = Some []" by simp
  have level: "updateFile ?g + int 99 = 100" by (simp add: setIP_def init_P2PCServer_def)
  obtain g' p' where h: "handle_all (P2PClient_onStringMessage (\<lambda>t a. True) (\<lambda>b k. Inr (k @ [content b])))
      (replicate 99 (''d01111'' @ [to_char 100])) (?g, ?p) = Some (Inr (g', p'))" "updateFile g' = updateFile ?g + int 99"
    using download_completes [OF inv conn eq_refl [OF level], of "\<lambda>t a. True"] by blast
  show ?thesis by (intro exI conjI) (rule h(1), rule trans [OF h(2) level])
qed

text \<open>
  A peer that has nothing yet looks complete to another such peer: its level 1 is remembered as 101.
  When the best neighbour answers a peer of level 1 with level 1, the peer makes no progress and turns to
  the very same neighbour again, as long as that neighbour is up.
\<close>

theorem fresh_peer_livelock:
  assumes "peer_inv g" and "updateFile g = 1" and "length ip = 4"
    and "map_of (neiIP g) ip = Some 101" and "findNeiIP 1 g = ip" and "\<forall>t. reach t (port_of ip)"
  shows "\<exists>g' p'. P2PClient_onStringMessage reach csend (g, p) (''d0'' @ ip @ [to_char 1]) = Some (Inr (g', p')) \<and>
           updateFile g' = 1 \<and> peerIP p' = ip \<and> map_of (neiIP g') = map_of (neiIP g) \<and> findNeiIP 1 g' = ip"
proof -
  have wf: "om_wf (neiIP g)" using assms(1) by (simp add: peer_inv_def)
  let ?g' = "insertNeiIP ip 1 g"
  have same: "map_of (neiIP ?g') = map_of (neiIP g)"
    using assms(4) by (simp add: om.put_look [OF wf] known_file_def map_upd_triv)
  have keys: "distinct (map fst m)" if "om_wf m" for m :: "(string \<times> int) list"
    using that unfolding om_wf_def by (simp add: strict_sorted_iff)
  have wf': "om_wf (neiIP ?g')" using wf by (simp add: om.put_wf)
  have "set (neiIP ?g') = set (neiIP g)"
    using same keys [OF wf] keys [OF wf'] by (metis map_of_inject_set)
  then have "newer 1 (neiIP ?g') = newer 1 (neiIP g)" by (simp only: newer_def)
  then have find: "findNeiIP 1 ?g' = ip"
    using find_newer_min [OF wf, of 1] find_newer_min [OF wf', of 1] find_newer_none [of 1 "neiIP g"]
      find_newer_none [of 1 "neiIP ?g'"] assms(5) unfolding findNeiIP_def by metis
  have "client_processMessage (''d0'' @ ip @ [to_char 1]) g = Inr (0, ?g')"
    using process_d [OF assms(3), of 1 g] assms(2) by simp
  moreover obtain ok p' where c: "changeServer reach (port_of ip) (p\<lparr>peerIP := ip\<rparr>) = (ok, p')" by fastforce
  moreover have "ok" "peerIP p' = ip" using changeServer_simps [OF c] assms(6) by auto
  ultimately show ?thesis
    using find same assms(2) by (simp add: P2PClient_onStringMessage_def getFile_def search_step)
qed

theorem fresh_peer_livelock_witness:
  "\<exists>g' p'. P2PClient_onStringMessage (\<lambda>t a. True) (\<lambda>b k. Inr k)
     (\<lparr>neiIP = [(''1112'', 101)], updateFile = 1, selfIP = ''1113''\<rparr>, new_P2PClient kConnected 1111 :: nat P2PClient)
     (''d0'' @ ''1112'' @ [to_char 1]) = Some (Inr (g', p')) \<and> updateFile g' = 1 \<and> peerIP p' = ''1112''"
  using fresh_peer_livelock [of "\<lparr>neiIP = [(''1112'', 101)], updateFile = 1, selfIP = ''1113''\<rparr>" "''1112''" "\<lambda>t a. True"
      "\<lambda>b k. Inr k" "new_P2PClient kConnected 1111 :: nat P2PClient"]
  by (fastforce simp: peer_inv_def om_wf_def findNeiIP_def)

text \<open>
  The loop of \<open>onConnection\<close>, which drops the lost peer first and looks for the next one under the level it
  reads anew in each round, and the loop of \<open>onStringMessage\<close>, which looks first and drops afterwards, are the same
  search: starting from the neighbours without the lost peer both make the same attempts, settle on the same
  neighbour with the same calls on the \<open>TcpClient\<close>, and one fails to return exactly when the other does.
\<close>

theorem search_loops_agree:
  "reconnect reach (g, p) = search_next reach (updateFile g) (removeNeiIP (peerIP p) g, p)"
  by (rule reconnect_search)

text \<open>
  The callback for a lost connection does not look which connection was lost. When an old connection goes down
  after its successor was established, the successor is forgotten, its peer is dropped from the neighbours and
  the client that owns it is stopped and deleted in favour of another one.
\<close>

theorem stale_close_drops_peer:
  assumes "cstate p = kConnected" and "\<forall>t \<ge> attempts p. reach t (port_of ''1111'')"
  shows "\<exists>g' p'. P2PClient_onConnection reach csend (g, p) old False = Some (Inr (g', p')) \<and>
           connection p' = None \<and> peerIP p \<notin> fst ` set (neiIP g') \<and> cstate p' = kConnecting \<and>
           (\<exists>cs. commands p' = cs @ [CmdStop, CmdDelete, CmdNew (port_of (peerIP p')), CmdConnect])"
proof -
  let ?p = "p\<lparr>connection := None\<rparr>"
  obtain g' p' where s: "search_next reach (updateFile g) (removeNeiIP (peerIP p) g, ?p) = Some (g', p')"
    using search_terminates [of ?p reach "updateFile g" "removeNeiIP (peerIP p) g"] assms(2) by auto
  have "P2PClient_onConnection reach csend (g, p) old False = Some (Inr (g', p'))"
    using s assms(1) by (simp add: P2PClient_onConnection_def reconnect_search)
  moreover have "peerIP p \<notin> fst ` set (neiIP (removeNeiIP (peerIP p) g))"
    by (auto simp: om_erase_def)
  ultimately show ?thesis using search_result [OF s] by (intro exI [of _ g'] exI [of _ p']) auto
qed

end
