(* ===== verification/Channel.thy ===== *)
theory Channel
  imports Prelude
begin

text \<open>
  \<^verbatim>\<open>base/inc/Channel.h\<close> and \<^verbatim>\<open>base/src/Channel.cpp\<close>: the interest of one descriptor in I/O events and the
  dispatch of the events that \<^verbatim>\<open>poll\<close> reported. Channels are objects that the poller, the event loop and
  their owners share, so they live in a store and are named by address; everything that owns a store
  extends the record \<open>chan_store\<close>. The state a callback acts on is such a store, since a callback may
  change its own channel.
\<close>

section \<open>Events\<close>

definition POLLIN :: int32 where "POLLIN = 1"
definition POLLPRI :: int32 where "POLLPRI = 2"
definition POLLOUT :: int32 where "POLLOUT = 4"
definition POLLERR :: int32 where "POLLERR = 8"
definition POLLHUP :: int32 where "POLLHUP = 16"
definition POLLNVAL :: int32 where "POLLNVAL = 32"
definition POLLRDHUP :: int32 where "POLLRDHUP = 0x2000"

lemmas poll_defs = POLLIN_def POLLPRI_def POLLOUT_def POLLERR_def POLLHUP_def POLLNVAL_def POLLRDHUP_def

definition kNoneEvent :: int32 where "kNoneEvent = 0"
definition kReadEvent :: int32 where "kReadEvent = POLLIN OR POLLPRI"
definition kWriteEvent :: int32 where "kWriteEvent = POLLOUT"

lemmas event_defs = kNoneEvent_def kReadEvent_def kWriteEvent_def poll_defs


section \<open>State\<close>

text \<open>The callbacks that are set; what they do is an argument of \<open>handleEvent\<close>.\<close>

datatype callback = ReadCB | WriteCB | CloseCB | ErrorCB

record Channel =
  ch_fd :: int
  events :: int32
  revents :: int32
  index :: int
  logHup :: bool
  tied :: bool
  eventHandling :: bool
  callbacks :: "callback set"

record chan_store =
  heap :: "nat \<rightharpoonup> Channel"

definition new_Channel :: "int \<Rightarrow> Channel" where
  "new_Channel fd = \<lparr>ch_fd = fd, events = 0, revents = 0, index = -1, logHup = True, tied = False,
     eventHandling = False, callbacks = {}\<rparr>"

definition modify_ch :: "nat \<Rightarrow> (Channel \<Rightarrow> Channel) \<Rightarrow> 'z chan_store_scheme \<Rightarrow> 'z chan_store_scheme res" where
  "modify_ch a f s =
     (case heap s a of Some ch \<Rightarrow> Inr (s\<lparr>heap := (heap s)(a \<mapsto> f ch)\<rparr>) | None \<Rightarrow> Inl UndefinedBehaviour)"

definition read_ch :: "nat \<Rightarrow> 'z chan_store_scheme \<Rightarrow> Channel res" where
  "read_ch a s = (case heap s a of Some ch \<Rightarrow> Inr ch | None \<Rightarrow> Inl UndefinedBehaviour)"


section \<open>Operations\<close>

definition destroy_Channel :: "nat \<Rightarrow> 'z chan_store_scheme \<Rightarrow> 'z chan_store_scheme res" where
  "destroy_Channel a s =
     res_bind (read_ch a s) (\<lambda>ch.
     cassert (\<not> eventHandling ch) (Inr (s\<lparr>heap := (heap s)(a := None)\<rparr>)))"

definition set_callback :: "callback \<Rightarrow> Channel \<Rightarrow> Channel" where
  "set_callback cb ch = ch\<lparr>callbacks := insert cb (callbacks ch)\<rparr>"

definition tie :: "Channel \<Rightarrow> Channel" where
  "tie ch = ch\<lparr>tied := True\<rparr>"

definition isNoneEvent :: "Channel \<Rightarrow> bool" where
  "isNoneEvent ch \<longleftrightarrow> events ch = kNoneEvent"

definition isWriting :: "Channel \<Rightarrow> bool" where
  "isWriting ch \<longleftrightarrow> events ch AND kWriteEvent \<noteq> 0"

text \<open>
  \<open>upd\<close> is \<^verbatim>\<open>EventLoop::updateChannel\<close> and \<open>rem\<close> is \<^verbatim>\<open>EventLoop::removeChannel\<close>, which the private
  \<^verbatim>\<open>update()\<close> and the public \<^verbatim>\<open>remove()\<close> call.
\<close>

type_synonym 's chan_op = "nat \<Rightarrow> 's \<Rightarrow> 's res"

definition set_events ::
  "'z chan_store_scheme chan_op \<Rightarrow> (int32 \<Rightarrow> int32) \<Rightarrow> 'z chan_store_scheme chan_op"
where
  "set_events upd f a s = res_bind (modify_ch a (\<lambda>ch. ch\<lparr>events := f (events ch)\<rparr>) s) (upd a)"

definition enableReading :: "'z chan_store_scheme chan_op \<Rightarrow> 'z chan_store_scheme chan_op" where
  "enableReading upd = set_events upd (\<lambda>e. e OR kReadEvent)"

definition enableWriting :: "'z chan_store_scheme chan_op \<Rightarrow> 'z chan_store_scheme chan_op" where
  "enableWriting upd = set_events upd (\<lambda>e. e OR kWriteEvent)"

definition disableWriting :: "'z chan_store_scheme chan_op \<Rightarrow> 'z chan_store_scheme chan_op" where
  "disableWriting upd = set_events upd (\<lambda>e. e AND NOT kWriteEvent)"

definition disableAll :: "'z chan_store_scheme chan_op \<Rightarrow> 'z chan_store_scheme chan_op" where
  "disableAll upd = set_events upd (\<lambda>e. kNoneEvent)"

definition remove_Channel :: "'z chan_store_scheme chan_op \<Rightarrow> 'z chan_store_scheme chan_op" where
  "remove_Channel rem a s = res_bind (read_ch a s) (\<lambda>ch. cassert (isNoneEvent ch) (rem a s))"


section \<open>Dispatch\<close>

definition has :: "int32 \<Rightarrow> int32 \<Rightarrow> bool" where
  "has r m \<longleftrightarrow> r AND m \<noteq> 0"

text \<open>\<open>run a cb\<close> is what the callback \<open>cb\<close> of the channel at \<open>a\<close> does.\<close>

definition call_if ::
  "(nat \<Rightarrow> callback \<Rightarrow> 'z chan_store_scheme \<Rightarrow> 'z chan_store_scheme res) \<Rightarrow> nat \<Rightarrow> callback \<Rightarrow> (int32 \<Rightarrow> bool) \<Rightarrow>
     'z chan_store_scheme \<Rightarrow> 'z chan_store_scheme res"
where
  "call_if run a cb p s =
     res_bind (read_ch a s) (\<lambda>ch.
     if p (revents ch) \<and> cb \<in> callbacks ch then run a cb s else Inr s)"

definition handleEventWithGuard ::
  "(nat \<Rightarrow> callback \<Rightarrow> 'z chan_store_scheme \<Rightarrow> 'z chan_store_scheme res) \<Rightarrow> 'z chan_store_scheme chan_op"
where
  "handleEventWithGuard run a s =
     res_bind (modify_ch a (\<lambda>ch. ch\<lparr>eventHandling := True\<rparr>) s) (\<lambda>s.
     res_bind (call_if run a CloseCB (\<lambda>r. has r POLLHUP \<and> \<not> has r POLLIN) s) (\<lambda>s.
     res_bind (call_if run a ErrorCB (\<lambda>r. has r (POLLERR OR POLLNVAL)) s) (\<lambda>s.
     res_bind (call_if run a ReadCB (\<lambda>r. has r (POLLIN OR POLLPRI OR POLLRDHUP)) s) (\<lambda>s.
     res_bind (call_if run a WriteCB (\<lambda>r. has r POLLOUT) s) (\<lambda>s.
     modify_ch a (\<lambda>ch. ch\<lparr>eventHandling := False\<rparr>) s)))))"

text \<open>\<open>alive\<close> says whether \<^verbatim>\<open>tie_.lock()\<close> still finds the owner of a tied channel.\<close>

definition handleEvent ::
  "(nat \<Rightarrow> callback \<Rightarrow> 'z chan_store_scheme \<Rightarrow> 'z chan_store_scheme res) \<Rightarrow> (nat \<Rightarrow> bool) \<Rightarrow> 'z chan_store_scheme chan_op"
where
  "handleEvent run alive a s =
     res_bind (read_ch a s) (\<lambda>ch.
     if tied ch then if alive a then handleEventWithGuard run a s else Inr s
     else handleEventWithGuard run a s)"

definition reventsToString :: "Channel \<Rightarrow> string" where
  "reventsToString ch =
     show_int (ch_fd ch) @ '': '' @
     (if has (revents ch) POLLIN then ''IN '' else []) @
     (if has (revents ch) POLLPRI then ''PRI '' else []) @
     (if has (revents ch) POLLOUT then ''OUT '' else []) @
     (if has (revents ch) POLLHUP then ''HUP '' else []) @
     (if has (revents ch) POLLRDHUP then ''RDHUP'' else []) @
     (if has (revents ch) POLLERR then ''ERR '' else []) @
     (if has (revents ch) POLLNVAL then ''NVAL '' else [])"


section \<open>Lemmas\<close>

lemma modify_ch_Some: "heap s a = Some ch \<Longrightarrow> modify_ch a f s = Inr (s\<lparr>heap := (heap s)(a \<mapsto> f ch)\<rparr>)"
  by (simp add: modify_ch_def)

lemma read_ch_Some: "heap s a = Some ch \<Longrightarrow> read_ch a s = Inr ch"
  by (simp add: read_ch_def)

lemmas ch_simps = modify_ch_Some read_ch_Some

lemma write_bit [simp]:
  "(e OR kWriteEvent) AND kWriteEvent \<noteq> 0" "(e AND NOT kWriteEvent) AND kWriteEvent = 0"
  "(e OR kReadEvent) AND kWriteEvent = e AND kWriteEvent"
proof -
  show "(e OR kWriteEvent) AND kWriteEvent \<noteq> 0"
    by (simp add: event_defs bit_eq_iff [of "_ AND _"])
  show "(e AND NOT kWriteEvent) AND kWriteEvent = 0"
    by (simp add: and.assoc)
  have "kReadEvent AND kWriteEvent = 0" by (simp add: event_defs)
  then show "(e OR kReadEvent) AND kWriteEvent = e AND kWriteEvent"
    by (simp add: bit.conj_disj_distrib2)
qed


text \<open>The callbacks an event set leads to, in the order of the code.\<close>

definition dispatch :: "int32 \<Rightarrow> callback set \<Rightarrow> callback list" where
  "dispatch r cbs = filter (\<lambda>cb. cb \<in> cbs)
     ((if has r POLLHUP \<and> \<not> has r POLLIN then [CloseCB] else []) @
      (if has r (POLLERR OR POLLNVAL) then [ErrorCB] else []) @
      (if has r (POLLIN OR POLLPRI OR POLLRDHUP) then [ReadCB] else []) @
      (if has r POLLOUT then [WriteCB] else []))"

text \<open>
  A callback of the channel at \<open>a\<close> does not destroy the channel or change what \<^verbatim>\<open>poll\<close> reported for it
  and which callbacks it has; it may change its interest.
\<close>

definition keeps_channel ::
  "(nat \<Rightarrow> callback \<Rightarrow> 'z chan_store_scheme \<Rightarrow> 'z chan_store_scheme res) \<Rightarrow> nat \<Rightarrow> bool"
where
  "keeps_channel run a \<longleftrightarrow>
     (\<forall>cb s s' ch. heap s a = Some ch \<longrightarrow> run a cb s = Inr s' \<longrightarrow>
        (\<exists>ch'. heap s' a = Some ch' \<and> revents ch' = revents ch \<and> callbacks ch' = callbacks ch))"

lemma call_if_fold:
  assumes "keeps_channel run a" and "heap s a = Some ch"
  shows "call_if run a cb p s = res_fold (run a) (if p (revents ch) \<and> cb \<in> callbacks ch then [cb] else []) s"
    and "call_if run a cb p s = Inr s' \<Longrightarrow>
           \<exists>ch'. heap s' a = Some ch' \<and> revents ch' = revents ch \<and> callbacks ch' = callbacks ch"
proof -
  have right: "res_bind m Inr = m" for m :: "'b res" by (cases m) auto
  have "res_fold (run a) [] = Inr" by (rule ext) simp
  then have if_res: "res_fold (run a) (if b then [cb] else []) s = (if b then run a cb s else Inr s)" for b
    by (simp add: right del: res_fold.simps(1))
  show "call_if run a cb p s = res_fold (run a) (if p (revents ch) \<and> cb \<in> callbacks ch then [cb] else []) s"
    using assms(2) unfolding if_res by (simp add: call_if_def read_ch_Some)
  show "\<exists>ch'. heap s' a = Some ch' \<and> revents ch' = revents ch \<and> callbacks ch' = callbacks ch"
    if "call_if run a cb p s = Inr s'"
    using that assms by (auto simp: call_if_def read_ch_Some keeps_channel_def split: if_splits)
qed

lemma call_if_chain:
  assumes "keeps_channel run a" and "heap s a = Some ch" and "revents ch = r" and "callbacks ch = c"
    and "\<And>s' ch'. heap s' a = Some ch' \<Longrightarrow> revents ch' = r \<Longrightarrow> callbacks ch' = c \<Longrightarrow>
           k s' = res_bind (res_fold (run a) cbs s') fin"
  shows "res_bind (call_if run a cb p s) k =
    res_bind (res_fold (run a) ((if p r \<and> cb \<in> c then [cb] else []) @ cbs) s) fin"
proof -
  have "res_bind (call_if run a cb p s) k = res_bind (call_if run a cb p s) (\<lambda>s'. res_bind (res_fold (run a) cbs s') fin)"
    by (rule res_bind_cong [OF refl]) (use call_if_fold(2) [OF assms(1,2)] assms(3-5) in blast)
  then show ?thesis
    unfolding call_if_fold(1) [OF assms(1,2)] res_fold_append assms(3,4) by (simp add: res_bind_assoc)
qed

lemma dispatch_append: "dispatch r c =
      (if (has r POLLHUP \<and> \<not> has r POLLIN) \<and> CloseCB \<in> c then [CloseCB] else []) @
      (if has r (POLLERR OR POLLNVAL) \<and> ErrorCB \<in> c then [ErrorCB] else []) @
      (if has r (POLLIN OR POLLPRI OR POLLRDHUP) \<and> ReadCB \<in> c then [ReadCB] else []) @
      (if has r POLLOUT \<and> WriteCB \<in> c then [WriteCB] else []) @ []"
  by (simp add: dispatch_def)

lemma handleEventWithGuard_order:
  assumes run: "keeps_channel run a" and ch: "heap s a = Some ch"
  shows "handleEventWithGuard run a s =
    res_bind (res_fold (run a) (dispatch (revents ch) (callbacks ch)) (s\<lparr>heap := (heap s)(a \<mapsto> ch\<lparr>eventHandling := True\<rparr>)\<rparr>))
      (modify_ch a (\<lambda>ch. ch\<lparr>eventHandling := False\<rparr>))"
  unfolding dispatch_append handleEventWithGuard_def modify_ch_Some [OF ch] res_bind.simps
  apply (rule call_if_chain [OF run, where ch = "ch\<lparr>eventHandling := True\<rparr>"], simp, simp, simp)
  apply (rule call_if_chain [OF run], assumption+)
  apply (rule call_if_chain [OF run], assumption+)
  apply (rule call_if_chain [OF run], assumption+)
  apply simp
  done


section \<open>Properties\<close>

text \<open>
  A channel that \<open>poll\<close> found active runs its callbacks once each in the fixed order close, error, read,
  write: close on a hang-up with nothing left to read, error on an error or invalid descriptor, read on
  data, write when writable, and only those that are set; an event for a tied channel whose owner is gone
  is dropped.
\<close>

theorem handleEvent_dispatches:
  assumes "keeps_channel run a" and "heap s a = Some ch"
  shows "handleEvent run alive a s =
    (if tied ch \<and> \<not> alive a then Inr s
     else res_bind (res_fold (run a) (dispatch (revents ch) (callbacks ch))
                      (s\<lparr>heap := (heap s)(a \<mapsto> ch\<lparr>eventHandling := True\<rparr>)\<rparr>))
            (modify_ch a (\<lambda>ch. ch\<lparr>eventHandling := False\<rparr>)))"
  using handleEventWithGuard_order [OF assms] assms(2) by (simp add: handleEvent_def read_ch_Some)

theorem handleEvent_dispatches_witness:
  "handleEvent (\<lambda>a cb s. Inr (chan_store.more_update (\<lambda>l. l @ [cb]) s)) (\<lambda>_. True) 5
     \<lparr>heap = [5 \<mapsto> (new_Channel 3)\<lparr>revents := 21, callbacks := {ReadCB, WriteCB, CloseCB}\<rparr>], \<dots> = []\<rparr> =
   Inr \<lparr>heap = [5 \<mapsto> (new_Channel 3)\<lparr>revents := 21, callbacks := {ReadCB, WriteCB, CloseCB}\<rparr>],
        \<dots> = [ReadCB, WriteCB]\<rparr>"
proof -
  let ?run = "\<lambda>(a::nat) cb s. Inr (chan_store.more_update (\<lambda>l. l @ [cb]) s) :: (callback list chan_store_scheme) res"
  let ?ch = "(new_Channel 3)\<lparr>revents := 21, callbacks := {ReadCB, WriteCB, CloseCB}\<rparr>"
  have "keeps_channel ?run 5" by (auto simp: keeps_channel_def)
  moreover have "dispatch 21 {ReadCB, WriteCB, CloseCB} = [ReadCB, WriteCB]"
    by (simp add: dispatch_def has_def poll_defs)
  ultimately show ?thesis
    using handleEvent_dispatches [of ?run 5 "\<lparr>heap = [5 \<mapsto> ?ch], \<dots> = []\<rparr>" ?ch "\<lambda>_. True"]
    by (simp add: modify_ch_def new_Channel_def)
qed

end
