(* ===== verification/TcpConnection.thy ===== *)
theory TcpConnection
  imports Codec Channel
begin

text \<open>
  \<^verbatim>\<open>base/src/TcpConnection.cpp\<close>: one connection with its input and output buffer, its channel and its
  state. The loop holds, for the connection's descriptor, whether its entry is active and for which events
  (\<open>watched\<close>); \<^verbatim>\<open>Channel::update\<close> and \<^verbatim>\<open>Channel::remove\<close> act on it as \<^verbatim>\<open>PollPoller\<close> does. The socket is
  the bytes handed to the kernel (\<open>sent\<close>), whether the sending side was closed (\<open>fin\<close>), and the kernel's
  answers to \<^verbatim>\<open>write(2)\<close>: \<open>kwrite t n\<close> is the answer to the \<open>t\<close>th call with \<open>n\<close> bytes, the number it took
  or \<open>None\<close> for an error. Functors handed to the loop are in \<open>functors\<close>. The connection, message and close
  callbacks are arguments; they act on the connection and on a state \<open>'u\<close> of their own.
\<close>

section \<open>State\<close>

datatype StateE = kDisconnected | kConnecting | kConnected | kDisconnecting

datatype conn_functor =
  WriteComplete | HighWaterMark size_t | SendInLoop string | ShutdownInLoop

record TcpConnection =
  conn_name :: string
  conn_state :: StateE
  chan :: Channel
  watched :: "(bool \<times> int32) option"
  inputBuffer :: Buffer
  outputBuffer :: Buffer
  highWaterMark :: size_t
  writeCompleteCB :: bool
  highWaterMarkCB :: bool
  functors :: "conn_functor list"
  sent :: "char list"
  fin :: bool
  kwrite :: "nat \<Rightarrow> nat \<Rightarrow> nat option"
  kcalls :: nat

definition new_TcpConnection :: "string \<Rightarrow> int \<Rightarrow> (nat \<Rightarrow> nat \<Rightarrow> nat option) \<Rightarrow> TcpConnection" where
  "new_TcpConnection nameArg sockfd kw =
     \<lparr>conn_name = nameArg, conn_state = kConnecting,
      chan = set_callback ErrorCB (set_callback CloseCB (set_callback WriteCB (set_callback ReadCB (new_Channel sockfd)))),
      watched = None, inputBuffer = new_Buffer, outputBuffer = new_Buffer, highWaterMark = 64*1024*1024,
      writeCompleteCB = False, highWaterMarkCB = False, functors = [], sent = [], fin = False, kwrite = kw, kcalls = 0\<rparr>"


section \<open>The channel\<close>

definition ch_update :: "TcpConnection \<Rightarrow> TcpConnection" where
  "ch_update c =
     c\<lparr>watched := (case watched c of
          None \<Rightarrow> Some (True, events (chan c))
        | Some (act, _) \<Rightarrow> Some (act \<and> \<not> isNoneEvent (chan c), events (chan c)))\<rparr>"

definition ch_events :: "(int32 \<Rightarrow> int32) \<Rightarrow> TcpConnection \<Rightarrow> TcpConnection" where
  "ch_events f c = ch_update (c\<lparr>chan := (chan c)\<lparr>events := f (events (chan c))\<rparr>\<rparr>)"

definition ch_remove :: "TcpConnection \<Rightarrow> TcpConnection res" where
  "ch_remove c =
     cassert (isNoneEvent (chan c)) (cassert (watched c = Some (False, 0)) (Inr (c\<lparr>watched := None\<rparr>)))"

definition queueInLoop :: "conn_functor \<Rightarrow> TcpConnection \<Rightarrow> TcpConnection" where
  "queueInLoop f c = c\<lparr>functors := functors c @ [f]\<rparr>"

text \<open>\<^verbatim>\<open>sockets::write(fd, data, len)\<close>.\<close>

definition sock_write :: "char list \<Rightarrow> TcpConnection \<Rightarrow> nat option \<times> TcpConnection" where
  "sock_write data c =
     (let r = kwrite c (kcalls c) (length data) in
      (r, c\<lparr>kcalls := Suc (kcalls c),
            sent := sent c @ (case r of Some n \<Rightarrow> take n data | None \<Rightarrow> [])\<rparr>))"


section \<open>Sending\<close>

definition sendInLoop :: "char list \<Rightarrow> size_t \<Rightarrow> TcpConnection \<Rightarrow> TcpConnection res" where
  "sendInLoop data len c =
     res_bind (string_at data len) (\<lambda>bytes.
     let (nwrote, remaining, c) =
       (if \<not> isWriting (chan c) \<and> readableBytes (outputBuffer c) = 0 then
          (case sock_write bytes c of (r, c) \<Rightarrow>
           case r of
             Some n \<Rightarrow>
               let remaining = len - word_of_nat n in
               (n, remaining, if remaining = 0 \<and> writeCompleteCB c then queueInLoop WriteComplete c else c)
           | None \<Rightarrow> (0, len, c))
        else (0, len, c))
     in cassert (remaining \<le> len)
       (if remaining > 0 then
          let oldLen = readableBytes (outputBuffer c);
              c = (if oldLen + remaining \<ge> highWaterMark c \<and> oldLen < highWaterMark c \<and> highWaterMarkCB c
                   then queueInLoop (HighWaterMark (oldLen + remaining)) c else c)
          in res_bind (append_buf (drop nwrote bytes) remaining (outputBuffer c)) (\<lambda>b.
             let c = c\<lparr>outputBuffer := b\<rparr> in
             Inr (if \<not> isWriting (chan c) then ch_events (\<lambda>e. e OR kWriteEvent) c else c))
        else Inr c))"

definition connected :: "TcpConnection \<Rightarrow> bool" where
  "connected c \<longleftrightarrow> conn_state c = kConnected"

definition setWriteCompleteCallback :: "TcpConnection \<Rightarrow> TcpConnection" where
  "setWriteCompleteCallback c = c\<lparr>writeCompleteCB := True\<rparr>"

definition setHighWaterMarkCallback :: "size_t \<Rightarrow> TcpConnection \<Rightarrow> TcpConnection" where
  "setHighWaterMarkCallback mark c = c\<lparr>highWaterMarkCB := True, highWaterMark := mark\<rparr>"

text \<open>The message callback of a connection that was given none.\<close>

definition defaultMessageCallback :: "'s \<Rightarrow> Buffer \<Rightarrow> ('s \<times> Buffer) res" where
  "defaultMessageCallback st buf = Inr (st, retrieveAll buf)"

text \<open>\<open>inLoop\<close> says whether the caller is the loop's thread.\<close>

definition send_string :: "bool \<Rightarrow> string \<Rightarrow> TcpConnection \<Rightarrow> TcpConnection res" where
  "send_string inLoop message c =
     (if conn_state c = kConnected then
        if inLoop then sendInLoop message (word_of_nat (length message)) c
        else Inr (queueInLoop (SendInLoop message) c)
      else Inr c)"

definition send_data :: "bool \<Rightarrow> char list \<Rightarrow> size_t \<Rightarrow> TcpConnection \<Rightarrow> TcpConnection res" where
  "send_data inLoop data len c =
     (if conn_state c = kConnected then
        if inLoop then sendInLoop data len c
        else res_bind (string_at data len) (\<lambda>message. Inr (queueInLoop (SendInLoop message) c))
      else Inr c)"

definition send_buffer :: "bool \<Rightarrow> Buffer \<Rightarrow> TcpConnection \<Rightarrow> (Buffer \<times> TcpConnection) res" where
  "send_buffer inLoop buf c =
     (if conn_state c = kConnected then
        if inLoop then
          res_bind (sendInLoop (peek buf) (readableBytes buf) c) (\<lambda>c. Inr (retrieveAll buf, c))
        else
          res_bind (retrieveAllAsString buf) (\<lambda>(s, buf). Inr (buf, queueInLoop (SendInLoop s) c))
      else Inr (buf, c))"

definition shutdownInLoop :: "TcpConnection \<Rightarrow> TcpConnection" where
  "shutdownInLoop c = (if \<not> isWriting (chan c) then c\<lparr>fin := True\<rparr> else c)"

definition shutdown :: "bool \<Rightarrow> TcpConnection \<Rightarrow> TcpConnection" where
  "shutdown inLoop c =
     (if conn_state c = kConnected then
        let c = c\<lparr>conn_state := kDisconnecting\<rparr> in
        if inLoop then shutdownInLoop c else queueInLoop ShutdownInLoop c
      else c)"


section \<open>Events\<close>

definition handleWrite :: "TcpConnection \<Rightarrow> TcpConnection res" where
  "handleWrite c =
     (if isWriting (chan c) then
        res_bind (string_at (peek (outputBuffer c)) (readableBytes (outputBuffer c))) (\<lambda>bytes.
        case sock_write bytes c of (r, c) \<Rightarrow>
        case r of
          Some n \<Rightarrow>
            if n > 0 then
              res_bind (retrieve (word_of_nat n) (outputBuffer c)) (\<lambda>b.
              let c = c\<lparr>outputBuffer := b\<rparr> in
              if readableBytes b = 0 then
                let c = ch_events (\<lambda>e. e AND NOT kWriteEvent) c;
                    c = (if writeCompleteCB c then queueInLoop WriteComplete c else c)
                in Inr (if conn_state c = kDisconnecting then shutdownInLoop c else c)
              else Inr c)
            else Inr c
        | None \<Rightarrow> Inr c)
      else Inr c)"

type_synonym 'u conn_cb = "'u \<times> TcpConnection \<Rightarrow> ('u \<times> TcpConnection) res"

definition handleClose :: "'u conn_cb \<Rightarrow> 'u conn_cb \<Rightarrow> 'u conn_cb" where
  "handleClose connectionCallback closeCallback st =
     (case st of (u, c) \<Rightarrow>
      let c = ch_events (\<lambda>_. kNoneEvent) (c\<lparr>conn_state := kDisconnected\<rparr>) in
      res_bind (connectionCallback (u, c)) closeCallback)"

text \<open>The message callback gets the connection and its input buffer, and leaves both.\<close>

definition handleRead ::
  "read_result \<Rightarrow> ('u \<times> TcpConnection \<Rightarrow> Buffer \<Rightarrow> (('u \<times> TcpConnection) \<times> Buffer) res) \<Rightarrow>
     'u conn_cb \<Rightarrow> 'u conn_cb \<Rightarrow> 'u conn_cb"
where
  "handleRead r messageCallback connectionCallback closeCallback st =
     (case st of (u, c) \<Rightarrow>
      res_bind (readFd r (inputBuffer c)) (\<lambda>(n, savedErrno, b).
      if n > 0 then
        res_bind (messageCallback (u, c\<lparr>inputBuffer := b\<rparr>) b) (\<lambda>((u, c), b).
        Inr (u, c\<lparr>inputBuffer := b\<rparr>))
      else if n = 0 then handleClose connectionCallback closeCallback (u, c\<lparr>inputBuffer := b\<rparr>)
      else Inr (u, c\<lparr>inputBuffer := b\<rparr>)))"

definition connectEstablished :: "'u conn_cb \<Rightarrow> 'u conn_cb" where
  "connectEstablished connectionCallback st =
     (case st of (u, c) \<Rightarrow>
      cassert (conn_state c = kConnecting)
        (let c = c\<lparr>conn_state := kConnected, chan := tie (chan c)\<rparr>;
             c = ch_events (\<lambda>e. e OR kReadEvent) c
         in connectionCallback (u, c)))"

definition connectDestroyed :: "'u conn_cb \<Rightarrow> 'u conn_cb" where
  "connectDestroyed connectionCallback st =
     (case st of (u, c) \<Rightarrow>
      res_bind
        (if conn_state c = kConnected then
           let c = ch_events (\<lambda>_. kNoneEvent) (c\<lparr>conn_state := kDisconnected\<rparr>) in
           connectionCallback (u, c)
         else Inr (u, c))
        (\<lambda>(u, c). res_bind (ch_remove c) (\<lambda>c. Inr (u, c))))"

text \<open>The loop runs the functors that were queued for it.\<close>

fun run_functor :: "conn_functor \<Rightarrow> TcpConnection \<Rightarrow> TcpConnection res" where
  "run_functor WriteComplete c = Inr c"
| "run_functor (HighWaterMark n) c = Inr c"
| "run_functor (SendInLoop s) c = sendInLoop s (word_of_nat (length s)) c"
| "run_functor ShutdownInLoop c = Inr (shutdownInLoop c)"


section \<open>Invariant\<close>

definition events_of :: "TcpConnection \<Rightarrow> int32" where
  "events_of c = (if content (outputBuffer c) = [] then kReadEvent else kReadEvent OR kWriteEvent)"

text \<open>
  The channel asks for writability exactly while there is output; the sending side is closed once a
  disconnecting connection has none left; a disconnected one asks for nothing.
\<close>

definition conn_wf :: "TcpConnection \<Rightarrow> bool" where
  [inv_simps]: "conn_wf c \<longleftrightarrow>
     buf_wf (inputBuffer c) \<and> buf_wf (outputBuffer c) \<and>
     (\<forall>t len n. kwrite c t len = Some n \<longrightarrow> n \<le> len) \<and>
     (case conn_state c of
        kConnecting \<Rightarrow> events (chan c) = 0 \<and> watched c = None \<and> content (outputBuffer c) = [] \<and> \<not> fin c
      | kConnected \<Rightarrow> events (chan c) = events_of c \<and> watched c = Some (True, events_of c) \<and> \<not> fin c
      | kDisconnecting \<Rightarrow> events (chan c) = events_of c \<and> watched c = Some (True, events_of c) \<and>
                          (fin c \<longleftrightarrow> content (outputBuffer c) = [])
      | kDisconnected \<Rightarrow> events (chan c) = 0 \<and> watched c \<in> {Some (False, 0), None})"


section \<open>Sending and draining\<close>

definition conn_room :: "TcpConnection \<Rightarrow> nat" where
  "conn_room c = 2 ^ 64 - 9 - length (buffer (outputBuffer c))"

text \<open>Everything the connection has been given to send: what the kernel took and what waits.\<close>

definition stream :: "TcpConnection \<Rightarrow> char list" where
  "stream c = sent c @ content (outputBuffer c)"

lemma conn_wfD:
  assumes "conn_wf c"
  shows "buf_wf (inputBuffer c)" and "buf_wf (outputBuffer c)" and "kwrite c t len = Some n \<Longrightarrow> n \<le> len"
    and "conn_state c = kConnected \<Longrightarrow> events (chan c) = events_of c \<and> watched c = Some (True, events_of c) \<and> \<not> fin c"
    and "conn_state c = kDisconnecting \<Longrightarrow> events (chan c) = events_of c \<and> watched c = Some (True, events_of c) \<and>
           (fin c \<longleftrightarrow> content (outputBuffer c) = [])"
  using assms by (auto simp: conn_wf_def)

lemma event_bits [simp]:
  "kReadEvent AND kWriteEvent = 0" "(kReadEvent OR kWriteEvent) AND kWriteEvent \<noteq> 0"
  "kReadEvent \<noteq> 0" "kWriteEvent \<noteq> 0" "kReadEvent OR kWriteEvent \<noteq> 0" "(kReadEvent OR kWriteEvent) AND NOT kWriteEvent = kReadEvent"
  by (simp_all add: event_defs)

lemma isWriting_output:
  "conn_wf c \<Longrightarrow> conn_state c \<in> {kConnected, kDisconnecting} \<Longrightarrow> isWriting (chan c) \<longleftrightarrow> content (outputBuffer c) \<noteq> []"
  using conn_wfD(4,5) [of c] by (auto simp: isWriting_def events_of_def split: if_splits)

lemma queueInLoop_simps [simp]:
  "conn_state (queueInLoop f c) = conn_state c" "chan (queueInLoop f c) = chan c" "watched (queueInLoop f c) = watched c"
  "inputBuffer (queueInLoop f c) = inputBuffer c" "outputBuffer (queueInLoop f c) = outputBuffer c"
  "sent (queueInLoop f c) = sent c" "fin (queueInLoop f c) = fin c" "kwrite (queueInLoop f c) = kwrite c"
  "highWaterMark (queueInLoop f c) = highWaterMark c" "highWaterMarkCB (queueInLoop f c) = highWaterMarkCB c"
  "writeCompleteCB (queueInLoop f c) = writeCompleteCB c" "conn_name (queueInLoop f c) = conn_name c"
  by (simp_all add: queueInLoop_def)

lemma ch_events_simps [simp]:
  "conn_state (ch_events f c) = conn_state c" "inputBuffer (ch_events f c) = inputBuffer c"
  "outputBuffer (ch_events f c) = outputBuffer c" "sent (ch_events f c) = sent c" "fin (ch_events f c) = fin c"
  "kwrite (ch_events f c) = kwrite c" "events (chan (ch_events f c)) = f (events (chan c))"
  "writeCompleteCB (ch_events f c) = writeCompleteCB c" "conn_name (ch_events f c) = conn_name c"
  "watched (ch_events f c) =
     (case watched c of None \<Rightarrow> Some (True, f (events (chan c)))
      | Some (act, _) \<Rightarrow> Some (act \<and> f (events (chan c)) \<noteq> kNoneEvent, f (events (chan c))))"
  by (simp_all add: ch_events_def ch_update_def isNoneEvent_def split: option.split)

text \<open>Putting bytes behind the output, and asking for writability when there was none.\<close>

definition pushed :: "Buffer \<Rightarrow> TcpConnection \<Rightarrow> TcpConnection" where
  "pushed b c = (let c = c\<lparr>outputBuffer := b\<rparr> in
     if \<not> isWriting (chan c) then ch_events (\<lambda>e. e OR kWriteEvent) c else c)"

lemma pushed_spec:
  assumes wf: "conn_wf c" and st: "conn_state c = kConnected" and d: "d \<noteq> []" and room: "length d \<le> conn_room c"
  obtains b where "append_buf d (word_of_nat (length d)) (outputBuffer c) = Inr b" and "conn_wf (pushed b c)"
    and "conn_state (pushed b c) = kConnected" and "inputBuffer (pushed b c) = inputBuffer c"
    and "kwrite (pushed b c) = kwrite c" and "stream (pushed b c) = stream c @ d" and "conn_room c \<le> conn_room (pushed b c) + length d"
proof -
  have l: "length d + length (buffer (outputBuffer c)) + 8 < 2 ^ 64"
    using room d by (cases d) (auto simp: conn_room_def)
  then have n: "unat (word_of_nat (length d) :: size_t) = length d" by simp
  have "buf_room (unat (word_of_nat (length d) :: size_t)) (outputBuffer c)"
    unfolding n using l by (simp add: buf_room_def)
  from append_buf_spec [OF conn_wfD(2) [OF wf] this, of d] n obtain b where
    b: "append_buf d (word_of_nat (length d)) (outputBuffer c) = Inr b" "buf_wf b"
       "content b = content (outputBuffer c) @ d" "length (buffer b) \<le> length (buffer (outputBuffer c)) + length d"
    by auto
  have w: "isWriting (chan c) \<longleftrightarrow> content (outputBuffer c) \<noteq> []" using isWriting_output [OF wf] st by simp
  have "conn_wf (pushed b c)"
    using wf st d b(2,3) conn_wfD(4) [OF wf st] w
    by (simp add: conn_wf_def pushed_def Let_def events_of_def kNoneEvent_def)
  moreover have "stream (pushed b c) = stream c @ d" using b(3) by (simp add: stream_def pushed_def Let_def)
  moreover have "conn_room c \<le> conn_room (pushed b c) + length d"
  proof -
    have "outputBuffer (pushed b c) = b" by (simp add: pushed_def Let_def)
    with b(4) show ?thesis unfolding conn_room_def by (simp only:)
  qed
  moreover have "kwrite (pushed b c) = kwrite c" by (simp add: pushed_def Let_def)
  ultimately show thesis using b(1) st by (intro that [of b]) (simp_all add: pushed_def Let_def)
qed

text \<open>Changes of a connection that its invariant does not see.\<close>

definition same_conn :: "TcpConnection \<Rightarrow> TcpConnection \<Rightarrow> bool" where
  "same_conn c c' \<longleftrightarrow> conn_state c' = conn_state c \<and> chan c' = chan c \<and> watched c' = watched c \<and>
     inputBuffer c' = inputBuffer c \<and> outputBuffer c' = outputBuffer c \<and> fin c' = fin c \<and> kwrite c' = kwrite c"

lemma same_conn_wf: "same_conn c c' \<Longrightarrow> conn_wf c' = conn_wf c"
  by (simp add: same_conn_def conn_wf_def events_of_def split: StateE.split)

lemma same_conn_room: "same_conn c c' \<Longrightarrow> conn_room c' = conn_room c"
  by (simp add: same_conn_def conn_room_def)

lemma unat_minus_nat: "n \<le> unat (len :: size_t) \<Longrightarrow> len - word_of_nat n = word_of_nat (unat len - n)"
  by (simp add: of_nat_diff)

lemma unat_diff_len: "n \<le> unat (len :: size_t) \<Longrightarrow> unat (word_of_nat (unat len - n) :: size_t) = unat len - n"
proof -
  have "unat len - n < 2 ^ LENGTH(64)" using unsigned_less [of len] by (rule le_less_trans [OF diff_le_self])
  then show ?thesis by (rule unat_word_of_nat_id)
qed

text \<open>What is left after the direct write goes to the buffer.\<close>

definition send_rest :: "char list \<Rightarrow> nat \<Rightarrow> size_t \<Rightarrow> TcpConnection \<Rightarrow> TcpConnection res" where
  "send_rest bytes nwrote remaining c =
     (if remaining > 0 then
        let oldLen = readableBytes (outputBuffer c);
            c = (if oldLen + remaining \<ge> highWaterMark c \<and> oldLen < highWaterMark c \<and> highWaterMarkCB c
                 then queueInLoop (HighWaterMark (oldLen + remaining)) c else c)
        in res_bind (append_buf (drop nwrote bytes) remaining (outputBuffer c)) (\<lambda>b. Inr (pushed b c))
      else Inr c)"

lemma send_rest_spec:
  fixes len :: size_t
  assumes wf: "conn_wf c" and st: "conn_state c = kConnected" and d: "length d = unat len"
    and room: "unat len \<le> conn_room c" and c1: "same_conn c c1" and n: "n \<le> unat len"
  shows "\<exists>c'. send_rest d n (word_of_nat (unat len - n)) c1 = Inr c' \<and> conn_wf c' \<and> conn_state c' = kConnected \<and>
           kwrite c' = kwrite c \<and> inputBuffer c' = inputBuffer c \<and> stream c' = stream c1 @ drop n d \<and>
           conn_room c \<le> conn_room c' + unat len"
proof (cases "n = unat len")
  case True
  then show ?thesis
    using c1 wf st d same_conn_wf [OF c1] same_conn_room [OF c1] by (auto simp: send_rest_def same_conn_def)
next
  case False
  define c2 where "c2 = (let oldLen = readableBytes (outputBuffer c1); remaining = word_of_nat (unat len - n) in
    if oldLen + remaining \<ge> highWaterMark c1 \<and> oldLen < highWaterMark c1 \<and> highWaterMarkCB c1
    then queueInLoop (HighWaterMark (oldLen + remaining)) c1 else c1)"
  have c2: "same_conn c c2" "stream c2 = stream c1" "inputBuffer c2 = inputBuffer c" "kwrite c2 = kwrite c"
    using c1 by (auto simp: c2_def same_conn_def stream_def Let_def)
  have len': "length (drop n d) = unat len - n" using d by simp
  have ne: "drop n d \<noteq> []" using False n d by simp
  have "length (drop n d) \<le> conn_room c2" using room same_conn_room [OF c2(1)] len' by simp
  from pushed_spec [OF _ _ ne this] same_conn_wf [OF c2(1)] c2(1) wf st obtain b where
    b: "append_buf (drop n d) (word_of_nat (length (drop n d))) (outputBuffer c2) = Inr b" "conn_wf (pushed b c2)"
       "conn_state (pushed b c2) = kConnected" "inputBuffer (pushed b c2) = inputBuffer c2"
       "kwrite (pushed b c2) = kwrite c2" "stream (pushed b c2) = stream c2 @ drop n d" "conn_room c2 \<le> conn_room (pushed b c2) + length (drop n d)"
    by (auto simp: same_conn_def)
  have pos: "0 < (word_of_nat (unat len - n) :: size_t)"
    using False n unat_diff_len [OF n] by (simp add: word_less_nat_alt)
  have "send_rest d n (word_of_nat (unat len - n)) c1 = Inr (pushed b c2)"
    using pos b(1) unfolding len' by (simp add: send_rest_def Let_def c2_def [unfolded Let_def, symmetric])
  with b c2 same_conn_room [OF c2(1)] len' show ?thesis by auto
qed

lemma sendInLoop_spec:
  assumes wf: "conn_wf c" and st: "conn_state c = kConnected" and len: "unat len \<le> length data"
    and room: "unat len \<le> conn_room c"
  shows "\<exists>c'. sendInLoop data len c = Inr c' \<and> conn_wf c' \<and> conn_state c' = kConnected \<and> kwrite c' = kwrite c \<and>
           inputBuffer c' = inputBuffer c \<and> stream c' = stream c @ take (unat len) data \<and>
           conn_room c \<le> conn_room c' + unat len"
proof -
  let ?d = "take (unat len) data"
  have d: "length ?d = unat len" using len by simp
  have bytes: "string_at data len = Inr ?d" using len by (simp add: string_at_def)
  have w: "isWriting (chan c) \<longleftrightarrow> content (outputBuffer c) \<noteq> []" using isWriting_output [OF wf] st by simp
  have r0: "readableBytes (outputBuffer c) = 0 \<longleftrightarrow> content (outputBuffer c) = []"
    using readableBytes_eq_0 conn_wfD(2) [OF wf] by blast
  note tail = send_rest_spec [OF wf st d room]
  show ?thesis
  proof (cases "content (outputBuffer c) = []")
    case False
    have "sendInLoop data len c = send_rest ?d 0 len c"
      using bytes w r0 False
      by (simp add: sendInLoop_def send_rest_def pushed_def Let_def cong: if_cong)
    with tail [of c 0] show ?thesis by (simp add: same_conn_def)
  next
    case True
    let ?k = "kwrite c (kcalls c) (unat len)"
    show ?thesis
    proof (cases ?k)
      case None
      let ?c1 = "c\<lparr>kcalls := Suc (kcalls c), sent := sent c @ []\<rparr>"
      have "sendInLoop data len c = send_rest ?d 0 len ?c1"
        using bytes w r0 True None d
        by (simp add: sendInLoop_def send_rest_def pushed_def Let_def sock_write_def cong: if_cong)
      with tail [of ?c1 0] show ?thesis by (simp add: same_conn_def stream_def)
    next
      case (Some n)
      let ?c0 = "c\<lparr>kcalls := Suc (kcalls c), sent := sent c @ take n ?d\<rparr>"
      let ?c1 = "if len - word_of_nat n = 0 \<and> writeCompleteCB ?c0 then queueInLoop WriteComplete ?c0 else ?c0"
      have n: "n \<le> unat len" using conn_wfD(3) [OF wf Some] .
      then have le: "len - word_of_nat n \<le> len"
        unfolding unat_minus_nat [OF n] word_le_nat_alt unat_diff_len [OF n] by simp
      have "sendInLoop data len c = send_rest ?d n (len - word_of_nat n) ?c1"
        using bytes w r0 True Some d le
        by (simp add: sendInLoop_def send_rest_def pushed_def Let_def sock_write_def cong: if_cong)
      moreover have "same_conn c ?c1" "stream ?c1 = stream c @ take n ?d"
        using True by (auto simp: same_conn_def stream_def)
      ultimately show ?thesis
        using tail [of ?c1 n] n unfolding unat_minus_nat [OF n]
        by (auto simp del: take_take drop_take)
    qed
  qed
qed


text \<open>A write event for which the kernel takes some bytes.\<close>

lemma handleWrite_taken:
  assumes wf: "conn_wf c" and st: "conn_state c \<in> {kConnected, kDisconnecting}" and ne: "content (outputBuffer c) \<noteq> []"
    and k: "kwrite c (kcalls c) (length (content (outputBuffer c))) = Some n" and n0: "n \<noteq> 0"
  shows "\<exists>c'. handleWrite c = Inr c' \<and> conn_wf c' \<and> conn_state c' = conn_state c \<and> stream c' = stream c \<and>
           conn_room c' = conn_room c \<and> kwrite c' = kwrite c \<and> content (outputBuffer c') = drop n (content (outputBuffer c))"
proof -
  let ?b = "outputBuffer c"
  have bwf: "buf_wf ?b" using conn_wfD(2) [OF wf] .
  have u: "unat (readableBytes ?b) = length (content ?b)" using unat_readableBytes [OF bwf] .
  have w: "isWriting (chan c)" using isWriting_output [OF wf st] ne by simp
  have bytes: "string_at (peek ?b) (readableBytes ?b) = Inr (content ?b)"
    using string_at_peek [OF bwf, of "readableBytes ?b"] u by simp
  have ev: "events (chan c) = kReadEvent OR kWriteEvent" "watched c = Some (True, kReadEvent OR kWriteEvent)" "\<not> fin c"
    using ne st conn_wfD(4,5) [OF wf] by (auto simp: events_of_def)
  have n: "n \<le> length (content ?b)" using conn_wfD(3) [OF wf k] .
  have nn: "unat (word_of_nat n :: size_t) = n"
    using n unfolding u [symmetric] by (intro unat_word_of_nat_id le_less_trans [OF _ unsigned_less])
  from retrieve_spec [OF bwf, of "word_of_nat n"] n nn obtain b' where
    b': "retrieve (word_of_nat n) ?b = Inr b'" "buf_wf b'" "buffer b' = buffer ?b" "content b' = drop n (content ?b)"
    by auto
  let ?c1 = "c\<lparr>kcalls := Suc (kcalls c), sent := sent c @ take n (content ?b), outputBuffer := b'\<rparr>"
  have str: "sent c @ take n (content ?b) @ content b' = stream c" using b'(4) by (simp add: stream_def)
  show ?thesis
  proof (cases "content b' = []")
    case True
    let ?c2 = "ch_events (\<lambda>e. e AND NOT kWriteEvent) ?c1"
    let ?c3 = "if writeCompleteCB ?c2 then queueInLoop WriteComplete ?c2 else ?c2"
    let ?c4 = "if conn_state ?c3 = kDisconnecting then shutdownInLoop ?c3 else ?c3"
    have "handleWrite c = Inr ?c4"
      using w bytes k n0 b' True readableBytes_eq_0 [OF b'(2)] by (simp add: handleWrite_def sock_write_def Let_def)
    moreover have nw: "\<not> isWriting (chan ?c3)" using ev(1) by (auto simp: isWriting_def)
    then have "conn_wf ?c4"
      using wf st ev True b'(2) by (auto simp: conn_wf_def events_of_def shutdownInLoop_def kNoneEvent_def)
    moreover have "stream ?c4 = stream c" using str by (auto simp: stream_def shutdownInLoop_def)
    moreover have "conn_room ?c4 = conn_room c" using b'(3) by (simp add: conn_room_def shutdownInLoop_def)
    ultimately show ?thesis using b'(4) by (auto simp: shutdownInLoop_def)
  next
    case False
    have "handleWrite c = Inr ?c1"
      using w bytes k n0 b' False readableBytes_eq_0 [OF b'(2)] by (simp add: handleWrite_def sock_write_def Let_def)
    moreover have "conn_wf ?c1" using wf st ev False b'(2) by (auto simp: conn_wf_def events_of_def)
    ultimately show ?thesis using b'(3,4) str by (auto simp: stream_def conn_room_def)
  qed
qed

lemma handleWrite_spec:
  assumes wf: "conn_wf c" and st: "conn_state c \<in> {kConnected, kDisconnecting}"
  shows "\<exists>c'. handleWrite c = Inr c' \<and> conn_wf c' \<and> conn_state c' = conn_state c \<and> stream c' = stream c \<and>
           conn_room c' = conn_room c \<and> kwrite c' = kwrite c \<and>
           content (outputBuffer c') = drop (case kwrite c (kcalls c) (length (content (outputBuffer c))) of Some n \<Rightarrow> n | None \<Rightarrow> 0)
             (content (outputBuffer c))"
proof (cases "content (outputBuffer c) = []")
  case True
  then have "\<not> isWriting (chan c)" using isWriting_output [OF wf st] by simp
  with True wf show ?thesis by (simp add: handleWrite_def)
next
  case False
  let ?b = "outputBuffer c" and ?k = "kwrite c (kcalls c) (length (content (outputBuffer c)))"
  show ?thesis
  proof (cases "?k = None \<or> ?k = Some 0")
    case True
    let ?c = "c\<lparr>kcalls := Suc (kcalls c), sent := sent c @ []\<rparr>"
    have bwf: "buf_wf ?b" using conn_wfD(2) [OF wf] .
    have "string_at (peek ?b) (readableBytes ?b) = Inr (content ?b)"
      using string_at_peek [OF bwf, of "readableBytes ?b"] unat_readableBytes [OF bwf] by simp
    then have "handleWrite c = Inr ?c"
      using isWriting_output [OF wf st] False True by (auto simp: handleWrite_def sock_write_def)
    moreover have "same_conn c ?c" by (simp add: same_conn_def)
    ultimately show ?thesis
      using wf True same_conn_wf [of c ?c] same_conn_room [of c ?c] by (auto simp: stream_def)
  next
    case n: False
    then obtain n where "?k = Some n" "n \<noteq> 0" by auto
    with handleWrite_taken [OF wf st False this] show ?thesis by simp
  qed
qed

lemma shutdown_spec:
  assumes wf: "conn_wf c"
  shows "conn_wf (shutdown True c)" and "stream (shutdown True c) = stream c" and "conn_room (shutdown True c) = conn_room c"
    and "kwrite (shutdown True c) = kwrite c" and "conn_state (shutdown True c) = (if conn_state c = kConnected then kDisconnecting else conn_state c)"
proof -
  show "conn_wf (shutdown True c)"
  proof (cases "conn_state c = kConnected")
    case True
    with wf isWriting_output [OF wf] conn_wfD(4) [OF wf True] show ?thesis
      by (auto simp: shutdown_def shutdownInLoop_def conn_wf_def events_of_def)
  qed (simp add: shutdown_def wf)
qed (simp_all add: shutdown_def shutdownInLoop_def stream_def conn_room_def Let_def)


section \<open>Runs of a connection\<close>

datatype conn_op = Send string | Shutdown | Writable

fun conn_step :: "conn_op \<Rightarrow> TcpConnection \<Rightarrow> TcpConnection res" where
  "conn_step (Send d) c = send_string True d c"
| "conn_step Shutdown c = Inr (shutdown True c)"
| "conn_step Writable c = handleWrite c"

text \<open>The bytes a connection accepts from a run: those sent before it was shut down.\<close>

fun accepted :: "conn_op list \<Rightarrow> char list" where
  "accepted [] = []"
| "accepted (Send d # ops) = d @ accepted ops"
| "accepted (Shutdown # ops) = []"
| "accepted (Writable # ops) = accepted ops"

lemma run_disconnecting:
  "conn_wf c \<Longrightarrow> conn_state c = kDisconnecting \<Longrightarrow>
     \<exists>c'. res_fold conn_step ops c = Inr c' \<and> conn_wf c' \<and> conn_state c' = kDisconnecting \<and> stream c' = stream c \<and>
          kwrite c' = kwrite c"
proof (induction ops arbitrary: c)
  case (Cons op ops)
  obtain c1 where c1: "conn_step op c = Inr c1" "conn_wf c1" "conn_state c1 = kDisconnecting" "stream c1 = stream c"
      "kwrite c1 = kwrite c"
  proof (cases op)
    case Writable
    with handleWrite_spec [OF Cons.prems(1)] Cons.prems(2) that show thesis by auto
  qed (use Cons.prems that in \<open>auto simp: send_string_def shutdown_def\<close>)
  with Cons.IH [OF c1(2,3)] show ?case by auto
qed simp

lemma run_connected:
  "conn_wf c \<Longrightarrow> conn_state c = kConnected \<Longrightarrow> length (accepted ops) \<le> conn_room c \<Longrightarrow>
     \<exists>c'. res_fold conn_step ops c = Inr c' \<and> conn_wf c' \<and> stream c' = stream c @ accepted ops \<and> kwrite c' = kwrite c \<and>
          conn_state c' = (if Shutdown \<in> set ops then kDisconnecting else kConnected)"
proof (induction ops arbitrary: c)
  case (Cons op ops)
  show ?case
  proof (cases op)
    case (Send d)
    have "length d \<le> conn_room c" using Cons.prems(3) Send by simp
    moreover from this have "unat (word_of_nat (length d) :: size_t) = length d"
      by (intro unat_word_of_nat_id) (simp add: conn_room_def)
    ultimately obtain c1 where c1: "sendInLoop d (word_of_nat (length d)) c = Inr c1" "conn_wf c1"
        "conn_state c1 = kConnected" "kwrite c1 = kwrite c" "stream c1 = stream c @ d" "conn_room c \<le> conn_room c1 + length d"
      using sendInLoop_spec [OF Cons.prems(1,2), of "word_of_nat (length d)" d] by auto
    have "length (accepted ops) \<le> conn_room c1" using Cons.prems(3) Send c1(6) by simp
    from Cons.IH [OF c1(2,3) this] c1 Send Cons.prems(2) show ?thesis by (auto simp: send_string_def)
  next
    case Shutdown
    from run_disconnecting [OF shutdown_spec(1) [OF Cons.prems(1)], of ops] Shutdown Cons.prems(1,2) show ?thesis
      by (auto simp: shutdown_spec)
  next
    case Writable
    from handleWrite_spec [OF Cons.prems(1)] Cons.prems(2) obtain c1 where
      c1: "handleWrite c = Inr c1" "conn_wf c1" "conn_state c1 = kConnected" "stream c1 = stream c" "conn_room c1 = conn_room c"
      "kwrite c1 = kwrite c" by auto
    from Cons.IH [OF c1(2,3)] Cons.prems(3) c1 Writable show ?thesis by auto
  qed
qed simp

lemma drain:
  assumes "conn_wf c" and "conn_state c \<in> {kConnected, kDisconnecting}"
    and "\<And>t len. 0 < len \<Longrightarrow> \<exists>n > 0. kwrite c t len = Some n"
  shows "length (content (outputBuffer c)) \<le> k \<Longrightarrow> \<exists>c'. res_fold conn_step (replicate k Writable) c = Inr c' \<and> conn_wf c' \<and>
           conn_state c' = conn_state c \<and> stream c' = stream c \<and> content (outputBuffer c') = []"
  using assms
proof (induction k arbitrary: c)
  case (Suc k)
  from handleWrite_spec [OF Suc.prems(2,3)] obtain c1 where
    c1: "handleWrite c = Inr c1" "conn_wf c1" "conn_state c1 = conn_state c" "stream c1 = stream c" "kwrite c1 = kwrite c"
      "content (outputBuffer c1) = drop (case kwrite c (kcalls c) (length (content (outputBuffer c))) of Some n \<Rightarrow> n | None \<Rightarrow> 0)
             (content (outputBuffer c))" by auto
  have "length (content (outputBuffer c1)) \<le> k"
  proof (cases "content (outputBuffer c) = []")
    case False
    then obtain n where "0 < n" "kwrite c (kcalls c) (length (content (outputBuffer c))) = Some n"
      using Suc.prems(4) [of "length (content (outputBuffer c))" "kcalls c"] by auto
    with c1(6) Suc.prems(1) show ?thesis by simp
  qed (use c1(6) in simp)
  from Suc.IH [OF this c1(2)] c1 Suc.prems(3,4) show ?case by auto
qed auto

text \<open>
  What the operations of a connection leave alone: its name and its channel, but for the interest and the tie. In
  particular the descriptor, what \<^verbatim>\<open>poll\<close> reported, the callbacks and whether an event is being handled.
\<close>

definition identity :: "TcpConnection \<Rightarrow> string \<times> Channel" where
  "identity c = (conn_name c, (chan c)\<lparr>events := 0, tied := False\<rparr>)"

lemma identityD:
  assumes "identity c' = identity c"
  shows "conn_name c' = conn_name c" and "ch_fd (chan c') = ch_fd (chan c)" and "revents (chan c') = revents (chan c)"
    and "callbacks (chan c') = callbacks (chan c)" and "eventHandling (chan c') = eventHandling (chan c)"
  using assms by (cases "chan c"; cases "chan c'"; simp add: identity_def)+

lemma identity_upd [simp]:
  "identity (c\<lparr>conn_state := s\<rparr>) = identity c" "identity (c\<lparr>watched := x\<rparr>) = identity c" "identity (c\<lparr>outputBuffer := b\<rparr>) = identity c"
  "identity (c\<lparr>fin := y\<rparr>) = identity c" "identity (ch_events f c) = identity c" "identity (queueInLoop g c) = identity c"
  "identity (shutdownInLoop c) = identity c" "identity (shutdown il c) = identity c" "identity (c\<lparr>inputBuffer := b\<rparr>) = identity c"
  by (simp_all add: identity_def ch_events_def ch_update_def queueInLoop_def shutdownInLoop_def shutdown_def Let_def)

lemma sock_write_identity: "sock_write d c = (r, c') \<Longrightarrow> identity c' = identity c"
  by (auto simp: sock_write_def identity_def Let_def)

lemma sendInLoop_identity: "sendInLoop d n c = Inr c' \<Longrightarrow> identity c' = identity c"
proof -
  assume eq: "sendInLoop d n c = Inr c'"
  then obtain bytes where "string_at d n = Inr bytes" by (auto simp: sendInLoop_def res_bind_eq_Inr)
  define X where "X = (if \<not> isWriting (chan c) \<and> readableBytes (outputBuffer c) = 0 then
          (case sock_write bytes c of (r, c) \<Rightarrow>
           case r of
             Some k \<Rightarrow>
               let remaining = n - word_of_nat k in
               (k, remaining, if remaining = 0 \<and> writeCompleteCB c then queueInLoop WriteComplete c else c)
           | None \<Rightarrow> (0, n, c))
        else (0, n, c))"
  obtain k rem c1 where X: "X = (k, rem, c1)" by (rule prod_cases3)
  have "identity c1 = identity c"
    using X by (auto simp: X_def Let_def dest: sock_write_identity split: if_splits option.splits prod.splits)
  moreover have "identity c' = identity c1"
    using eq \<open>string_at d n = Inr bytes\<close> X
    by (simp add: sendInLoop_def X_def [symmetric] Let_def res_bind_eq_Inr split: if_splits) auto
  ultimately show ?thesis by simp
qed

lemma handleWrite_identity: "handleWrite c = Inr c' \<Longrightarrow> identity c' = identity c"
proof -
  assume eq: "handleWrite c = Inr c'"
  show ?thesis
  proof (cases "isWriting (chan c)")
    case True
    then obtain bytes where b: "string_at (peek (outputBuffer c)) (readableBytes (outputBuffer c)) = Inr bytes"
      using eq by (auto simp: handleWrite_def res_bind_eq_Inr)
    obtain r c1 where w: "sock_write bytes c = (r, c1)" by (rule prod.exhaust)
    from sock_write_identity [OF w] eq True b w show ?thesis
      by (cases r) (auto simp: handleWrite_def Let_def res_bind_eq_Inr split: if_splits)
  qed (use eq in \<open>simp add: handleWrite_def\<close>)
qed

lemma conn_step_identity: "conn_step op c = Inr c' \<Longrightarrow> identity c' = identity c"
  by (cases op) (auto simp: send_string_def sendInLoop_identity handleWrite_identity split: if_splits)

lemma sendInLoop_name: "sendInLoop d n c = Inr c' \<Longrightarrow> conn_name c' = conn_name c"
  using sendInLoop_identity [of d n c c'] by (rule identityD)

lemma conn_step_name: "conn_step op c = Inr c' \<Longrightarrow> conn_name c' = conn_name c"
  using conn_step_identity [of op c c'] by (rule identityD)

text \<open>Sending, shutting down and writing go on while a connection is up; they do not change its phase.\<close>

lemma conn_step_up:
  assumes "conn_wf c" and "conn_state c \<in> {kConnected, kDisconnecting}" and "length (accepted [op]) \<le> conn_room c"
    and "conn_step op c = Inr c'"
  shows "conn_wf c' \<and> conn_state c' \<in> {kConnected, kDisconnecting} \<and> conn_name c' = conn_name c"
proof (cases "conn_state c = kConnected")
  case True
  from run_connected [OF assms(1) True assms(3)] assms(4) show ?thesis by (auto simp: conn_step_name)
next
  case False
  from run_disconnecting [OF assms(1), of "[op]"] assms(2,4) False show ?thesis by (auto simp: conn_step_name)
qed

lemma active_up: "conn_wf c \<Longrightarrow> watched c = Some (True, e) \<Longrightarrow> conn_state c \<in> {kConnected, kDisconnecting}"
  by (cases "conn_state c") (auto simp: conn_wf_def)


section \<open>The connection behind the codec\<close>

definition conn_send :: "Buffer \<Rightarrow> TcpConnection \<Rightarrow> TcpConnection res" where
  "conn_send b c = res_bind (send_buffer True b c) (\<lambda>(_, c). Inr c)"

definition conn_shutdown :: "TcpConnection \<Rightarrow> TcpConnection res" where
  "conn_shutdown c = Inr (shutdown True c)"

lemma conn_send_spec:
  assumes "conn_wf c" and "buf_wf b" and "length (content b) \<le> conn_room c"
  shows "\<exists>c'. conn_send b c = Inr c' \<and> conn_wf c' \<and> conn_state c' = conn_state c \<and>
           stream c' = stream c @ (if conn_state c = kConnected then content b else []) \<and>
           conn_room c \<le> conn_room c' + length (content b)"
proof (cases "conn_state c = kConnected")
  case True
  have u: "unat (readableBytes b) = length (content b)" using unat_readableBytes [OF assms(2)] .
  have "string_at (peek b) (readableBytes b) = Inr (content b)"
    using string_at_peek [OF assms(2), of "readableBytes b"] u by simp
  then have "unat (readableBytes b) \<le> length (peek b)" "take (unat (readableBytes b)) (peek b) = content b"
    by (auto simp: string_at_def split: if_splits)
  with sendInLoop_spec [OF assms(1) True, of "readableBytes b" "peek b"] assms(3) u True show ?thesis
    by (auto simp: conn_send_def send_buffer_def)
qed (use assms(1) in \<open>simp add: conn_send_def send_buffer_def\<close>)

interpretation tc: codec_connection conn_send conn_shutdown conn_wf conn_room
proof
  fix k b
  assume wf: "conn_wf k"
  { assume "buf_wf b" "length (content b) \<le> conn_room k"
    from conn_send_spec [OF wf this] show
      "\<exists>k'. conn_send b k = Inr k' \<and> conn_wf k' \<and> conn_room k \<le> conn_room k' + length (content b)" by blast }
  show "\<exists>k'. conn_shutdown k = Inr k' \<and> conn_wf k' \<and> conn_room k \<le> conn_room k'"
    using shutdown_spec [OF wf] by (simp add: conn_shutdown_def)
qed


section \<open>Life of a connection\<close>

lemma new_conn_wf: "\<forall>t len n. kw t len = Some n \<longrightarrow> n \<le> len \<Longrightarrow> conn_wf (new_TcpConnection nm fd kw)"
  by (simp add: conn_wf_def new_TcpConnection_def set_callback_def new_Channel_def)

text \<open>What \<open>connectEstablished\<close> hands to the connection callback.\<close>

definition established :: "TcpConnection \<Rightarrow> TcpConnection" where
  "established c = ch_events (\<lambda>e. e OR kReadEvent) (c\<lparr>conn_state := kConnected, chan := tie (chan c)\<rparr>)"

lemma established_wf:
  assumes "conn_wf c" and "conn_state c = kConnecting"
  shows "conn_wf (established c)" and "conn_state (established c) = kConnected"
    and "stream (established c) = stream c" and "conn_room (established c) = conn_room c"
  using assms by (simp_all add: conn_wf_def established_def events_of_def tie_def stream_def conn_room_def)

text \<open>What \<open>handleClose\<close> hands to the callbacks.\<close>

definition closed :: "TcpConnection \<Rightarrow> TcpConnection" where
  "closed c = ch_events (\<lambda>_. kNoneEvent) (c\<lparr>conn_state := kDisconnected\<rparr>)"

lemma closed_wf:
  assumes "conn_wf c" and "conn_state c \<in> {kConnected, kDisconnecting}"
  shows "conn_wf (closed c)" and "conn_state (closed c) = kDisconnected" and "watched (closed c) = Some (False, 0)"
    and "events (chan (closed c)) = 0"
  using assms by (auto simp: conn_wf_def closed_def kNoneEvent_def)

lemma closed_removes:
  assumes "conn_wf c" and "conn_state c \<in> {kConnected, kDisconnecting}"
  shows "ch_remove (closed c) = Inr ((closed c)\<lparr>watched := None\<rparr>)"
  using closed_wf [OF assms] by (simp add: ch_remove_def isNoneEvent_def kNoneEvent_def)


section \<open>Properties\<close>

text \<open>
  C1. No byte is lost, duplicated or reordered: in any run of \<open>send\<close>, \<open>shutdown\<close> and writable events on an
  established connection, whatever part of each write the kernel takes, the bytes handed to the kernel
  followed by the bytes still buffered are exactly those sent before the first \<open>shutdown\<close>. No step fails,
  and the sending side is closed exactly when a shut-down connection has nothing left to write.
\<close>

theorem connection_stream:
  assumes "conn_wf c" and "conn_state c = kConnected" and "length (accepted ops) \<le> conn_room c"
  shows "\<exists>c'. res_fold conn_step ops c = Inr c' \<and> conn_wf c' \<and>
           sent c' @ content (outputBuffer c') = sent c @ content (outputBuffer c) @ accepted ops \<and>
           (fin c' \<longleftrightarrow> Shutdown \<in> set ops \<and> content (outputBuffer c') = [])"
proof -
  from run_connected [OF assms] obtain c' where c': "res_fold conn_step ops c = Inr c'" "conn_wf c'"
      "stream c' = stream c @ accepted ops" "conn_state c' = (if Shutdown \<in> set ops then kDisconnecting else kConnected)"
    by blast
  have "fin c' \<longleftrightarrow> Shutdown \<in> set ops \<and> content (outputBuffer c') = []"
    using conn_wfD(4,5) [OF c'(2)] c'(4) by (auto split: if_splits)
  with c' show ?thesis by (auto simp: stream_def)
qed

text \<open>A connection whose kernel takes two bytes at a time.\<close>

definition slow_conn :: TcpConnection where
  "slow_conn = established (new_TcpConnection ''c'' 5 (\<lambda>t len. Some (min 2 len)))"

lemma slow_conn_wf: "conn_wf slow_conn" "conn_state slow_conn = kConnected" "stream slow_conn = []"
    "conn_room slow_conn = 2 ^ 64 - 1041"
proof -
  let ?c = "new_TcpConnection ''c'' 5 (\<lambda>t len. Some (min 2 len))"
  have wf: "conn_wf ?c" by (rule new_conn_wf) simp
  have st: "conn_state ?c = kConnecting" by (simp add: new_TcpConnection_def)
  show "conn_wf slow_conn" "conn_state slow_conn = kConnected" using established_wf [OF wf st] by (simp_all add: slow_conn_def)
  show "stream slow_conn = []" unfolding slow_conn_def established_wf(3) [OF wf st]
    by (simp add: stream_def new_TcpConnection_def)
  show "conn_room slow_conn = 2 ^ 64 - 1041" unfolding slow_conn_def established_wf(4) [OF wf st]
    by (simp add: conn_room_def new_TcpConnection_def new_Buffer_def kCheapPrepend_def kInitialSize_def)
qed

theorem connection_stream_witness:
  "\<exists>c'. res_fold conn_step [Send ''hello'', Shutdown, Send ''x'', Writable, Writable] slow_conn = Inr c' \<and>
        sent c' @ content (outputBuffer c') = ''hello'' \<and> (fin c' \<longleftrightarrow> content (outputBuffer c') = [])"
  using connection_stream [OF slow_conn_wf(1,2), of "[Send ''hello'', Shutdown, Send ''x'', Writable, Writable]"]
    slow_conn_wf(3,4) by (auto simp: stream_def)

text \<open>
  C10. Output is eventually written: if every write with something to write makes progress, then after as
  many writable events as there are bytes waiting the buffer is empty, everything has been handed to the
  kernel, and a connection that is shutting down has closed its sending side.
\<close>

theorem connection_drains:
  assumes "conn_wf c" and "conn_state c \<in> {kConnected, kDisconnecting}"
    and "\<forall>t len. 0 < len \<longrightarrow> (\<exists>n > 0. kwrite c t len = Some n)" and "length (content (outputBuffer c)) \<le> k"
  shows "\<exists>c'. res_fold conn_step (replicate k Writable) c = Inr c' \<and> content (outputBuffer c') = [] \<and>
           sent c' = sent c @ content (outputBuffer c) \<and> fin c' = (conn_state c = kDisconnecting)"
proof -
  from drain [OF assms(1,2) _ assms(4)] assms(3) obtain c' where
    c': "res_fold conn_step (replicate k Writable) c = Inr c'" "conn_wf c'" "conn_state c' = conn_state c"
      "stream c' = stream c" "content (outputBuffer c') = []" by auto
  have "fin c' = (conn_state c = kDisconnecting)"
    using conn_wfD(4,5) [OF c'(2)] c'(3,5) assms(2) by auto
  with c' show ?thesis by (auto simp: stream_def)
qed

theorem connection_drains_witness:
  "\<exists>c1 c'. res_fold conn_step [Send ''hello'', Shutdown] slow_conn = Inr c1 \<and>
     res_fold conn_step (replicate 5 Writable) c1 = Inr c' \<and> sent c' = ''hello'' \<and> fin c'"
proof -
  from run_connected [OF slow_conn_wf(1,2), of "[Send ''hello'', Shutdown]"] slow_conn_wf(3,4) obtain c1 where
    c1: "res_fold conn_step [Send ''hello'', Shutdown] slow_conn = Inr c1" "conn_wf c1"
      "stream c1 = ''hello''" "conn_state c1 = kDisconnecting" "kwrite c1 = kwrite slow_conn" by auto
  then have kw: "\<forall>t len. 0 < len \<longrightarrow> (\<exists>n > 0. kwrite c1 t len = Some n)"
    by (simp add: slow_conn_def established_def new_TcpConnection_def)
  have "length (stream c1) = 5" using c1(3) by simp
  then have len: "length (content (outputBuffer c1)) \<le> 5" unfolding stream_def length_append by linarith
  obtain c' where c': "res_fold conn_step (replicate 5 Writable) c1 = Inr c'"
      "sent c' = sent c1 @ content (outputBuffer c1)" "fin c' = (conn_state c1 = kDisconnecting)"
    using connection_drains [OF c1(2) _ kw len] c1(4) by auto
  show ?thesis
  proof (intro exI conjI)
    show "sent c' = ''hello''" using c'(2) c1(3) by (simp add: stream_def)
    show "fin c'" using c'(3) c1(4) by simp
  qed (rule c1(1), rule c'(1))
qed

text \<open>
  From establishment to destruction: a closed connection, and one destroyed while still connected, is
  unregistered from the loop without a failed assertion, with callbacks that leave the connection alone.
\<close>

theorem connection_lifecycle:
  assumes "conn_wf c" and "\<forall>u c. \<exists>u'. ccb (u, c) = Inr (u', c)" and "\<forall>u c. \<exists>u'. clcb (u, c) = Inr (u', c)"
  shows "(conn_state c = kConnecting \<longrightarrow>
            (\<exists>u' c'. connectEstablished ccb (u, c) = Inr (u', c') \<and> conn_wf c' \<and> conn_state c' = kConnected \<and>
                     watched c' = Some (True, kReadEvent))) \<and>
         (conn_state c \<in> {kConnected, kDisconnecting} \<longrightarrow>
            (\<exists>u' c'. res_bind (handleClose ccb clcb (u, c)) (connectDestroyed ccb) = Inr (u', c') \<and>
                     conn_wf c' \<and> conn_state c' = kDisconnected \<and> watched c' = None)) \<and>
         (conn_state c = kConnected \<longrightarrow>
            (\<exists>u' c'. connectDestroyed ccb (u, c) = Inr (u', c') \<and> conn_wf c' \<and>
                     conn_state c' = kDisconnected \<and> watched c' = None))"
proof (intro conjI impI)
  assume st: "conn_state c = kConnecting"
  obtain u' where "ccb (u, established c) = Inr (u', established c)" using assms(2) by blast
  moreover have "watched (established c) = Some (True, kReadEvent)"
    using assms(1) st by (simp add: conn_wf_def established_def tie_def)
  ultimately show "\<exists>u' c'. connectEstablished ccb (u, c) = Inr (u', c') \<and> conn_wf c' \<and> conn_state c' = kConnected \<and>
      watched c' = Some (True, kReadEvent)"
    using established_wf(1,2) [OF assms(1) st] st by (simp add: connectEstablished_def Let_def established_def [symmetric])
next
  assume st: "conn_state c \<in> {kConnected, kDisconnecting}"
  let ?c = "(closed c)\<lparr>watched := None\<rparr>"
  have wf: "conn_wf ?c" "conn_state ?c = kDisconnected" "watched ?c = None"
    using closed_wf [OF assms(1) st] by (simp_all add: conn_wf_def)
  obtain u1 where "ccb (u, closed c) = Inr (u1, closed c)" using assms(2) by blast
  moreover obtain u2 where "clcb (u1, closed c) = Inr (u2, closed c)" using assms(3) by blast
  ultimately have "res_bind (handleClose ccb clcb (u, c)) (connectDestroyed ccb) = Inr (u2, ?c)"
    using closed_wf(2) [OF assms(1) st] closed_removes [OF assms(1) st]
    by (simp add: handleClose_def connectDestroyed_def Let_def closed_def [symmetric])
  with wf show "\<exists>u' c'. res_bind (handleClose ccb clcb (u, c)) (connectDestroyed ccb) = Inr (u', c') \<and>
      conn_wf c' \<and> conn_state c' = kDisconnected \<and> watched c' = None" by blast
next
  assume st: "conn_state c = kConnected"
  then have st': "conn_state c \<in> {kConnected, kDisconnecting}" by simp
  let ?c = "(closed c)\<lparr>watched := None\<rparr>"
  have wf: "conn_wf ?c" "conn_state ?c = kDisconnected" "watched ?c = None"
    using closed_wf [OF assms(1) st'] by (simp_all add: conn_wf_def)
  obtain u1 where "ccb (u, closed c) = Inr (u1, closed c)" using assms(2) by blast
  then have "connectDestroyed ccb (u, c) = Inr (u1, ?c)"
    using st closed_removes [OF assms(1) st']
    by (simp add: connectDestroyed_def Let_def closed_def [symmetric])
  with wf show "\<exists>u' c'. connectDestroyed ccb (u, c) = Inr (u', c') \<and> conn_wf c' \<and>
      conn_state c' = kDisconnected \<and> watched c' = None" by blast
qed

theorem connection_lifecycle_witness:
  "\<exists>u' c'. res_bind (handleClose (\<lambda>(u, c). Inr (Suc u, c)) (\<lambda>(u, c). Inr (u + 10, c)) (0, slow_conn))
     (connectDestroyed (\<lambda>(u, c). Inr (Suc u, c))) = Inr (u', c') \<and> watched c' = None"
  using connection_lifecycle [OF slow_conn_wf(1), of "\<lambda>(u, c). Inr (Suc u, c)" "\<lambda>(u, c). Inr (u + 10, c)" 0]
    slow_conn_wf(2) by auto

text \<open>
  A connection that is destroyed while it is shutting down, as the destructor of \<open>TcpServer\<close> does with
  every connection it still has, fails the assertion of \<open>Channel::remove\<close>: \<open>connectDestroyed\<close> disables the
  channel only in the state \<open>kConnected\<close>.
\<close>

theorem destroyed_disconnecting_aborts:
  assumes "conn_wf c" and "conn_state c = kDisconnecting"
  shows "connectDestroyed ccb (u, c) = Inl AssertFail"
  using conn_wfD(5) [OF assms] assms(2)
  by (simp add: connectDestroyed_def ch_remove_def isNoneEvent_def events_of_def kNoneEvent_def)

theorem destroyed_disconnecting_aborts_witness:
  "connectDestroyed (\<lambda>st. Inr st) ((), shutdown True slow_conn) = Inl AssertFail"
  using destroyed_disconnecting_aborts [OF shutdown_spec(1) [OF slow_conn_wf(1)]] shutdown_spec(5) [OF slow_conn_wf(1)]
    slow_conn_wf(2) by simp

end
