(* ===== verification/Protocol.thy ===== *)
theory Protocol
  imports P2PClient TcpConnection
begin

text \<open>
  The two message protocols over a connection of the network library: the callbacks of the directory server and
  of a serving peer with \<^verbatim>\<open>TcpConnection::send\<close> and \<^verbatim>\<open>shutdown\<close> as they are, fed by the codec, and what the
  client makes of the answers.
\<close>

section \<open>The message handlers over a connection\<close>

context codec_connection
begin

lemma server_handler:
  "message_handler (P2PServer_onStringMessage UserInfoSortCriterion reach csend sd) (on_conn sd)
     (server_conn_inv conn_inv) (\<lambda>st. server_valid (fst st)) (\<lambda>st. conn_room (snd st)) 22"
  by (rule p2p_server.message_handler_axioms)

lemma serving_handler:
  "message_handler (P2PCServer_onStringMessage csend) (on_conn sd) (peer_conn_inv conn_inv)
     (\<lambda>st m. 6 \<le> length m) (\<lambda>st. conn_room (snd st)) 11"
  by (rule p2p_serving.message_handler_axioms)

end

interpretation directory: message_handler
  "P2PServer_onStringMessage UserInfoSortCriterion reach conn_send conn_shutdown" "on_conn conn_shutdown"
  "server_conn_inv conn_wf" "\<lambda>st. server_valid (fst st)" "\<lambda>st. conn_room (snd st)" 22
  for reach
  by (rule codec_connection.server_handler [OF tc.codec_connection_axioms])

interpretation serving: message_handler
  "P2PCServer_onStringMessage conn_send" "on_conn conn_shutdown"
  "peer_conn_inv conn_wf" "\<lambda>st m. 6 \<le> length m" "\<lambda>st. conn_room (snd st)" 11
  by (rule codec_connection.serving_handler [OF tc.codec_connection_axioms])

lemma conn_codec_send:
  assumes "conn_wf c" and "conn_state c = StateE.kConnected" and "length m < 2 ^ 31" and "length m + 4 \<le> conn_room c"
  shows "\<exists>c'. codec_send conn_send (StringPiece_of_string m) c = Inr c' \<and> conn_wf c' \<and>
           conn_state c' = StateE.kConnected \<and> stream c' = stream c @ encode m \<and>
           conn_room c \<le> conn_room c' + (length m + 4)"
proof -
  obtain buf where buf: "buf_wf buf" "content buf = encode m"
      "codec_send conn_send (StringPiece_of_string m) c = conn_send buf c"
    using codec_send_spec [OF assms(3), of conn_send] by auto
  moreover have "length (encode m) = length m + 4" by (simp add: encode_def)
  ultimately show ?thesis using conn_send_spec [OF assms(1) buf(1)] assms(2,4) by simp
qed


section \<open>Registration\<close>

lemma user_map_others:
  "map_of (map (apsnd f) (nei_entries ip s)) = (\<lambda>a. map_option f (((user_map s)(ip := None)) a))"
  by (induction s) (auto simp: nei_entries_def fun_eq_iff)

text \<open>The neighbour list of the server, as a map: the members of the group other than the sender.\<close>

lemma nei_entries_map:
  assumes "cat_wf c" and "users c k = Some s"
  shows "map_of (rev (map (apsnd f) (nei_entries ip s))) = (\<lambda>a. map_option f (((members c k)(ip := None)) a))"
proof -
  let ?l = "map (apsnd f) (nei_entries ip s)"
  have fst: "map fst ?l = map userIP (filter (\<lambda>u. userIP u \<noteq> ip) s)"
    by (simp add: nei_entries_def)
  have "distinct (map userIP s)" using cat_wfD [OF assms] by (auto simp: group_wf_def)
  then have "distinct (map fst ?l)" unfolding fst by (rule distinct_map_filter)
  then have "map_of (rev ?l) = map_of ?l"
    by (intro map_of_inject_set [THEN iffD2]) (simp_all flip: rev_map)
  then show ?thesis using assms(2) by (simp add: user_map_others members_def)
qed

text \<open>A registration request as the peer sends it.\<close>

definition register_request :: "string \<Rightarrow> string" where
  "register_request ip = ''a0'' @ ip @ [to_char 1]"

lemma register_request_simps:
  assumes "length ip = 4"
  shows "register_request ip ! 0 = CHR ''a''" and "message_ip (register_request ip) = ip"
    and "message_file (register_request ip) = 1" and "length (register_request ip) = 7"
    and "server_valid srv (register_request ip) \<longleftrightarrow> processIP ip \<in> dom (users (catalogue srv))"
  using assms by (simp_all add: register_request_def message_ip_def message_file_def server_valid_def nth_append)

lemma register_over_connection:
  assumes "server_inv srv" and "length ip = 4" and "processIP ip \<in> dom (users (catalogue srv))"
    and "conn_wf c" and "conn_state c = StateE.kConnected" and "22 \<le> conn_room c"
  obtains cat s c' where
      "P2PServer_onStringMessage UserInfoSortCriterion reach conn_send conn_shutdown (srv, c) (register_request ip) =
         Inr (srv\<lparr>catalogue := cat\<rparr>, c')"
    and "server_inv (srv\<lparr>catalogue := cat\<rparr>)" and "users cat (processIP ip) = Some s"
    and "group_of cat (processIP ip) = register reach ip 1 (group_of (catalogue srv) (processIP ip))"
    and "conn_wf c'" and "conn_state c' = StateE.kDisconnecting" and "stream c' = stream c @ encode (server_reply ip s)"
proof -
  note req = register_request_simps [OF assms(2)]
  have valid: "server_valid srv (register_request ip)" using assms(3) req(5) by simp
  have wf: "cat_wf (catalogue srv)" using assms(1) by (simp add: server_inv_def)
  from orders_SortCriterion assms(1) valid show thesis
  proof (cases rule: server_callback [where reach = reach and csend = conn_send and sd = conn_shutdown and k = c])
    case (register cat s)
    have len: "length (server_reply ip s) \<le> 18"
      using length_server_reply [OF register(3), of "processIP ip" s ip] register(5) req by simp
    then obtain c1 where c1: "codec_send conn_send (StringPiece_of_string (server_reply ip s)) c = Inr c1" "conn_wf c1"
        "conn_state c1 = StateE.kConnected" "stream c1 = stream c @ encode (server_reply ip s)"
      using conn_codec_send [OF assms(4,5), of "server_reply ip s"] assms(6) by auto
    have "group_of cat (processIP ip) = register reach ip 1 (group_of (catalogue srv) (processIP ip))"
      using insertUser_spec [OF orders_SortCriterion wf, of reach ip 1] register(2) req by auto
    with register req c1 shutdown_spec [OF c1(2)] show thesis
      by (intro that [of cat "shutdown True c1" s]) (simp_all add: conn_shutdown_def)
  qed (use req in simp_all)
qed

lemma reply_learned:
  assumes "server_inv srv" and "users (catalogue srv) k = Some s" and "om_wf (neiIP g)"
  shows "\<exists>g'. client_processMessage (server_reply ip s) g = Inr (0, g') \<and> om_wf (neiIP g') \<and>
           updateFile g' = updateFile g \<and>
           map_of (neiIP g') = map_of (neiIP g) ++
             (if length s = 1 then [''1111'' \<mapsto> 0]
              else (\<lambda>a. map_option known_file (((members (catalogue srv) k)(ip := None)) a)))"
proof (cases "length s = 1")
  case True
  then show ?thesis
    using process_b_alone [of g] assms(3) by (simp add: server_reply_def known_file_def om.put_wf om.put_look)
next
  case False
  let ?es = "nei_entries ip s"
  have wf: "cat_wf (catalogue srv)" using assms(1) by (simp add: server_inv_def)
  have "length s \<le> 3" using cat_wfD [OF wf assms(2)] group_size(3) by blast
  then have "length ?es < 128"
    using length_filter_le [of "\<lambda>u. userIP u \<noteq> ip" s] unfolding nei_entries_def length_map by linarith
  moreover have "\<forall>e \<in> set ?es. length (fst e) = 4 \<and> -128 \<le> snd e \<and> snd e < 128"
    using entries_length [OF assms(1,2)] by blast
  ultimately have "client_processMessage (server_reply ip s) g = Inr (0, fold (\<lambda>(ip, f). insertNeiIP ip f) ?es g)"
    using process_b False by (simp add: server_reply_def)
  then show ?thesis
    using om.put_all_look [OF assms(3), of "map (apsnd known_file) ?es"] nei_entries_map [OF wf assms(2), of known_file ip] False
    by (simp add: fold_insertNeiIP)
qed


section \<open>One message in any segmentation\<close>

text \<open>What a received answer does to the static state of the peer, the search for the next peer aside.\<close>

definition learn :: "P2PCServer \<Rightarrow> string \<Rightarrow> P2PCServer res" where
  "learn g m = res_bind (client_processMessage m g) (\<lambda>(r, g). Inr g)"

lemma receive_one:
  assumes "concat segs = encode m" and "length m \<le> 65536" and "\<forall>seg \<in> set segs. length seg \<le> 65536"
  shows "\<exists>b'. content b' = [] \<and> receive cb sd segs s new_Buffer = res_bind (cb s m) (\<lambda>s'. Inr (s', b'))"
proof -
  have "parse (content new_Buffer @ concat segs) = ([m], [], False)"
    using assms(1,2) parse_encodes [of "[m]"] by simp
  moreover have "length (buffer new_Buffer) + length (concat segs) + 8 < 2 ^ 64"
    using assms(1,2) by (simp add: new_Buffer_def kCheapPrepend_def kInitialSize_def encode_def)
  moreover have "parse [] = ([], [], False)" by (simp add: parse.simps)
  moreover have "res_fold (\<lambda>m s. cb s m) [m] s = cb s m" by (cases "cb s m") simp_all
  ultimately show ?thesis
    using receive_parse [OF buf_wf_new assms(3), of "[m]" "[]" cb sd] by (metis content_new)
qed

lemma length_server_reply_small:
  assumes "server_inv srv" and "users (catalogue srv) k = Some s"
  shows "length (server_reply ip s) \<le> 65536"
  using length_server_reply [OF assms, of ip] by simp


section \<open>Serving a peer\<close>

text \<open>A request for the next part and the answer of a serving peer, as \<^verbatim>\<open>p2pclient.cpp\<close> writes them.\<close>

definition part_request :: "P2PCServer \<Rightarrow> string" where
  "part_request g = ''c0'' @ getIP g @ [to_char (getFile g)]"

definition part_reply :: "P2PCServer \<Rightarrow> string" where
  "part_reply g = ''d0'' @ getIP g @ [to_char (getFile g)]"

lemma part_request_simps:
  assumes "peer_inv g"
  shows "length (part_request g) = 7" and "message_ip (part_request g) = selfIP g"
    and "message_file (part_request g) = updateFile g" and "length (part_reply g) = 7"
  using assms
  by (auto simp: part_request_def part_reply_def getIP_def getFile_def peer_inv_def message_ip_def message_file_def nth_append)

lemma serve_over_connection:
  assumes "peer_inv gs" and "peer_inv g" and "conn_wf c" and "conn_state c = StateE.kConnected" and "11 \<le> conn_room c"
  obtains c' where
      "P2PCServer_onStringMessage conn_send (gs, c) (part_request g) =
         Inr (insertNeiIP (selfIP g) (updateFile g) gs, c')"
    and "conn_wf c'" and "conn_state c' = StateE.kConnected" and "stream c' = stream c @ encode (part_reply gs)"
proof -
  note req = part_request_simps [OF assms(2)] and reply = part_request_simps [OF assms(1)]
  have long: "6 \<le> length (part_request g)" using req(1) by simp
  obtain c' where c': "codec_send conn_send (StringPiece_of_string (part_reply gs)) c = Inr c'" "conn_wf c'"
      "conn_state c' = StateE.kConnected" "stream c' = stream c @ encode (part_reply gs)"
    using conn_codec_send [OF assms(3,4), of "part_reply gs"] assms(5) reply(4) by auto
  moreover have "P2PCServer_onStringMessage conn_send (gs, c) (part_request g) =
      Inr (insertNeiIP (selfIP g) (updateFile g) gs, c')"
    unfolding serving_callback [OF long]
    using c'(1) req(2,3) by (simp add: part_reply_def getIP_def getFile_def)
  ultimately show thesis using that by blast
qed

lemma learn_part:
  assumes "peer_inv gs"
  shows "learn g (part_reply gs) =
    Inr ((insertNeiIP (selfIP gs) (updateFile gs) g)\<lparr>updateFile := updateFile g + (if updateFile g < updateFile gs then 1 else 0)\<rparr>)"
proof -
  have "length (selfIP gs) = 4" "-128 \<le> updateFile gs" "updateFile gs < 128" using assms by (simp_all add: peer_inv_def)
  from process_d [OF this, of g] show ?thesis
    by (auto simp: learn_def part_reply_def getIP_def getFile_def insertNeiIP_def Let_def)
qed



section \<open>A connection for the witnesses\<close>

text \<open>An established connection whose kernel takes every byte.\<close>

definition open_conn :: TcpConnection where
  "open_conn = established (new_TcpConnection ''c'' 7 (\<lambda>t len. Some len))"

lemma open_conn_wf: "conn_wf open_conn" "conn_state open_conn = StateE.kConnected" "stream open_conn = []" "22 \<le> conn_room open_conn"
proof -
  have new: "conn_wf (new_TcpConnection ''c'' 7 (\<lambda>t len. Some len))" by (rule new_conn_wf) simp
  have st: "conn_state (new_TcpConnection ''c'' 7 (\<lambda>t len. Some len)) = StateE.kConnecting"
    by (simp add: new_TcpConnection_def)
  note e = established_wf [OF new st]
  show "conn_wf open_conn" "conn_state open_conn = StateE.kConnected" using e unfolding open_conn_def by auto
  show "stream open_conn = []" "22 \<le> conn_room open_conn"
    using e(3,4) unfolding open_conn_def
    by (simp_all add: new_TcpConnection_def stream_def conn_room_def new_Buffer_def kCheapPrepend_def kInitialSize_def content_def)
qed

end
