(* ===== verification/InetAddress.thy ===== *)
theory InetAddress
  imports Prelude
begin

text \<open>
  \<^verbatim>\<open>base/src/InetAddress.cpp\<close> and the address functions of \<^verbatim>\<open>base/src/SocketsOps.cpp\<close>. The fields of
  \<^verbatim>\<open>sockaddr_in\<close> hold what the bytes in memory read as on the little-endian target: \<open>sin_port\<close> and \<open>s_addr\<close>
  are in network byte order, so the bytes of \<open>s_addr\<close> at increasing addresses are the four parts of the
  dotted notation.
\<close>

section \<open>Addresses\<close>

record sockaddr_in =
  sin_family :: int
  sin_port :: "16 word"
  s_addr :: "32 word"

definition AF_INET :: int where
  "AF_INET = 2"

text \<open>\<^verbatim>\<open>bzero(&addr, sizeof addr)\<close>, and \<^verbatim>\<open>htobe16\<close> / \<^verbatim>\<open>be16toh\<close>.\<close>

definition zero_addr :: sockaddr_in where
  "zero_addr = \<lparr>sin_family = 0, sin_port = 0, s_addr = 0\<rparr>"

definition bswap16 :: "16 word \<Rightarrow> 16 word" where
  "bswap16 w = word_of_nat (256 * (unat w mod 256) + unat w div 256)"

lemma bswap16_bswap16 [simp]: "bswap16 (bswap16 w) = w"
proof -
  let ?m = "256 * (unat w mod 256) + unat w div 256"
  have lt: "unat w < 65536" using unsigned_less [of w] by simp
  then have d: "unat w div 256 < 256" by (simp add: less_mult_imp_div_less)
  have "unat w mod 256 \<le> 255" using mod_less_divisor [of 256 "unat w"] by linarith
  then have "?m < 65536" using d by linarith
  then have "unat (bswap16 w) = ?m"
    unfolding bswap16_def by (intro unat_word_of_nat_id) simp
  moreover have "?m mod 256 = unat w div 256" "?m div 256 = unat w mod 256" using d by simp_all
  ultimately have "bswap16 (bswap16 w) = word_of_nat (256 * (unat w div 256) + unat w mod 256)"
    by (simp add: bswap16_def [of "bswap16 w"])
  then show ?thesis unfolding mult_div_mod_eq by simp
qed


section \<open>Dotted notation\<close>

text \<open>\<^verbatim>\<open>inet_ntop(AF_INET, ...)\<close>.\<close>

fun dotted :: "nat list \<Rightarrow> string" where
  "dotted [] = []"
| "dotted [o1] = show_nat o1"
| "dotted (o1 # os) = show_nat o1 @ ''.'' @ dotted os"

definition octets :: "32 word \<Rightarrow> nat list" where
  "octets a = map of_char (store32 a)"

definition inet_ntop4 :: "32 word \<Rightarrow> string" where
  "inet_ntop4 a = dotted (octets a)"

text \<open>
  \<^verbatim>\<open>inet_pton(AF_INET, ...)\<close>: the parts read so far and the value of the part being read, if it has a digit
  already. A part has no leading zero and is at most 255, and there are four of them.
\<close>

fun pton4 :: "nat list \<Rightarrow> nat option \<Rightarrow> string \<Rightarrow> nat list option" where
  "pton4 os cur [] = (case cur of Some v \<Rightarrow> if length os = 3 then Some (os @ [v]) else None | None \<Rightarrow> None)"
| "pton4 os cur (c # cs) =
     (if isdigit c then
        let v = (case cur of None \<Rightarrow> 0 | Some v \<Rightarrow> v); v' = 10 * v + (of_char c - 48) in
        if cur = Some 0 \<or> v' > 255 \<or> cur = None \<and> length os = 4 then None else pton4 os (Some v') cs
      else if c = CHR ''.'' then
        (case cur of None \<Rightarrow> None | Some v \<Rightarrow> if length os = 3 then None else pton4 (os @ [v]) None cs)
      else None)"

definition inet_pton4 :: "string \<Rightarrow> 32 word option" where
  "inet_pton4 s = map_option (\<lambda>os. load32 (map char_of os)) (pton4 [] None (takeWhile (\<lambda>c. c \<noteq> NUL) s))"

text \<open>The digits of a part are read back to its value.\<close>

lemma pton4_digit:
  assumes "d < 10" and "v \<noteq> 0" and "10 * v + d \<le> 255"
  shows "pton4 os (Some v) (char_of (48 + d) # cs) = pton4 os (Some (10 * v + d)) cs"
proof -
  have "(of_char (char_of (48 + d)) :: nat) = 48 + d" using of_char_digit [of d, where 'a = nat] assms(1) by simp
  with assms isdigit_char_of [OF assms(1)] show ?thesis by (simp add: Let_def del: of_char_of isdigit_char_of)
qed

lemma pton4_first:
  assumes "d < 10" and "length os \<le> 3"
  shows "pton4 os None (char_of (48 + d) # cs) = pton4 os (Some d) cs"
proof -
  have "(of_char (char_of (48 + d)) :: nat) = 48 + d" using of_char_digit [of d, where 'a = nat] assms(1) by simp
  with assms isdigit_char_of [OF assms(1)] show ?thesis by (simp add: Let_def del: of_char_of isdigit_char_of)
qed

lemma pton4_show:
  assumes "n \<le> 255" and "length os \<le> 3"
  shows "pton4 os None (show_nat n @ rest) = pton4 os (Some n) rest"
  using assms(1)
proof (induction n arbitrary: rest rule: show_nat.induct)
  case (1 n)
  show ?case
  proof (cases "n < 10")
    case True
    then show ?thesis using pton4_first [OF True assms(2)] by (simp add: show_nat.simps [of n])
  next
    case False
    have "pton4 os None (show_nat n @ rest) = pton4 os (Some (n div 10)) (char_of (48 + n mod 10) # rest)"
      using "1.IH" [OF False] "1.prems" False by (simp add: show_nat.simps [of n])
    also have "\<dots> = pton4 os (Some (10 * (n div 10) + n mod 10)) rest"
      using "1.prems" False by (intro pton4_digit) auto
    finally show ?thesis by simp
  qed
qed

lemma not_digit_dot [simp]: "\<not> isdigit (CHR ''.'')" "\<not> isdigit NUL" "\<not> isdigit (CHR '':'')"
  by (simp_all add: isdigit_def)

lemma show_nat_chars [simp]: "CHR ''.'' \<notin> set (show_nat n)" "NUL \<notin> set (show_nat n)" "CHR '':'' \<notin> set (show_nat n)"
  using show_nat_digits [of _ n] not_digit_dot by blast+

lemma pton4_dotted:
  "\<forall>x \<in> set xs. x \<le> 255 \<Longrightarrow> xs \<noteq> [] \<Longrightarrow> length os + length xs = 4 \<Longrightarrow> pton4 os None (dotted xs) = Some (os @ xs)"
proof (induction xs arbitrary: os rule: dotted.induct)
  case (2 o1)
  then show ?case using pton4_show [of o1 os "[]"] by simp
next
  case (3 o1 o2 os')
  then have "pton4 os None (dotted (o1 # o2 # os')) = pton4 (os @ [o1]) None (dotted (o2 # os'))"
    using pton4_show [of o1 os "CHR ''.'' # dotted (o2 # os')"] by simp
  with 3 show ?case by simp
qed simp

lemma octets_byte: "x \<in> set (octets a) \<Longrightarrow> x \<le> 255"
proof -
  assume "x \<in> set (octets a)"
  then obtain c where "x = of_char c" by (auto simp: octets_def)
  moreover have "of_char c < (256 :: nat)" by simp
  ultimately show ?thesis by linarith
qed

lemma length_octets [simp]: "length (octets a) = 4"
  by (simp add: octets_def)

lemma octets_of: "octets a = [x1, x2, x3, x4] \<Longrightarrow> load32 (map char_of [x1, x2, x3, x4]) = a"
proof -
  assume "octets a = [x1, x2, x3, x4]"
  then have "map char_of [x1, x2, x3, x4] = map char_of (map of_char (store32 a) :: nat list)" by (simp add: octets_def)
  also have "\<dots> = store32 a" by (simp add: comp_def)
  finally show ?thesis by simp
qed

lemma octets4: obtains x1 x2 x3 x4 where "octets a = [x1, x2, x3, x4]"
proof -
  have "length (octets a) = Suc (Suc (Suc (Suc 0)))" by simp
  then show thesis using that unfolding length_Suc_conv by auto
qed

lemma dotted_no: "c \<noteq> CHR ''.'' \<Longrightarrow> \<not> isdigit c \<Longrightarrow> c \<notin> set (dotted xs)"
  by (induction xs rule: dotted.induct) (auto dest: show_nat_digits)

lemma ntop_no_nul: "NUL \<notin> set (inet_ntop4 a)" "CHR '':'' \<notin> set (inet_ntop4 a)"
  by (simp_all add: inet_ntop4_def dotted_no)

theorem pton_ntop: "inet_pton4 (inet_ntop4 a) = Some a"
proof -
  obtain x1 x2 x3 x4 where o: "octets a = [x1, x2, x3, x4]" by (rule octets4)
  have "pton4 [] None (inet_ntop4 a) = Some (octets a)"
    using pton4_dotted [of "octets a" "[]"] octets_byte [of _ a] o by (simp add: inet_ntop4_def)
  moreover have "takeWhile (\<lambda>c. c \<noteq> NUL) (inet_ntop4 a) = inet_ntop4 a"
    using ntop_no_nul(1) [of a] by (auto simp: takeWhile_eq_all_conv)
  ultimately show ?thesis using octets_of [OF o] o by (simp only: inet_pton4_def option.map)
qed

lemma length_ntop: "length (inet_ntop4 a) \<le> 15"
proof -
  obtain x1 x2 x3 x4 where o: "octets a = [x1, x2, x3, x4]" by (rule octets4)
  have "length (show_nat x) \<le> 3" if "x \<in> set (octets a)" for x
    using length_show_nat [of x 2] octets_byte [OF that] by simp
  then have "length (show_nat x1) \<le> 3" "length (show_nat x2) \<le> 3" "length (show_nat x3) \<le> 3" "length (show_nat x4) \<le> 3"
    using o by simp_all
  with o show ?thesis by (simp add: inet_ntop4_def)
qed


section \<open>Operations\<close>

text \<open>\<open>sockets::toIp\<close>, \<open>toIpPort\<close> and \<open>fromIpPort\<close>; the buffers are the strings they end up holding.\<close>

definition sockets_toIp :: "nat \<Rightarrow> sockaddr_in \<Rightarrow> string res" where
  "sockets_toIp sz addr = cassert (sz \<ge> 16) (Inr (inet_ntop4 (s_addr addr)))"

definition sockets_toIpPort :: "nat \<Rightarrow> sockaddr_in \<Rightarrow> string res" where
  "sockets_toIpPort sz addr =
     res_bind (sockets_toIp 16 addr) (\<lambda>host.
     let port = bswap16 (sin_port addr) in
     Inr (snprintf sz (host @ '':'' @ show_nat (unat port))))"

definition fromIpPort :: "string \<Rightarrow> 16 word \<Rightarrow> sockaddr_in \<Rightarrow> sockaddr_in" where
  "fromIpPort ip port addr =
     (let addr = addr\<lparr>sin_family := AF_INET, sin_port := bswap16 port\<rparr> in
      case inet_pton4 ip of Some a \<Rightarrow> addr\<lparr>s_addr := a\<rparr> | None \<Rightarrow> addr)"

definition InetAddress_port :: "16 word \<Rightarrow> sockaddr_in" where
  "InetAddress_port port = zero_addr\<lparr>sin_family := AF_INET, s_addr := bswap32 0, sin_port := bswap16 port\<rparr>"

definition InetAddress_ip :: "string \<Rightarrow> 16 word \<Rightarrow> sockaddr_in" where
  "InetAddress_ip ip port = fromIpPort ip port zero_addr"

definition toIpPort :: "sockaddr_in \<Rightarrow> string res" where
  "toIpPort addr = sockets_toIpPort 32 addr"

definition toIp :: "sockaddr_in \<Rightarrow> string res" where
  "toIp addr = sockets_toIp 32 addr"

lemma toIp_eq: "toIp a = Inr (inet_ntop4 (s_addr a))"
  by (simp add: toIp_def sockets_toIp_def)

lemma length_port: "length (show_nat (unat (w :: 16 word))) \<le> 5"
proof -
  have "unat w < 65536" using unsigned_less [of w, where 'a = nat] by simp
  then show ?thesis using length_show_nat [of "unat w" 4] by simp
qed

text \<open>Nothing is cut off by the buffers of 16 and 32 bytes.\<close>

lemma toIpPort_eq: "toIpPort a = Inr (inet_ntop4 (s_addr a) @ '':'' @ show_nat (unat (bswap16 (sin_port a))))"
proof -
  have "length (inet_ntop4 (s_addr a) @ '':'' @ show_nat (unat (bswap16 (sin_port a)))) \<le> 31"
    using length_ntop [of "s_addr a"] length_port [of "bswap16 (sin_port a)"] by simp
  then show ?thesis by (simp add: toIpPort_def sockets_toIpPort_def sockets_toIp_def snprintf_def)
qed

lemma toIpPort_length: "toIpPort a = Inr s \<Longrightarrow> length s \<le> 21"
  using length_ntop [of "s_addr a"] length_port [of "bswap16 (sin_port a)"] by (auto simp: toIpPort_eq)

lemma ip_port_inj:
  assumes "x @ '':'' @ y = x' @ '':'' @ y'" and "CHR '':'' \<notin> set x" and "CHR '':'' \<notin> set x'"
  shows "x = x' \<and> y = y'"
proof -
  have "takeWhile (\<lambda>c. c \<noteq> CHR '':'') (x @ '':'' @ y) = x" "takeWhile (\<lambda>c. c \<noteq> CHR '':'') (x' @ '':'' @ y') = x'"
    using assms(2,3) by (auto simp: takeWhile_append)
  with assms(1) show ?thesis by auto
qed


section \<open>Properties\<close>

text \<open>
  C37. An Internet address survives the way through its printed form: the constructor from \<open>toIp\<close> and the
  port gives the address back; \<open>toIpPort\<close> is the address, a colon and the port, never cut off by its
  buffer, and different for different addresses.
\<close>

theorem address_roundtrip:
  assumes "sin_family a = AF_INET" and "sin_family b = AF_INET"
  shows "\<exists>ip s. toIp a = Inr ip \<and> InetAddress_ip ip (bswap16 (sin_port a)) = a \<and>
           toIpPort a = Inr s \<and> s = ip @ '':'' @ show_nat (unat (bswap16 (sin_port a))) \<and> length s \<le> 21 \<and>
           (toIpPort b = Inr s \<longrightarrow> a = b)"
proof -
  let ?s = "inet_ntop4 (s_addr a) @ '':'' @ show_nat (unat (bswap16 (sin_port a)))"
  have "a = b" if "toIpPort b = Inr ?s"
  proof -
    have "inet_ntop4 (s_addr b) = inet_ntop4 (s_addr a) \<and>
        show_nat (unat (bswap16 (sin_port b))) = show_nat (unat (bswap16 (sin_port a)))"
      using that ip_port_inj [of "inet_ntop4 (s_addr b)" _ "inet_ntop4 (s_addr a)"] ntop_no_nul(2) by (simp add: toIpPort_eq)
    then have "s_addr b = s_addr a" "bswap16 (sin_port b) = bswap16 (sin_port a)"
      by (metis pton_ntop option.inject, simp add: show_nat_inj word_unat_eq_iff)
    then show "a = b" using assms by (metis bswap16_bswap16 sockaddr_in.equality unit.exhaust)
  qed
  moreover have "InetAddress_ip (inet_ntop4 (s_addr a)) (bswap16 (sin_port a)) = a"
    using assms(1) by (simp add: InetAddress_ip_def fromIpPort_def pton_ntop zero_addr_def)
  ultimately show ?thesis using toIpPort_length [OF toIpPort_eq] by (simp add: toIp_eq toIpPort_eq)
qed

theorem address_roundtrip_witness:
  "\<exists>ip s. toIp (InetAddress_port 8000) = Inr ip \<and> InetAddress_ip ip 8000 = InetAddress_port 8000 \<and>
     toIpPort (InetAddress_port 8000) = Inr s"
  using address_roundtrip [of "InetAddress_port 8000" "InetAddress_port 8000"]
  by (auto simp: InetAddress_port_def zero_addr_def)

text \<open>
  A text that is not an address in dotted notation is not refused: the address becomes \<open>0.0.0.0\<close> with
  the given port, and the program goes on with it.
\<close>

theorem bad_address_accepted:
  assumes "inet_pton4 ip = None"
  shows "InetAddress_ip ip port = InetAddress_port port \<and>
         toIpPort (InetAddress_ip ip port) = Inr (''0.0.0.0:'' @ show_nat (unat port))"
proof -
  have z: "bswap32 0 = 0" by code_simp
  then have eq: "InetAddress_ip ip port = InetAddress_port port"
    using assms by (simp add: InetAddress_ip_def fromIpPort_def InetAddress_port_def zero_addr_def)
  have "inet_ntop4 0 = ''0.0.0.0''" by code_simp
  then have "toIpPort (InetAddress_port port) = Inr (''0.0.0.0:'' @ show_nat (unat port))"
    by (simp add: toIpPort_eq InetAddress_port_def z)
  with eq show ?thesis by simp
qed

theorem bad_address_accepted_witness:
  "InetAddress_ip ''localhost'' 9 = InetAddress_port 9"
proof -
  have "inet_pton4 ''localhost'' = None" by code_simp
  from bad_address_accepted [OF this] show ?thesis by blast
qed

end
