(* ===== verification/TcpServer.thy ===== *)
theory TcpServer
  imports TcpConnection InetAddress Containers
begin

text \<open>
  \<^verbatim>\<open>base/src/TcpServer.cpp\<close> and \<^verbatim>\<open>base/src/EventLoopThreadPool.cpp\<close>: a server accepts connections in its base
  loop and gives each to one of the loops of its pool. Loops are numbers, the base loop is \<open>0\<close>. The
  connection objects are kept in \<open>conns\<close>, with their loop; a pointer is a position there. What the loops
  have been asked to run and have not run yet is in \<open>pending\<close>, one queue per loop. Only the base loop touches
  \<open>connections\<close> and only its own loop touches a connection, so the steps of different loops commute with
  each other except through the queues, and an execution of the threads is a sequence of steps.
\<close>

section \<open>The thread pool\<close>

type_synonym loop_id = nat

record EventLoopThreadPool =
  pool_started :: bool
  numThreads :: int
  next_loop :: nat
  loops :: "loop_id list"
  inits :: "loop_id list"

definition new_EventLoopThreadPool :: EventLoopThreadPool where
  "new_EventLoopThreadPool = \<lparr>pool_started = False, numThreads = 0, next_loop = 0, loops = [], inits = []\<rparr>"

definition pool_setThreadNum :: "int \<Rightarrow> EventLoopThreadPool \<Rightarrow> EventLoopThreadPool" where
  "pool_setThreadNum n p = p\<lparr>numThreads := n\<rparr>"

text \<open>
  Each round of the loop starts a thread and takes the loop that it runs; \<open>cb\<close> says whether there is an init
  callback, \<open>inits\<close> are the loops it was called with.
\<close>

definition pool_start :: "bool \<Rightarrow> EventLoopThreadPool \<Rightarrow> EventLoopThreadPool res" where
  "pool_start cb p =
     cassert (\<not> pool_started p)
       (let ls = map Suc [0..<nat (numThreads p)] in
        Inr (p\<lparr>pool_started := True, loops := loops p @ ls,
               inits := inits p @ (if \<not> cb then [] else if numThreads p = 0 then [0] else ls)\<rparr>))"

definition getNextLoop :: "EventLoopThreadPool \<Rightarrow> (loop_id \<times> EventLoopThreadPool) res" where
  "getNextLoop p =
     (if loops p \<noteq> [] then
        if next_loop p < length (loops p) then
          let l = loops p ! next_loop p; n = Suc (next_loop p) in
          Inr (l, p\<lparr>next_loop := (if n \<ge> length (loops p) then 0 else n)\<rparr>)
        else Inl UndefinedBehaviour
      else Inr (0, p))"


section \<open>The server\<close>

record TcpServer =
  hostport :: string
  ts_name :: string
  started :: bool
  listenning :: bool
  nextConnId :: int
  connections :: "(string \<times> nat) list"
  threadPool :: EventLoopThreadPool

definition new_TcpServer :: "sockaddr_in \<Rightarrow> string \<Rightarrow> TcpServer res" where
  "new_TcpServer listenAddr nameArg =
     res_bind (toIpPort listenAddr) (\<lambda>hp.
     Inr \<lparr>hostport = hp, ts_name = nameArg, started = False, listenning = False, nextConnId = 1, connections = [],
          threadPool = new_EventLoopThreadPool\<rparr>)"

definition setThreadNum :: "int \<Rightarrow> TcpServer \<Rightarrow> TcpServer" where
  "setThreadNum n s = s\<lparr>threadPool := pool_setThreadNum n (threadPool s)\<rparr>"

text \<open>\<^verbatim>\<open>Acceptor::listen\<close> sets \<open>listenning\<close>.\<close>

definition server_start :: "bool \<Rightarrow> TcpServer \<Rightarrow> TcpServer res" where
  "server_start threadInitCallback s =
     res_bind
       (if \<not> started s then
          res_bind (pool_start threadInitCallback (threadPool s)) (\<lambda>p. Inr (s\<lparr>started := True, threadPool := p\<rparr>))
        else Inr s)
       (\<lambda>s. Inr (if \<not> listenning s then s\<lparr>listenning := True\<rparr> else s))"

text \<open>The requests that loops are given.\<close>

datatype call = ConnectEstablished nat | ConnectDestroyed nat | RemoveConnectionInLoop nat

record net =
  srv :: TcpServer
  conns :: "(loop_id \<times> TcpConnection) list"
  pending :: "loop_id \<Rightarrow> call list"

definition queue_call :: "loop_id \<Rightarrow> call \<Rightarrow> net \<Rightarrow> net" where
  "queue_call l f w = w\<lparr>pending := (pending w)(l := pending w l @ [f])\<rparr>"

definition put_conn :: "nat \<Rightarrow> TcpConnection \<Rightarrow> net \<Rightarrow> net" where
  "put_conn i c w = w\<lparr>conns := (conns w)[i := (fst (conns w ! i), c)]\<rparr>"

text \<open>The connection callback of the user acts on the connection.\<close>

definition lift_cb :: "(TcpConnection \<Rightarrow> TcpConnection res) \<Rightarrow> 'u conn_cb" where
  "lift_cb cb st = res_bind (cb (snd st)) (\<lambda>c. Inr (fst st, c))"

definition removeConnectionInLoop :: "nat \<Rightarrow> net \<Rightarrow> net res" where
  "removeConnectionInLoop i w =
     (let nm = conn_name (snd (conns w ! i));
          n = length (filter (\<lambda>e. fst e = nm) (connections (srv w)));
          w = w\<lparr>srv := (srv w)\<lparr>connections := om_erase nm (connections (srv w))\<rparr>\<rparr>
      in cassert (n = 1) (Inr (queue_call (fst (conns w ! i)) (ConnectDestroyed i) w)))"

fun exec_call :: "(TcpConnection \<Rightarrow> TcpConnection res) \<Rightarrow> call \<Rightarrow> net \<Rightarrow> net res" where
  "exec_call cb (ConnectEstablished i) w =
     res_bind (connectEstablished (lift_cb cb) (w, snd (conns w ! i))) (\<lambda>(w, c). Inr (put_conn i c w))"
| "exec_call cb (ConnectDestroyed i) w =
     res_bind (connectDestroyed (lift_cb cb) (w, snd (conns w ! i))) (\<lambda>(w, c). Inr (put_conn i c w))"
| "exec_call cb (RemoveConnectionInLoop i) w = removeConnectionInLoop i w"

text \<open>\<^verbatim>\<open>EventLoop::runInLoop\<close> of loop \<open>l\<close>, called in the thread of loop \<open>cur\<close>.\<close>

definition run_in_loop :: "(TcpConnection \<Rightarrow> TcpConnection res) \<Rightarrow> loop_id \<Rightarrow> loop_id \<Rightarrow> call \<Rightarrow> net \<Rightarrow> net res" where
  "run_in_loop cb cur l f w = (if cur = l then exec_call cb f w else Inr (queue_call l f w))"

definition conn_id_name :: "string \<Rightarrow> string \<Rightarrow> int \<Rightarrow> string" where
  "conn_id_name nm hp k = nm @ snprintf 32 ('':'' @ hp @ ''#'' @ show_int k)"

text \<open>\<open>kw\<close> is how the kernel answers writes on the new socket; the increment of an \<^verbatim>\<open>int\<close> at its maximum is undefined.\<close>

definition newConnection ::
  "(TcpConnection \<Rightarrow> TcpConnection res) \<Rightarrow> int \<Rightarrow> (nat \<Rightarrow> nat \<Rightarrow> nat option) \<Rightarrow> net \<Rightarrow> net res"
where
  "newConnection cb sockfd kw w =
     (let s = srv w in
      res_bind (getNextLoop (threadPool s)) (\<lambda>(ioLoop, p).
      if nextConnId s \<ge> 2 ^ 31 - 1 then Inl UndefinedBehaviour
      else
        let connName = conn_id_name (ts_name s) (hostport s) (nextConnId s);
            i = length (conns w);
            s = s\<lparr>threadPool := p, nextConnId := nextConnId s + 1, connections := om_put connName i (connections s)\<rparr>;
            w = w\<lparr>srv := s, conns := conns w @ [(ioLoop, new_TcpConnection connName sockfd kw)]\<rparr>
        in run_in_loop cb 0 ioLoop (ConnectEstablished i) w))"

definition removeConnection :: "(TcpConnection \<Rightarrow> TcpConnection res) \<Rightarrow> loop_id \<Rightarrow> nat \<Rightarrow> net \<Rightarrow> net res" where
  "removeConnection cb cur i w = run_in_loop cb cur 0 (RemoveConnectionInLoop i) w"

text \<open>The peer closes connection \<open>i\<close>: its loop runs \<open>handleClose\<close>, whose last act is the server's close callback.\<close>

definition close_event :: "(TcpConnection \<Rightarrow> TcpConnection res) \<Rightarrow> nat \<Rightarrow> net \<Rightarrow> net res" where
  "close_event cb i w =
     (case conns w ! i of (l, c) \<Rightarrow>
      res_bind
        (handleClose (lift_cb cb) (\<lambda>(w, c). res_bind (removeConnection cb l i (put_conn i c w)) (\<lambda>w. Inr (w, c))) (w, c))
        (\<lambda>(w, _). Inr w))"

text \<open>The destructor, run in the base loop: the iteration is in the order of the names; then the map is gone.\<close>

definition destroy_TcpServer :: "(TcpConnection \<Rightarrow> TcpConnection res) \<Rightarrow> net \<Rightarrow> net res" where
  "destroy_TcpServer cb w =
     res_bind (res_fold (\<lambda>(_, i) w. run_in_loop cb 0 (fst (conns w ! i)) (ConnectDestroyed i) w) (connections (srv w)) w)
       (\<lambda>w. Inr (w\<lparr>srv := (srv w)\<lparr>connections := []\<rparr>\<rparr>))"

definition new_net :: "TcpServer \<Rightarrow> net" where
  "new_net s = \<lparr>srv = s, conns = [], pending = (\<lambda>_. [])\<rparr>"


text \<open>What the server promises of a connection callback: it leaves a connection in its phase.\<close>

locale connection_callback =
  fixes cb :: "TcpConnection \<Rightarrow> TcpConnection res"
  assumes up_law: "conn_wf c \<Longrightarrow> conn_state c = kConnected \<Longrightarrow>
      \<exists>c'. cb c = Inr c' \<and> conn_wf c' \<and> conn_name c' = conn_name c \<and> conn_state c' \<in> {kConnected, kDisconnecting}"
    and down_law: "conn_wf c \<Longrightarrow> conn_state c = kDisconnected \<Longrightarrow>
      \<exists>c'. cb c = Inr c' \<and> conn_wf c' \<and> conn_name c' = conn_name c \<and> conn_state c' = kDisconnected \<and> watched c' = watched c"

text \<open>\<open>P2PServer::onConnection\<close> and \<open>P2PCServer::onConnection\<close> only print.\<close>

definition onConnection :: "TcpConnection \<Rightarrow> TcpConnection res" where
  "onConnection c = Inr c"

interpretation printing: connection_callback onConnection
  by unfold_locales (simp_all add: onConnection_def)


section \<open>Invariant\<close>

abbreviation cn :: "net \<Rightarrow> nat \<Rightarrow> TcpConnection" where
  "cn w i \<equiv> snd (conns w ! i)"

abbreviation lp :: "net \<Rightarrow> nat \<Rightarrow> loop_id" where
  "lp w i \<equiv> fst (conns w ! i)"

definition listed :: "net \<Rightarrow> nat \<Rightarrow> bool" where
  "listed w i \<longleftrightarrow> map_of (connections (srv w)) (conn_name (cn w i)) = Some i"

fun target :: "call \<Rightarrow> nat" where
  "target (ConnectEstablished i) = i"
| "target (ConnectDestroyed i) = i"
| "target (RemoveConnectionInLoop i) = i"

text \<open>The one request a connection waits for, given its loop, its state and whether the server lists it.\<close>

fun due :: "loop_id \<Rightarrow> loop_id \<Rightarrow> TcpConnection \<Rightarrow> bool \<Rightarrow> call \<Rightarrow> bool" where
  "due l li c b (ConnectEstablished i) \<longleftrightarrow> l = li \<and> conn_state c = kConnecting"
| "due l li c b (RemoveConnectionInLoop i) \<longleftrightarrow> l = 0 \<and> conn_state c = kDisconnected \<and> watched c \<noteq> None \<and> b"
| "due l li c b (ConnectDestroyed i) \<longleftrightarrow> l = li \<and> conn_state c = kDisconnected \<and> watched c \<noteq> None \<and> \<not> b"

text \<open>\<open>cnt l f\<close> is how often \<open>f\<close> waits in loop \<open>l\<close>.\<close>

definition server_inv :: "net \<Rightarrow> (loop_id \<Rightarrow> call \<Rightarrow> nat) \<Rightarrow> bool" where
  [inv_simps]: "server_inv w cnt \<longleftrightarrow>
     om_wf (connections (srv w)) \<and> length (hostport (srv w)) \<le> 19 \<and>
     nextConnId (srv w) = int (length (conns w)) + 1 \<and> nextConnId (srv w) < 2 ^ 31 \<and>
     (loops (threadPool (srv w)) \<noteq> [] \<longrightarrow> next_loop (threadPool (srv w)) < length (loops (threadPool (srv w)))) \<and>
     (\<forall>i < length (conns w). conn_wf (cn w i) \<and>
        conn_name (cn w i) = conn_id_name (ts_name (srv w)) (hostport (srv w)) (int i + 1)) \<and>
     (\<forall>nm j. map_of (connections (srv w)) nm = Some j \<longrightarrow> j < length (conns w) \<and> nm = conn_name (cn w j)) \<and>
     (\<forall>i < length (conns w). (conn_state (cn w i) \<noteq> kDisconnected \<longrightarrow> listed w i) \<and>
        (conn_state (cn w i) = kDisconnected \<and> watched (cn w i) = None \<longrightarrow> \<not> listed w i)) \<and>
     (\<forall>l f. cnt l f = of_bool (target f < length (conns w) \<and> due l (lp w (target f)) (cn w (target f)) (listed w (target f)) f))"

definition net_inv :: "net \<Rightarrow> bool" where
  [inv_simps]: "net_inv w \<longleftrightarrow> server_inv w (\<lambda>l f. count_list (pending w l) f)"

lemma server_invD:
  assumes "server_inv w cnt"
  shows "om_wf (connections (srv w))" and "length (hostport (srv w)) \<le> 19"
    and "nextConnId (srv w) = int (length (conns w)) + 1" and "nextConnId (srv w) < 2 ^ 31"
    and "i < length (conns w) \<Longrightarrow> conn_wf (cn w i)"
    and "i < length (conns w) \<Longrightarrow> conn_name (cn w i) = conn_id_name (ts_name (srv w)) (hostport (srv w)) (int i + 1)"
    and "map_of (connections (srv w)) nm = Some j \<Longrightarrow> j < length (conns w) \<and> nm = conn_name (cn w j)"
    and "i < length (conns w) \<Longrightarrow> conn_state (cn w i) \<noteq> kDisconnected \<Longrightarrow> listed w i"
    and "i < length (conns w) \<Longrightarrow> conn_state (cn w i) = kDisconnected \<Longrightarrow> watched (cn w i) = None \<Longrightarrow> \<not> listed w i"
    and "cnt l f = of_bool (target f < length (conns w) \<and> due l (lp w (target f)) (cn w (target f)) (listed w (target f)) f)"
  using assms unfolding server_inv_def by blast+

text \<open>Within the range of \<^verbatim>\<open>int\<close> the number of a connection fits into its name.\<close>

lemma conn_id_name_inj:
  assumes "length hp \<le> 19" and "i < 2 ^ 31" and "j < 2 ^ 31" and "conn_id_name nm hp (int i) = conn_id_name nm hp (int j)"
  shows "i = j"
proof -
  have "snprintf 32 ('':'' @ hp @ ''#'' @ show_int (int k)) = '':'' @ hp @ ''#'' @ show_nat k" if "k < 2 ^ 31" for k
    using assms(1) length_show_nat [of k 9] that by (simp add: snprintf_def show_int_def)
  with assms(2-4) show ?thesis by (simp add: conn_id_name_def show_nat_inj)
qed

lemma names_distinct:
  assumes "server_inv w cnt" and "i < length (conns w)" and "j < length (conns w)" and "i \<noteq> j"
  shows "conn_name (cn w i) \<noteq> conn_name (cn w j)"
proof
  assume eq: "conn_name (cn w i) = conn_name (cn w j)"
  have "length (conns w) < 2147483647" using server_invD(3,4) [OF assms(1)] by simp
  then have "Suc i < 2 ^ 31" "Suc j < 2 ^ 31" using assms(2,3) by simp_all
  with conn_id_name_inj [OF server_invD(2) [OF assms(1)], of "Suc i" "Suc j" "ts_name (srv w)"] eq assms
    server_invD(6) [OF assms(1)] show False by (simp add: add.commute)
qed

lemma server_inv_pending [simp]: "server_inv (w\<lparr>pending := q\<rparr>) cnt = server_inv w cnt"
  by (simp add: server_inv_def listed_def)

text \<open>A step that changes connection \<open>i\<close> and its listing leaves the listing of the others.\<close>

lemma listed_upd:
  assumes inv: "server_inv w cnt" and i: "i < length (conns w)" and nm: "conn_name c' = conn_name (cn w i)"
    and m: "m = connections (srv w) \<and> b = listed w i \<or> m = om_erase (conn_name (cn w i)) (connections (srv w)) \<and> \<not> b"
    and w': "w' = w\<lparr>srv := (srv w)\<lparr>connections := m\<rparr>, conns := (conns w)[i := (lp w i, c')]\<rparr>"
  shows "listed w' i = b" and "j \<noteq> i \<Longrightarrow> j < length (conns w) \<Longrightarrow> listed w' j = listed w j"
    and "j < length (conns w) \<Longrightarrow> conn_name (cn w' j) = conn_name (cn w j)"
proof -
  have names: "conn_name (cn w' j) = conn_name (cn w j)" if "j < length (conns w)" for j
    using nm i by (cases "j = i") (simp_all add: that w')
  have look: "map_of m nm = map_of (connections (srv w)) nm" if "nm \<noteq> conn_name (cn w i)" for nm
    using m that by (auto simp: om_erase_lookup)
  show "listed w' i = b"
    using m names [OF i] by (auto simp: listed_def om_erase_lookup w')
  show "listed w' j = listed w j" if "j \<noteq> i" "j < length (conns w)"
    using look [of "conn_name (cn w j)"] names_distinct [OF inv that(2) i that(1)] names [OF that(2)] by (simp add: listed_def w')
  show "conn_name (cn w' j) = conn_name (cn w j)" if "j < length (conns w)" by (rule names [OF that])
qed

text \<open>How many requests a connection still needs, and all of them.\<close>

definition conn_debt :: "TcpConnection \<Rightarrow> bool \<Rightarrow> nat" where
  "conn_debt c b =
     (if conn_state c = kConnecting then 1
      else if conn_state c = kDisconnected \<and> watched c \<noteq> None then if b then 2 else 1
      else 0)"

definition debt :: "net \<Rightarrow> nat" where
  "debt w = (\<Sum>i < length (conns w). conn_debt (cn w i) (listed w i))"

lemma debt_pending [simp]: "debt (w\<lparr>pending := q\<rparr>) = debt w" "debt (queue_call l f w) = debt w"
  by (simp_all add: debt_def listed_def queue_call_def)

lemma debt_upd:
  assumes "server_inv w cnt" and i: "i < length (conns w)" and "conn_name c' = conn_name (cn w i)"
    and "m = connections (srv w) \<and> b = listed w i \<or> m = om_erase (conn_name (cn w i)) (connections (srv w)) \<and> \<not> b"
  shows "debt (w\<lparr>srv := (srv w)\<lparr>connections := m\<rparr>, conns := (conns w)[i := (lp w i, c')]\<rparr>) + conn_debt (cn w i) (listed w i) =
    debt w + conn_debt c' b" (is "debt ?w + _ = _")
proof -
  note l = listed_upd [OF assms refl]
  let ?I = "{..< length (conns w)}"
  have "debt ?w = conn_debt c' b + (\<Sum>j \<in> ?I - {i}. conn_debt (cn ?w j) (listed ?w j))"
    using i l(1) by (simp add: debt_def sum.remove [of ?I i])
  also have "(\<Sum>j \<in> ?I - {i}. conn_debt (cn ?w j) (listed ?w j)) = (\<Sum>j \<in> ?I - {i}. conn_debt (cn w j) (listed w j))"
    using l(2) by (intro sum.cong) auto
  finally show ?thesis using i by (simp add: debt_def sum.remove [of ?I i])
qed

text \<open>A step that changes connection \<open>i\<close>, its listing and its requests keeps the invariant.\<close>

lemma inv_upd:
  assumes inv: "server_inv w cnt" and i: "i < length (conns w)"
    and c': "conn_wf c'" "conn_name c' = conn_name (cn w i)"
    and m: "m = connections (srv w) \<and> b = listed w i \<or> m = om_erase (conn_name (cn w i)) (connections (srv w)) \<and> \<not> b"
    and b: "conn_state c' \<noteq> kDisconnected \<Longrightarrow> b" "conn_state c' = kDisconnected \<Longrightarrow> watched c' = None \<Longrightarrow> \<not> b"
    and oth: "\<And>l f. target f \<noteq> i \<Longrightarrow> cnt' l f = cnt l f"
    and own: "\<And>l f. target f = i \<Longrightarrow> cnt' l f = of_bool (due l (lp w i) c' b f)"
  shows "server_inv (w\<lparr>srv := (srv w)\<lparr>connections := m\<rparr>, conns := (conns w)[i := (lp w i, c')]\<rparr>) cnt'"
proof -
  let ?w = "w\<lparr>srv := (srv w)\<lparr>connections := m\<rparr>, conns := (conns w)[i := (lp w i, c')]\<rparr>"
  note D = server_invD [OF inv]
  note l = listed_upd [OF inv i c'(2) m refl]
  note li = l(1) and lj = l(2) and nm = l(3)
  have sub: "map_of m nm = Some j \<Longrightarrow> map_of (connections (srv w)) nm = Some j" for nm j
    using m by (auto simp: om_erase_lookup split: if_splits)
  have "om_wf m" using m D(1) om_erase_wf by blast
  moreover have "cnt' l f = of_bool (target f < length (conns w) \<and> due l (lp ?w (target f)) (cn ?w (target f)) (listed ?w (target f)) f)" for l f
    using oth [of f l] own [of f l] D(10) [of l f] i li lj [of "target f"] by (cases "target f = i") (auto simp: nth_list_update)
  moreover have "conn_wf (cn ?w j)" "(conn_state (cn ?w j) \<noteq> kDisconnected \<longrightarrow> listed ?w j) \<and>
      (conn_state (cn ?w j) = kDisconnected \<and> watched (cn ?w j) = None \<longrightarrow> \<not> listed ?w j)" if "j < length (conns w)" for j
    using D(5,8,9) [of j] that c'(1) b li lj [of j] i by (cases "j = i"; simp)+
  ultimately show ?thesis
    using inv sub nm by (simp add: server_inv_def [of ?w] server_inv_def [of w]) metis
qed


lemma net_inv_queue:
  "net_inv (queue_call l f w) \<longleftrightarrow> server_inv w (\<lambda>l' g. count_list (pending w l') g + of_bool (l' = l \<and> g = f))"
proof -
  have "(\<lambda>l' g. count_list (pending (queue_call l f w) l') g) =
      (\<lambda>l' g. count_list (pending w l') g + of_bool (l' = l \<and> g = f))" by (auto simp: fun_eq_iff queue_call_def)
  then show ?thesis unfolding net_inv_def by (simp only:) (simp add: queue_call_def)
qed

text \<open>A connection waits for at most one request.\<close>

lemma due_unique: "due l li c b f \<Longrightarrow> due l' li c b g \<Longrightarrow> target f = target g \<Longrightarrow> l' = l \<and> g = f"
  by (cases f; cases g) auto

lemma not_due [simp]: "conn_state c \<in> {kConnected, kDisconnecting} \<Longrightarrow> \<not> due l li c b f"
  by (cases f) auto

lemma not_due_removed [simp]: "conn_state c = kDisconnected \<Longrightarrow> watched c = None \<Longrightarrow> \<not> due l li c b f"
  by (cases f) auto

lemma request_due:
  assumes inv: "server_inv w (\<lambda>l' g. C l' g + of_bool (l' = l \<and> g = f))"
  shows "target f < length (conns w)" and "due l (lp w (target f)) (cn w (target f)) (listed w (target f)) f"
    and "target g = target f \<Longrightarrow> C l' g = 0"
proof -
  show d: "target f < length (conns w)" "due l (lp w (target f)) (cn w (target f)) (listed w (target f)) f"
    using server_invD(10) [OF inv, of l f] by (auto simp: of_bool_def split: if_splits)
  assume t: "target g = target f"
  show "C l' g = 0"
  proof (cases "l' = l \<and> g = f")
    case True
    then show ?thesis using server_invD(10) [OF inv, of l f] d by simp
  next
    case False
    then have "\<not> due l' (lp w (target f)) (cn w (target f)) (listed w (target f)) g"
      using due_unique [OF d(2)] t by metis
    then show ?thesis using server_invD(10) [OF inv, of l' g] False t by simp
  qed
qed

text \<open>One entry per listed name.\<close>

lemma listed_once:
  assumes "om_wf m" and "map_of m k = Some v"
  shows "length (filter (\<lambda>e. fst e = k) m) = 1"
  using assms
proof (induction m)
  case (Cons e m)
  show ?case
  proof (cases "fst e = k")
    case True
    with Cons.prems(1) have "filter (\<lambda>e. fst e = k) m = []" by (auto simp: om_wf_def filter_empty_conv)
    with True show ?thesis by simp
  qed (use Cons in \<open>auto simp: om_wf_def split: if_splits\<close>)
qed simp


section \<open>Steps\<close>

lemma remove_ok:
  assumes inv: "server_inv w (\<lambda>l' g. count_list (pending w l') g + of_bool (l' = l \<and> g = RemoveConnectionInLoop i))"
  shows "\<exists>w'. removeConnectionInLoop i w = Inr w' \<and> net_inv w' \<and> debt w' < debt w"
proof -
  note r = request_due [OF inv]
  have i: "i < length (conns w)" and st: "conn_state (cn w i) = kDisconnected" "watched (cn w i) \<noteq> None" "listed w i"
    using r(1,2) by auto
  let ?m = "om_erase (conn_name (cn w i)) (connections (srv w))"
  let ?w = "w\<lparr>srv := (srv w)\<lparr>connections := ?m\<rparr>, conns := (conns w)[i := (lp w i, cn w i)]\<rparr>"
  have "server_inv ?w (\<lambda>l g. count_list (pending w l) g + of_bool (l = lp w i \<and> g = ConnectDestroyed i))"
  proof (rule inv_upd [OF inv i, where b = False])
    fix l f assume "target f = i"
    then show "count_list (pending w l) f + of_bool (l = lp w i \<and> f = ConnectDestroyed i) = of_bool (due l (lp w i) (cn w i) False f)"
      using r(3) [of f l] st by (cases f) auto
  qed (use server_invD(5) [OF inv i] st in auto)
  then have "net_inv (queue_call (lp w i) (ConnectDestroyed i) ?w)"
    by (simp add: net_inv_queue)
  moreover have "removeConnectionInLoop i w = Inr (queue_call (lp w i) (ConnectDestroyed i) ?w)"
    using listed_once [OF server_invD(1) [OF inv]] st(3) by (simp add: removeConnectionInLoop_def listed_def Let_def)
  moreover have "debt ?w < debt w"
    using debt_upd [OF inv i refl, of ?m False] st by (simp add: conn_debt_def)
  ultimately show ?thesis by auto
qed

lemma destroyed_ok:
  assumes inv: "server_inv w (\<lambda>l' g. count_list (pending w l') g + of_bool (l' = l \<and> g = ConnectDestroyed i))"
  shows "\<exists>w'. exec_call cb (ConnectDestroyed i) w = Inr w' \<and> net_inv w' \<and> debt w' < debt w"
proof -
  note r = request_due [OF inv]
  have i: "i < length (conns w)" and st: "conn_state (cn w i) = kDisconnected" "watched (cn w i) \<noteq> None" "\<not> listed w i"
    using r(1,2) by auto
  have wf: "conn_wf (cn w i)" using server_invD(5) [OF inv i] .
  then have ev: "events (chan (cn w i)) = 0" "watched (cn w i) = Some (False, 0)" using st by (auto simp: conn_wf_def)
  let ?c = "(cn w i)\<lparr>watched := None\<rparr>"
  have "server_inv (w\<lparr>srv := (srv w)\<lparr>connections := connections (srv w)\<rparr>, conns := (conns w)[i := (lp w i, ?c)]\<rparr>)
      (\<lambda>l g. count_list (pending w l) g)"
  proof (rule inv_upd [OF inv i, where b = False])
    show "conn_wf ?c" using wf st by (simp add: conn_wf_def)
  qed (use st r(3) in auto)
  then have "net_inv (put_conn i ?c w)" by (simp add: net_inv_def put_conn_def)
  moreover have "exec_call cb (ConnectDestroyed i) w = Inr (put_conn i ?c w)"
    using st ev by (simp add: connectDestroyed_def ch_remove_def isNoneEvent_def kNoneEvent_def)
  moreover have "debt (put_conn i ?c w) < debt w"
    using debt_upd [OF inv i, of ?c "connections (srv w)" "listed w i"] st by (simp add: conn_debt_def put_conn_def)
  ultimately show ?thesis by blast
qed

context connection_callback
begin

lemma established_ok:
  assumes inv: "server_inv w (\<lambda>l' g. count_list (pending w l') g + of_bool (l' = l \<and> g = ConnectEstablished i))"
  shows "\<exists>w'. exec_call cb (ConnectEstablished i) w = Inr w' \<and> net_inv w' \<and> debt w' < debt w"
proof -
  note r = request_due [OF inv]
  have i: "i < length (conns w)" and st: "conn_state (cn w i) = kConnecting" using r(1,2) by auto
  have wf: "conn_wf (cn w i)" using server_invD(5) [OF inv i] .
  have li: "listed w i" using server_invD(8) [OF inv i] st by simp
  have nm: "conn_name (established (cn w i)) = conn_name (cn w i)" by (simp add: established_def)
  obtain c where c: "cb (established (cn w i)) = Inr c" "conn_wf c" "conn_name c = conn_name (cn w i)"
      "conn_state c \<in> {kConnected, kDisconnecting}"
    using up_law [OF established_wf(1,2) [OF wf st]] nm by auto
  have "server_inv (w\<lparr>srv := (srv w)\<lparr>connections := connections (srv w)\<rparr>, conns := (conns w)[i := (lp w i, c)]\<rparr>)
      (\<lambda>l g. count_list (pending w l) g)"
    by (rule inv_upd [OF inv i c(2,3), where b = True]) (use c(4) li r(3) in auto)
  then have "net_inv (put_conn i c w)" by (simp add: net_inv_def put_conn_def)
  moreover have "exec_call cb (ConnectEstablished i) w = Inr (put_conn i c w)"
    using st c(1) by (simp add: connectEstablished_def Let_def established_def [symmetric] lift_cb_def)
  moreover have "debt (put_conn i c w) < debt w"
    using debt_upd [OF inv i c(3), of "connections (srv w)" "listed w i"] st c(4) by (auto simp: conn_debt_def put_conn_def)
  ultimately show ?thesis by blast
qed

lemma exec_ok:
  assumes "server_inv w (\<lambda>l' g. count_list (pending w l') g + of_bool (l' = l \<and> g = f))"
  shows "\<exists>w'. exec_call cb f w = Inr w' \<and> net_inv w' \<and> debt w' < debt w"
  using assms established_ok destroyed_ok remove_ok by (cases f) auto

lemma run_in_loop_ok:
  assumes "server_inv w (\<lambda>l' g. count_list (pending w l') g + of_bool (l' = l \<and> g = f))"
  shows "\<exists>w'. run_in_loop cb cur l f w = Inr w' \<and> net_inv w'"
proof (cases "cur = l")
  case False
  with assms show ?thesis by (simp add: run_in_loop_def net_inv_queue)
qed (use exec_ok [OF assms] in \<open>auto simp: run_in_loop_def\<close>)

lemma close_ok:
  assumes inv: "net_inv w" and i: "i < length (conns w)" and st: "conn_state (cn w i) \<in> {kConnected, kDisconnecting}"
  shows "\<exists>w'. close_event cb i w = Inr w' \<and> net_inv w'"
proof -
  have inv': "server_inv w (\<lambda>l f. count_list (pending w l) f)" using inv by (simp add: net_inv_def)
  note D = server_invD [OF inv']
  have li: "listed w i" using D(8) [OF i] st by auto
  have nm: "conn_name (closed (cn w i)) = conn_name (cn w i)" by (simp add: closed_def)
  obtain c where c: "cb (closed (cn w i)) = Inr c" "conn_wf c" "conn_name c = conn_name (cn w i)"
      "conn_state c = kDisconnected" "watched c = Some (False, 0)"
    using down_law [OF closed_wf(1,2) [OF D(5) [OF i] st]] closed_wf(3) [OF D(5) [OF i] st] nm by auto
  have zero: "count_list (pending w l) f = 0" if "target f = i" for l f
    using D(10) [of l f] st that by simp
  have "server_inv (w\<lparr>srv := (srv w)\<lparr>connections := connections (srv w)\<rparr>, conns := (conns w)[i := (lp w i, c)]\<rparr>)
      (\<lambda>l' g. count_list (pending w l') g + of_bool (l' = 0 \<and> g = RemoveConnectionInLoop i))"
  proof (rule inv_upd [OF inv' i c(2,3), where b = True])
    fix l f assume "target f = i"
    then show "count_list (pending w l) f + of_bool (l = 0 \<and> f = RemoveConnectionInLoop i) = of_bool (due l (lp w i) c True f)"
      using zero [of f l] c(4,5) by (cases f) auto
  qed (use li c(5) in auto)
  then have "server_inv (put_conn i c w)
      (\<lambda>l' g. count_list (pending (put_conn i c w) l') g + of_bool (l' = 0 \<and> g = RemoveConnectionInLoop i))"
    by (simp add: put_conn_def)
  from run_in_loop_ok [OF this, of "lp w i"] obtain w' where w': "removeConnection cb (lp w i) i (put_conn i c w) = Inr w'" "net_inv w'"
    by (auto simp: removeConnection_def)
  have "close_event cb i w = Inr w'"
    using c(1) w'(1)
    by (cases "conns w ! i") (simp add: close_event_def handleClose_def lift_cb_def closed_def [symmetric] Let_def)
  with w'(2) show ?thesis by blast
qed

lemma run_ok:
  assumes "net_inv w" and "pending w l = f # fs"
  shows "\<exists>w'. exec_call cb f (w\<lparr>pending := (pending w)(l := fs)\<rparr>) = Inr w' \<and> net_inv w' \<and> debt w' < debt w"
proof -
  have "(\<lambda>l' g. count_list (((pending w)(l := fs)) l') g + of_bool (l' = l \<and> g = f)) = (\<lambda>l' g. count_list (pending w l') g)"
    using assms(2) by (auto simp: fun_eq_iff)
  with assms(1) have "server_inv (w\<lparr>pending := (pending w)(l := fs)\<rparr>)
      (\<lambda>l' g. count_list (pending (w\<lparr>pending := (pending w)(l := fs)\<rparr>) l') g + of_bool (l' = l \<and> g = f))"
    by (simp add: net_inv_def del: fun_upd_apply)
  from exec_ok [OF this] show ?thesis by simp
qed

end

lemma getNextLoop_ok:
  assumes "loops p \<noteq> [] \<longrightarrow> next_loop p < length (loops p)"
  obtains l p' where "getNextLoop p = Inr (l, p')" and "loops p' \<noteq> [] \<longrightarrow> next_loop p' < length (loops p')"
  using assms that by (cases "loops p = []") (auto simp: getNextLoop_def Let_def)

text \<open>The state after the constructor of a new connection, before its establishment is asked for.\<close>

lemma inv_append:
  assumes inv: "server_inv w cnt" and room: "nextConnId (srv w) < 2 ^ 31 - 1"
    and kw: "\<forall>t len n. kw t len = Some n \<longrightarrow> n \<le> len"
    and p: "loops p \<noteq> [] \<longrightarrow> next_loop p < length (loops p)"
    and nm: "nm = conn_id_name (ts_name (srv w)) (hostport (srv w)) (nextConnId (srv w))"
  shows "server_inv (w\<lparr>srv := (srv w)\<lparr>threadPool := p, nextConnId := nextConnId (srv w) + 1,
                         connections := om_put nm (length (conns w)) (connections (srv w))\<rparr>,
                       conns := conns w @ [(l, new_TcpConnection nm fd kw)]\<rparr>)
           (\<lambda>l' g. cnt l' g + of_bool (l' = l \<and> g = ConnectEstablished (length (conns w))))"
    (is "server_inv ?w _")
proof -
  note D = server_invD [OF inv]
  let ?n = "length (conns w)"
  have len: "Suc ?n < 2 ^ 31" using D(3) room by simp
  have fresh: "conn_name (cn w j) \<noteq> nm" if "j < ?n" for j
    using conn_id_name_inj [OF D(2), of "Suc j" "Suc ?n" "ts_name (srv w)"] that len D(3) D(6) [OF that]
    by (auto simp: nm add.commute)
  have look: "map_of (connections (srv ?w)) = (map_of (connections (srv w)))(nm \<mapsto> ?n)" by (simp add: om_put_lookup)
  have old: "cn ?w j = cn w j" "lp ?w j = lp w j" "listed ?w j = listed w j" if "j < ?n" for j
    using that fresh [OF that] by (simp_all add: nth_append listed_def om_put_lookup)
  have new: "cn ?w ?n = new_TcpConnection nm fd kw" "lp ?w ?n = l" "listed ?w ?n"
    by (simp_all add: listed_def om_put_lookup new_TcpConnection_def)
  have c: "conn_wf (cn ?w ?n)" "conn_name (cn ?w ?n) = nm" "conn_state (cn ?w ?n) = kConnecting"
    unfolding new(1) using new_conn_wf [OF kw] by (simp_all add: new_TcpConnection_def)
  have cnt: "cnt l' f + of_bool (l' = l \<and> f = ConnectEstablished ?n) =
      of_bool (target f < length (conns ?w) \<and> due l' (lp ?w (target f)) (cn ?w (target f)) (listed ?w (target f)) f)" for l' f
  proof (cases "target f = ?n")
    case True
    then show ?thesis using D(10) [of l' f] c(3) new by (cases f) auto
  next
    case False
    then show ?thesis using D(10) [of l' f] old [of "target f"] by (cases "target f < ?n") auto
  qed
  have names: "map_of (connections (srv ?w)) x = Some j \<longrightarrow> j < length (conns ?w) \<and> x = conn_name (cn ?w j)" for x j
    using D(7) [of x j] old(1) [of j] c(2) unfolding look by auto
  have each: "conn_wf (cn ?w j)" "conn_name (cn ?w j) = conn_id_name (ts_name (srv w)) (hostport (srv w)) (int j + 1)"
      "conn_state (cn ?w j) \<noteq> kDisconnected \<longrightarrow> listed ?w j"
      "conn_state (cn ?w j) = kDisconnected \<and> watched (cn ?w j) = None \<longrightarrow> \<not> listed ?w j"
    if "j < Suc ?n" for j
    using that D(5,6,8,9) [of j] old [of j] c new(3) nm D(3) by (cases "j = ?n"; simp)+
  show ?thesis
    unfolding server_inv_def [of ?w] using om_put_wf [OF D(1)] D(2,3) room p cnt names each by simp
qed

context connection_callback
begin

lemma accept_ok:
  assumes inv: "net_inv w" and room: "nextConnId (srv w) < 2 ^ 31 - 1" and kw: "\<forall>t len n. kw t len = Some n \<longrightarrow> n \<le> len"
  shows "\<exists>w'. newConnection cb fd kw w = Inr w' \<and> net_inv w'"
proof -
  have inv': "server_inv w (\<lambda>l f. count_list (pending w l) f)" using inv by (simp add: net_inv_def)
  have "loops (threadPool (srv w)) \<noteq> [] \<longrightarrow> next_loop (threadPool (srv w)) < length (loops (threadPool (srv w)))"
    using inv' by (simp add: server_inv_def)
  then obtain l p where p: "getNextLoop (threadPool (srv w)) = Inr (l, p)" "loops p \<noteq> [] \<longrightarrow> next_loop p < length (loops p)"
    by (rule getNextLoop_ok)
  from run_in_loop_ok [of _ l "ConnectEstablished (length (conns w))" 0] inv_append [OF inv' room kw p(2) refl, of l fd] p(1) room
  show ?thesis by (simp add: newConnection_def Let_def)
qed

end


lemma activity_ok:
  assumes inv: "net_inv w" and i: "i < length (conns w)" and st: "conn_state (cn w i) \<in> {kConnected, kDisconnecting}"
    and c: "conn_wf c" "conn_state c \<in> {kConnected, kDisconnecting}" "conn_name c = conn_name (cn w i)"
  shows "net_inv (put_conn i c w)"
proof -
  have inv': "server_inv w (\<lambda>l f. count_list (pending w l) f)" using inv by (simp add: net_inv_def)
  have "server_inv (w\<lparr>srv := (srv w)\<lparr>connections := connections (srv w)\<rparr>, conns := (conns w)[i := (lp w i, c)]\<rparr>)
      (\<lambda>l f. count_list (pending w l) f)"
    by (rule inv_upd [OF inv' i c(1,3), where b = True])
      (use server_invD(8,10) [OF inv'] i st c(2) in auto)
  then show ?thesis by (simp add: net_inv_def put_conn_def)
qed


section \<open>Executions\<close>

text \<open>
  An execution of a server \<open>s0\<close>: the base loop accepts a connection, a loop runs its next request, the
  poller reports a connection that it watches as closed by the peer, or such a connection is written to, shut
  down or drained.
\<close>

inductive sreach :: "(TcpConnection \<Rightarrow> TcpConnection res) \<Rightarrow> TcpServer \<Rightarrow> net \<Rightarrow> bool" for cb s0 where
  init: "sreach cb s0 (new_net s0)"
| accept: "sreach cb s0 w \<Longrightarrow> \<forall>t len n. kw t len = Some n \<longrightarrow> n \<le> len \<Longrightarrow> newConnection cb fd kw w = Inr w' \<Longrightarrow> sreach cb s0 w'"
| run: "sreach cb s0 w \<Longrightarrow> pending w l = f # fs \<Longrightarrow> exec_call cb f (w\<lparr>pending := (pending w)(l := fs)\<rparr>) = Inr w' \<Longrightarrow> sreach cb s0 w'"
| close: "sreach cb s0 w \<Longrightarrow> i < length (conns w) \<Longrightarrow> watched (cn w i) = Some (True, e) \<Longrightarrow> close_event cb i w = Inr w' \<Longrightarrow> sreach cb s0 w'"
| activity: "sreach cb s0 w \<Longrightarrow> i < length (conns w) \<Longrightarrow> watched (cn w i) = Some (True, e) \<Longrightarrow>
     length (accepted [op]) \<le> conn_room (cn w i) \<Longrightarrow> conn_step op (cn w i) = Inr c' \<Longrightarrow> sreach cb s0 (put_conn i c' w)"

lemma accept_room: "newConnection cb fd kw w = Inr w' \<Longrightarrow> nextConnId (srv w) < 2 ^ 31 - 1"
  by (auto simp: newConnection_def Let_def res_bind_eq_Inr split: if_splits)

lemma net_inv_conn: "net_inv w \<Longrightarrow> i < length (conns w) \<Longrightarrow> conn_wf (cn w i)"
  by (auto simp: net_inv_def server_inv_def)

lemma sreach_inv:
  assumes "sreach cb s0 w" and "connection_callback cb" and "net_inv (new_net s0)"
  shows "net_inv w"
  using assms(1)
proof induction
  case (accept w kw fd w')
  from connection_callback.accept_ok [OF assms(2) accept.IH accept_room [OF accept(3)] accept(2), of fd] accept(3)
  show ?case by simp
next
  case (run w l f fs w')
  from connection_callback.run_ok [OF assms(2) run.IH run(2)] run(3) show ?case by simp
next
  case (close w i e w')
  from connection_callback.close_ok [OF assms(2) close.IH close(2) active_up [OF net_inv_conn [OF close.IH close(2)] close(3)]] close(4)
  show ?case by simp
next
  case (activity w i e op c')
  have up: "conn_state (cn w i) \<in> {kConnected, kDisconnecting}"
    using active_up [OF net_inv_conn [OF activity.IH activity(2)] activity(3)] .
  from conn_step_up [OF net_inv_conn [OF activity.IH activity(2)] up activity(4,5)] activity_ok [OF activity.IH activity(2) up]
  show ?case by blast
qed (rule assms(3))

text \<open>A connection needs no request exactly when none is pending for it.\<close>

lemma debt_zero:
  assumes "net_inv w"
  shows "debt w = 0 \<longleftrightarrow> (\<forall>l. pending w l = [])"
proof -
  have inv: "server_inv w (\<lambda>l f. count_list (pending w l) f)" using assms by (simp add: net_inv_def)
  note D = server_invD(10) [OF inv]
  have pend: "f \<in> set (pending w l) \<longleftrightarrow> target f < length (conns w) \<and> due l (lp w (target f)) (cn w (target f)) (listed w (target f)) f" for l f
    using D [of l f] count_list_0_iff [of "pending w l" f] by (simp add: of_bool_def split: if_splits)
  have none: "conn_debt c b = 0 \<longleftrightarrow> (\<forall>l f. target f = i \<longrightarrow> \<not> due l li c b f)" for c b i li
  proof
    assume z: "conn_debt c b = 0"
    have "\<not> due l li c b f" if "target f = i" for l f
      using z that by (cases f) (auto simp: conn_debt_def split: if_splits)
    then show "\<forall>l f. target f = i \<longrightarrow> \<not> due l li c b f" by blast
  next
    assume n: "\<forall>l f. target f = i \<longrightarrow> \<not> due l li c b f"
    have "\<not> due li li c b (ConnectEstablished i)" "\<not> due 0 li c b (RemoveConnectionInLoop i)" "\<not> due li li c b (ConnectDestroyed i)"
      using n by (metis target.simps)+
    then show "conn_debt c b = 0" by (auto simp: conn_debt_def)
  qed
  have "debt w = 0 \<longleftrightarrow> (\<forall>i < length (conns w). conn_debt (cn w i) (listed w i) = 0)" by (auto simp: debt_def)
  also have "\<dots> \<longleftrightarrow> (\<forall>i < length (conns w). \<forall>l f. target f = i \<longrightarrow> \<not> due l (lp w i) (cn w i) (listed w i) f)"
    by (metis none)
  also have "\<dots> \<longleftrightarrow> (\<forall>l f. f \<notin> set (pending w l))" unfolding pend by auto
  finally show ?thesis by (metis last_in_set empty_iff empty_set)
qed

text \<open>A server on \<^verbatim>\<open>InetAddress(port)\<close>, as both programs make it.\<close>

definition start_server :: "bool \<Rightarrow> int \<Rightarrow> 16 word \<Rightarrow> string \<Rightarrow> TcpServer res" where
  "start_server icb threads port nm =
     res_bind (new_TcpServer (InetAddress_port port) nm) (\<lambda>s. server_start icb (setThreadNum threads s))"

lemma any_hostport: "toIpPort (InetAddress_port port) = Inr (''0.0.0.0:'' @ show_nat (unat port))"
proof -
  have "bswap32 0 = 0" "inet_ntop4 0 = ''0.0.0.0''" by code_simp+
  then show ?thesis by (simp add: toIpPort_eq InetAddress_port_def)
qed

lemma start_server_inv:
  assumes "start_server icb threads port nm = Inr s0"
  shows "net_inv (new_net s0)"
proof -
  have "length (hostport s0) \<le> 19" "nextConnId s0 = 1" "connections s0 = []" "next_loop (threadPool s0) = 0"
    using assms length_port [of port]
    by (auto simp: start_server_def new_TcpServer_def any_hostport server_start_def setThreadNum_def pool_setThreadNum_def
        pool_start_def new_EventLoopThreadPool_def Let_def)
  then show ?thesis by (simp add: net_inv_def server_inv_def new_net_def om_wf_def)
qed


text \<open>Starting a server again has no further effect, as its header promises.\<close>

lemma server_start_again: "server_start icb s = Inr s' \<Longrightarrow> server_start icb s' = Inr s'"
  by (auto simp: server_start_def res_bind_eq_Inr split: if_splits)

lemma start_server_ok: "\<exists>s0. start_server icb threads port nm = Inr s0 \<and>
    loops (threadPool s0) = map Suc [0..<nat threads] \<and> next_loop (threadPool s0) = 0 \<and> nextConnId s0 = 1 \<and> started s0 \<and> listenning s0"
  by (simp add: start_server_def new_TcpServer_def any_hostport server_start_def setThreadNum_def pool_setThreadNum_def
      pool_start_def new_EventLoopThreadPool_def Let_def)

text \<open>The first connection of a server without threads is established at once.\<close>

lemma first_connection:
  assumes "loops (threadPool t0) = []" and "nextConnId t0 = 1"
  obtains c w where "newConnection onConnection fd kw (new_net t0) = Inr w" and "pending w = (\<lambda>_. [])" and "conns w = [(0, c)]"
    and "conn_state c = kConnected" and "watched c = Some (True, kReadEvent)" and "inputBuffer c = new_Buffer" and "outputBuffer c = new_Buffer"
proof -
  let ?c = "established (new_TcpConnection (conn_id_name (ts_name t0) (hostport t0) 1) fd kw)"
  obtain w where w: "newConnection onConnection fd kw (new_net t0) = Inr w" "pending w = (\<lambda>_. [])" "conns w = [(0, ?c)]"
    using assms
    by (simp add: newConnection_def new_net_def getNextLoop_def run_in_loop_def connectEstablished_def lift_cb_def
        onConnection_def put_conn_def established_def new_TcpConnection_def Let_def)
  moreover have "conn_state ?c = kConnected" "watched ?c = Some (True, kReadEvent)" "inputBuffer ?c = new_Buffer" "outputBuffer ?c = new_Buffer"
    by (simp_all add: established_def new_TcpConnection_def ch_events_def ch_update_def isNoneEvent_def new_Channel_def
        tie_def set_callback_def kReadEvent_def kNoneEvent_def)
  ultimately show thesis by (intro that [OF w])
qed

text \<open>The loops that the next \<open>k\<close> connections are given to.\<close>

fun take_loops :: "nat \<Rightarrow> EventLoopThreadPool \<Rightarrow> (loop_id list \<times> EventLoopThreadPool) res" where
  "take_loops 0 p = Inr ([], p)"
| "take_loops (Suc k) p =
     res_bind (take_loops k p) (\<lambda>(ls, p). res_bind (getNextLoop p) (\<lambda>(l, p). Inr (ls @ [l], p)))"

lemma take_loops_spec:
  assumes "loops p \<noteq> []" and "next_loop p = 0"
  shows "\<exists>p'. take_loops k p = Inr (map (\<lambda>j. loops p ! (j mod length (loops p))) [0..<k], p') \<and>
           loops p' = loops p \<and> next_loop p' = k mod length (loops p)"
proof (induction k)
  case (Suc k)
  then obtain p' where p': "take_loops k p = Inr (map (\<lambda>j. loops p ! (j mod length (loops p))) [0..<k], p')"
      "loops p' = loops p" "next_loop p' = k mod length (loops p)" by blast
  moreover have lt: "k mod length (loops p) < length (loops p)" using assms(1) by simp
  moreover from lt have "length (loops p) \<le> Suc (k mod length (loops p)) \<longleftrightarrow> Suc (k mod length (loops p)) = length (loops p)"
    by linarith
  ultimately show ?case using assms(1) by (simp add: getNextLoop_def Let_def mod_Suc)
qed (use assms in simp)


section \<open>Properties\<close>

text \<open>
  C16. Whatever the interleaving of the loops of a server, no assertion fails: every queued request can be run
  (a closed connection is found in \<open>connections_\<close> exactly once, a connection is established once and before it
  is destroyed), every watched connection can be closed, a new one can be accepted until the connection
  number overflows, and no two connections ever have the same name.
\<close>

theorem server_connections_safe:
  assumes "connection_callback cb" and "start_server icb threads port nm = Inr s0" and "sreach cb s0 w"
    and "\<forall>t len n. kw t len = Some n \<longrightarrow> n \<le> len"
  shows "(\<forall>l f fs. pending w l = f # fs \<longrightarrow> (\<exists>w'. exec_call cb f (w\<lparr>pending := (pending w)(l := fs)\<rparr>) = Inr w')) \<and>
         (\<forall>i < length (conns w). \<forall>e. watched (snd (conns w ! i)) = Some (True, e) \<longrightarrow> (\<exists>w'. close_event cb i w = Inr w')) \<and>
         (nextConnId (srv w) < 2 ^ 31 - 1 \<longrightarrow> (\<exists>w'. newConnection cb fd kw w = Inr w')) \<and>
         distinct (map (\<lambda>(l, c). conn_name c) (conns w))"
proof -
  have inv: "net_inv w" using sreach_inv [OF assms(3,1) start_server_inv [OF assms(2)]] .
  have inv': "server_inv w (\<lambda>l f. count_list (pending w l) f)" using inv by (simp add: net_inv_def)
  have "distinct (map (\<lambda>(l, c). conn_name c) (conns w))"
    using names_distinct [OF inv'] by (auto simp: distinct_conv_nth split_beta)
  moreover have "\<exists>w'. close_event cb i w = Inr w'" if "i < length (conns w)" "watched (cn w i) = Some (True, e)" for i e
    using connection_callback.close_ok [OF assms(1) inv that(1) active_up [OF net_inv_conn [OF inv that(1)] that(2)]] by blast
  ultimately show ?thesis
    using connection_callback.run_ok [OF assms(1) inv] connection_callback.accept_ok [OF assms(1) inv _ assms(4)] by metis
qed

theorem server_connections_safe_witness:
  "\<exists>s0 w. start_server False 4 8000 ''P2PCServer'' = Inr s0 \<and> newConnection onConnection 7 (\<lambda>_ len. Some len) (new_net s0) = Inr w \<and>
     (\<forall>l f fs. pending w l = f # fs \<longrightarrow> (\<exists>w'. exec_call onConnection f (w\<lparr>pending := (pending w)(l := fs)\<rparr>) = Inr w'))"
proof -
  obtain s0 where s0: "start_server False 4 8000 ''P2PCServer'' = Inr s0" using start_server_ok by blast
  have kw: "\<forall>t len n. (\<lambda>_ len. Some len) (t :: nat) len = Some n \<longrightarrow> n \<le> (len :: nat)" by simp
  have inv: "net_inv (new_net s0)" using start_server_inv [OF s0] .
  then have "nextConnId (srv (new_net s0)) < 2 ^ 31 - 1" by (simp add: net_inv_def server_inv_def new_net_def)
  from printing.accept_ok [OF inv this kw, of 7] obtain w where w: "newConnection onConnection 7 (\<lambda>_ len. Some len) (new_net s0) = Inr w"
    by blast
  have "sreach onConnection s0 w" using sreach.accept [OF sreach.init kw w] .
  from server_connections_safe [OF printing.connection_callback_axioms s0 this kw] s0 w show ?thesis by blast
qed

text \<open>
  C17. Nothing of a closed connection stays behind: whenever the loops have run all their requests,
  \<open>connections_\<close> holds exactly the connections that are up, and every other one has been unregistered from its
  loop.
\<close>

theorem server_forgets_closed:
  assumes "connection_callback cb" and "start_server icb threads port nm = Inr s0" and "sreach cb s0 w"
    and "\<forall>l. pending w l = []" and "i < length (conns w)"
  shows "(map_of (connections (srv w)) (conn_name (snd (conns w ! i))) = Some i \<longleftrightarrow>
            conn_state (snd (conns w ! i)) \<in> {kConnected, kDisconnecting}) \<and>
         (conn_state (snd (conns w ! i)) \<in> {kConnected, kDisconnecting} \<or>
            conn_state (snd (conns w ! i)) = kDisconnected \<and> watched (snd (conns w ! i)) = None)"
proof -
  have inv: "server_inv w (\<lambda>l f. count_list (pending w l) f)"
    using sreach_inv [OF assms(3,1) start_server_inv [OF assms(2)]] by (simp add: net_inv_def)
  note D = server_invD [OF inv]
  have none: "\<not> due l (lp w i) (cn w i) (listed w i) f" if "target f = i" for l f
    using D(10) [of l f] assms(4,5) that by simp
  have "conn_state (cn w i) \<noteq> kConnecting" using none [of "ConnectEstablished i" "lp w i"] by simp
  moreover have "watched (cn w i) = None" if "conn_state (cn w i) = kDisconnected"
    using none [of "ConnectDestroyed i" "lp w i"] none [of "RemoveConnectionInLoop i" 0] that
    by (cases "watched (cn w i)") auto
  ultimately show ?thesis
    using D(8,9) [OF assms(5)] by (cases "conn_state (cn w i)") (auto simp: listed_def)
qed

theorem server_forgets_closed_witness:
  "\<exists>s0 w. start_server False 0 8000 ''P2PServer'' = Inr s0 \<and>
     newConnection onConnection 7 (\<lambda>_ len. Some len) (new_net s0) = Inr w \<and>
     map_of (connections (srv w)) (conn_name (snd (conns w ! 0))) = Some 0"
proof -
  obtain s0 where s0: "start_server False 0 8000 ''P2PServer'' = Inr s0" "loops (threadPool s0) = []" "nextConnId s0 = 1"
    using start_server_ok [of False 0 8000 "''P2PServer''"] by auto
  obtain c w where w: "newConnection onConnection 7 (\<lambda>_ len. Some len) (new_net s0) = Inr w" "pending w = (\<lambda>_. [])" "conns w = [(0, c)]"
      "conn_state c = kConnected"
    by (rule first_connection [OF s0(2,3)])
  have "sreach onConnection s0 w" by (rule sreach.accept [OF sreach.init _ w(1)]) simp
  then have "map_of (connections (srv w)) (conn_name (snd (conns w ! 0))) = Some 0"
    using server_forgets_closed [OF printing.connection_callback_axioms s0(1), of w 0] w by simp
  with s0(1) w(1) show ?thesis by blast
qed

text \<open>
  C18. The requests of a server's loops do run out: as long as one is pending, the first request of each loop can
  be run, and running any of them, in any order of the loops, brings all queues closer to being empty. After at
  most \<open>debt w\<close> of them, which is at most two for each connection, nothing is pending.
\<close>

theorem server_requests_drain:
  assumes "connection_callback cb" and "start_server icb threads port nm = Inr s0" and "sreach cb s0 w"
  shows "(\<forall>l f fs. pending w l = f # fs \<longrightarrow>
            (\<exists>w'. exec_call cb f (w\<lparr>pending := (pending w)(l := fs)\<rparr>) = Inr w' \<and> debt w' < debt w)) \<and>
         (debt w = 0 \<longleftrightarrow> (\<forall>l. pending w l = [])) \<and> debt w \<le> 2 * length (conns w)"
proof -
  have inv: "net_inv w" using sreach_inv [OF assms(3,1) start_server_inv [OF assms(2)]] .
  have "debt w \<le> 2 * length (conns w)"
    using sum_bounded_above [of "{..<length (conns w)}" "\<lambda>i. conn_debt (cn w i) (listed w i)" 2]
    by (simp add: debt_def conn_debt_def mult.commute)
  moreover have "debt w = 0 \<longleftrightarrow> (\<forall>l. pending w l = [])" by (rule debt_zero [OF inv])
  ultimately show ?thesis using connection_callback.run_ok [OF assms(1) inv] by blast
qed

theorem server_requests_drain_witness:
  "\<exists>s0 w. start_server False 4 8000 ''P2PCServer'' = Inr s0 \<and> newConnection onConnection 7 (\<lambda>_ len. Some len) (new_net s0) = Inr w \<and>
     debt w \<le> 2 * length (conns w)"
proof -
  obtain s0 where s0: "start_server False 4 8000 ''P2PCServer'' = Inr s0" using start_server_ok by blast
  have inv: "net_inv (new_net s0)" using start_server_inv [OF s0] .
  then have "nextConnId (srv (new_net s0)) < 2 ^ 31 - 1" by (simp add: net_inv_def server_inv_def new_net_def)
  from printing.accept_ok [OF inv this, of "\<lambda>_ len. Some len" 7] obtain w where
    w: "newConnection onConnection 7 (\<lambda>_ len. Some len) (new_net s0) = Inr w" by auto
  have "sreach onConnection s0 w" by (rule sreach.accept [OF sreach.init _ w]) simp
  from server_requests_drain [OF printing.connection_callback_axioms s0 this] s0 w show ?thesis by blast
qed

text \<open>
  The pool is used in turn: with \<open>n\<close> threads the connections go to the loops \<open>1\<close>, ..., \<open>n\<close>, \<open>1\<close>, ... in this
  order, so the numbers of connections any two loops were given differ by at most one.
\<close>

theorem round_robin:
  assumes "0 < threads" and "start_server icb threads port nm = Inr s0"
  shows "\<exists>p'. take_loops k (threadPool s0) = Inr (map (\<lambda>j. Suc (j mod nat threads)) [0..<k], p')"
proof -
  have s: "loops (threadPool s0) = map Suc [0..<nat threads]" "next_loop (threadPool s0) = 0"
    using start_server_ok [of icb threads port nm] assms(2) by auto
  have "map (\<lambda>j. loops (threadPool s0) ! (j mod nat threads)) [0..<k] = map (\<lambda>j. Suc (j mod nat threads)) [0..<k]"
    using assms(1) by (simp add: s(1))
  with take_loops_spec [of "threadPool s0" k] s assms(1) show ?thesis by auto
qed

theorem round_robin_witness:
  "\<exists>s0 p'. start_server False 4 8000 ''P2PCServer'' = Inr s0 \<and> take_loops 6 (threadPool s0) = Inr ([1, 2, 3, 4, 1, 2], p')"
proof -
  obtain s0 where s0: "start_server False 4 8000 ''P2PCServer'' = Inr s0" using start_server_ok by blast
  from round_robin [OF _ s0, of 6] s0 show ?thesis by (auto simp: upt_rec)
qed

text \<open>
  The buffer of 32 bytes is too small for a server on an address of full length: the names of the
  connections number \<open>10\<^sup>8\<close> and \<open>10\<^sup>8 + 1\<close> are cut off to the same text, the name of number \<open>10\<^sup>7\<close>.
\<close>

theorem long_names_collide:
  assumes "length hp = 21"
  shows "conn_id_name nm hp 100000000 = conn_id_name nm hp 100000001"
    and "conn_id_name nm hp 100000000 = conn_id_name nm hp 10000000"
proof -
  have "show_int 100000000 = ''100000000''" "show_int 100000001 = ''100000001''" "show_int 10000000 = ''10000000''"
    by (simp_all add: show_int_def show_nat.simps char_of_def bit_0)
  then show "conn_id_name nm hp 100000000 = conn_id_name nm hp 100000001"
    "conn_id_name nm hp 100000000 = conn_id_name nm hp 10000000"
    using assms by (simp_all add: conn_id_name_def snprintf_def)
qed

end
