(* ===== verification/Programs.thy ===== *)
theory Programs
  imports Protocol TcpServer
begin

text \<open>
  The two programs, \<^verbatim>\<open>p2pserver/src/main.cpp\<close> and \<^verbatim>\<open>p2pclient/src/main.cpp\<close>, up to the point where they enter
  \<^verbatim>\<open>loop()\<close>: how the command line becomes the initial state of the servers and of the client. \<open>argv\<close> is the list of
  arguments with the program's name first; the result \<open>None\<close> is the usage message.
\<close>

section \<open>The programs\<close>

definition new_P2PCServer :: "sockaddr_in \<Rightarrow> TcpServer res" where
  "new_P2PCServer listenAddr =
     res_bind (new_TcpServer listenAddr ''P2PCServer'') (\<lambda>s. Inr (setThreadNum 4 s))"

definition P2PCServer_start :: "TcpServer \<Rightarrow> TcpServer res" where
  "P2PCServer_start s = server_start False s"

definition P2PServer_start :: "TcpServer \<Rightarrow> TcpServer res" where
  "P2PServer_start s = server_start False s"

definition connect_client :: "'c P2PClient \<Rightarrow> 'c P2PClient" where
  "connect_client p = p\<lparr>commands := commands p @ [CmdConnect]\<rparr>"

text \<open>The TCP server is a member of \<^verbatim>\<open>P2PServer\<close> and is made before the catalogue.\<close>

definition server_main :: "(UserInfo \<Rightarrow> UserInfo \<Rightarrow> bool) \<Rightarrow> string list \<Rightarrow> (TcpServer \<times> P2PServer) option res" where
  "server_main lt argv =
     (if length argv > 1 then
        let port = port_of (argv ! 1) in
        res_bind (new_TcpServer (InetAddress_port port) ''P2PServer'') (\<lambda>t.
        res_bind (new_P2PServer lt) (\<lambda>d.
        res_bind (P2PServer_start t) (\<lambda>t. Inr (Some (t, d)))))
      else Inr None)"

definition peer_main :: "ConnState \<Rightarrow> string list \<Rightarrow> (TcpServer \<times> 'c peer) option res" where
  "peer_main s0 argv =
     (if length argv > 2 then
        let cserverport = port_of (argv ! 1) in
        res_bind (new_P2PCServer (InetAddress_port cserverport)) (\<lambda>t.
        let g = setIP (argv ! 1) init_P2PCServer;
            port = port_of (argv ! 2);
            p = connect_client (new_P2PClient s0 port) in
        res_bind (P2PCServer_start t) (\<lambda>t. Inr (Some (t, g, p))))
      else Inr None)"


section \<open>Properties\<close>

text \<open>
  Both programs start, whatever their arguments are, and print their usage when one is missing. The directory
  server serves in its only loop, with a catalogue that satisfies its invariant and knows the group of the first
  client. A peer serves in four loops, connects to the server it was given, and if its own port has four digits
  its state satisfies the invariant of a peer and the first thing it says on its first connection is its
  registration request.
\<close>

theorem programs_start:
  "(\<exists>t d. server_main UserInfoSortCriterion argv = Inr (if length argv > 1 then Some (t, d) else None) \<and>
      listenning t \<and> loops (threadPool t) = [] \<and> P2PServer.server_inv d \<and> ''111'' \<in> dom (users (catalogue d))) \<and>
   (\<exists>t g (p :: 'c P2PClient). peer_main s0 argv = Inr (if length argv > 2 then Some (t, g, p) else None) \<and>
      listenning t \<and> loops (threadPool t) = [1, 2, 3, 4] \<and> commands p = [CmdNew (port_of (argv ! 2)), CmdConnect] \<and>
      (length (argv ! 1) = 4 \<longrightarrow> peer_inv g) \<and>
      (\<forall>reach csend conn. P2PClient_onConnection reach csend (g, p) conn True =
         Some (res_bind (codec_send csend (StringPiece_of_string (register_request (argv ! 1))) conn) (\<lambda>conn.
           Inr (g, p\<lparr>cstate := ConnState.kConnected, isFirst := 0, connection := Some conn\<rparr>)))))"
proof
  have start: "\<exists>t. res_bind (new_TcpServer a nm) (\<lambda>s. P2PServer_start s) = Inr t \<and> listenning t \<and> loops (threadPool t) = []" for a nm
    by (simp add: new_TcpServer_def toIpPort_eq P2PServer_start_def server_start_def pool_start_def new_EventLoopThreadPool_def)
  have d: "new_P2PServer UserInfoSortCriterion = Inr first_server"
    by (simp add: new_P2PServer_def default_ordered [OF orders_SortCriterion] first_server_def)
  have "''111'' \<in> dom (users (catalogue first_server))" by (simp add: first_server_def first_catalogue_def)
  with start [of "InetAddress_port (port_of (argv ! 1))" "''P2PServer''"] d first_server_inv
  show "\<exists>t d. server_main UserInfoSortCriterion argv = Inr (if length argv > 1 then Some (t, d) else None) \<and>
      listenning t \<and> loops (threadPool t) = [] \<and> P2PServer.server_inv d \<and> ''111'' \<in> dom (users (catalogue d))"
    by (auto simp: server_main_def res_bind_eq_Inr Let_def)
  have "\<exists>t. res_bind (new_P2PCServer a) P2PCServer_start = Inr t \<and> listenning t \<and> loops (threadPool t) = [1, 2, 3, 4]" for a
    by (simp add: new_P2PCServer_def new_TcpServer_def toIpPort_eq P2PCServer_start_def server_start_def pool_start_def
        new_EventLoopThreadPool_def setThreadNum_def pool_setThreadNum_def upt_rec)
  then obtain t where t: "res_bind (new_P2PCServer (InetAddress_port (port_of (argv ! 1)))) P2PCServer_start = Inr t"
      "listenning t" "loops (threadPool t) = [1, 2, 3, 4]" by blast
  let ?g = "setIP (argv ! 1) init_P2PCServer" and ?p = "connect_client (new_P2PClient s0 (port_of (argv ! 2))) :: 'c P2PClient"
  have "peer_main s0 argv = Inr (if length argv > 2 then Some (t, ?g, ?p) else None)"
    using t(1) by (auto simp: peer_main_def res_bind_eq_Inr Let_def)
  moreover have "length (argv ! 1) = 4 \<longrightarrow> peer_inv ?g"
    by (simp add: peer_inv_def setIP_def init_P2PCServer_def om_wf_def)
  moreover have "P2PClient_onConnection reach csend (?g, ?p) conn True =
      Some (res_bind (codec_send csend (StringPiece_of_string (register_request (argv ! 1))) conn) (\<lambda>conn.
        Inr (?g, ?p\<lparr>cstate := ConnState.kConnected, isFirst := 0, connection := Some conn\<rparr>)))" for reach csend conn
    by (cases "codec_send csend (StringPiece_of_string (register_request (argv ! 1))) conn")
      (simp_all add: P2PClient_onConnection_def write_client_def connect_client_def new_P2PClient_def getIP_def setIP_def
        register_request_def Let_def)
  ultimately show "\<exists>t g (p :: 'c P2PClient). peer_main s0 argv = Inr (if length argv > 2 then Some (t, g, p) else None) \<and>
      listenning t \<and> loops (threadPool t) = [1, 2, 3, 4] \<and> commands p = [CmdNew (port_of (argv ! 2)), CmdConnect] \<and>
      (length (argv ! 1) = 4 \<longrightarrow> peer_inv g) \<and>
      (\<forall>reach csend conn. P2PClient_onConnection reach csend (g, p) conn True =
         Some (res_bind (codec_send csend (StringPiece_of_string (register_request (argv ! 1))) conn) (\<lambda>conn.
           Inr (g, p\<lparr>cstate := ConnState.kConnected, isFirst := 0, connection := Some conn\<rparr>))))"
    using t by (intro exI [of _ t] exI [of _ ?g] exI [of _ ?p]) (simp add: connect_client_def new_P2PClient_def)
qed

theorem programs_start_witness:
  "\<exists>t g (p :: nat P2PClient). peer_main ConnState.kConnecting [''p2pclient'', ''1112'', ''1111''] = Inr (Some (t, g, p)) \<and> peer_inv g"
  using programs_start [of "[''p2pclient'', ''1112'', ''1111'']" ConnState.kConnecting] by auto

text \<open>
  The programs accept a port of any length as the name of a peer, but the messages carry names in a field of four
  bytes. A peer on a port of five digits is registered under the first four of them, as if it were another peer,
  and with the fifth digit as its level.
\<close>

theorem long_port_misread:
  assumes "length ip = 5"
  shows "message_ip (register_request ip) = take 4 ip \<and> message_file (register_request ip) = schar (ip ! 4)"
  using assms by (simp add: register_request_def message_ip_def message_file_def nth_append)

end
