(* ===== verification/Service.thy ===== *)
theory Service
  imports Programs
begin

text \<open>
  A service: a \<^verbatim>\<open>TcpServer\<close> whose message callback is the codec over a string callback, as both programs set it up.
  The state is the data of the service and the net of the server. The event that a connection is readable runs
  \<^verbatim>\<open>TcpConnection::handleRead\<close> with the codec as message callback; it may change the data, send, shut down, or
  close the connection, which hands requests to the loops of the server. An execution is any sequence of such
  events, new connections, writable connections and requests run by the loops.
\<close>

section \<open>Readable connections\<close>

definition read_event ::
  "('s \<times> TcpConnection \<Rightarrow> string \<Rightarrow> ('s \<times> TcpConnection) res) \<Rightarrow> (TcpConnection \<Rightarrow> TcpConnection res) \<Rightarrow>
     nat \<Rightarrow> read_result \<Rightarrow> 's \<times> net \<Rightarrow> ('s \<times> net) res"
where
  "read_event h cb i r st =
     (case st of (s, w) \<Rightarrow>
      case conns w ! i of (l, c) \<Rightarrow>
      res_bind
        (TcpConnection.handleRead r
           (\<lambda>((s, w), c) b. res_bind (onMessage h (on_conn conn_shutdown) (s, c) b) (\<lambda>((s, c), b). Inr (((s, w), c), b)))
           (lift_cb cb)
           (\<lambda>((s, w), c). res_bind (removeConnection cb l i (put_conn i c w)) (\<lambda>w. Inr ((s, w), c)))
           ((s, w), c))
        (\<lambda>((s, w), c). Inr (s, put_conn i c w)))"

text \<open>An established connection with its identity, the part of its state a message callback must keep.\<close>

definition conn_up :: "string \<times> Channel \<Rightarrow> TcpConnection \<Rightarrow> bool" where
  "conn_up nm c \<longleftrightarrow> conn_wf c \<and> conn_state c \<in> {StateE.kConnected, StateE.kDisconnecting} \<and> identity c = nm"

lemma conn_send_identity: "conn_send b c = Inr c' \<Longrightarrow> identity c' = identity c"
  by (auto simp: conn_send_def send_buffer_def res_bind_eq_Inr sendInLoop_identity split: if_splits)

lemma conn_up_input: "conn_up nm c \<Longrightarrow> buf_wf b \<Longrightarrow> conn_up nm (c\<lparr>inputBuffer := b\<rparr>)"
  by (auto simp: conn_up_def conn_wf_def events_of_def)

interpretation up: codec_connection conn_send conn_shutdown "conn_up nm" conn_room for nm
proof
  fix k b
  assume up: "conn_up nm k"
  then have wf: "conn_wf k" by (simp add: conn_up_def)
  { assume b: "buf_wf b" "length (content b) \<le> conn_room k"
    from conn_send_spec [OF wf b] conn_send_identity [of b k] up show
      "\<exists>k'. conn_send b k = Inr k' \<and> conn_up nm k' \<and> conn_room k \<le> conn_room k' + length (content b)"
      by (auto simp: conn_up_def) }
  show "\<exists>k'. conn_shutdown k = Inr k' \<and> conn_up nm k' \<and> conn_room k \<le> conn_room k'"
    using shutdown_spec [OF wf] up by (auto simp: conn_shutdown_def conn_up_def)
qed

lemma net_conn_up:
  assumes "net_inv w" and "i < length (conns w)" and "watched (cn w i) = Some (True, e)"
  shows "conn_up (identity (cn w i)) (cn w i)"
  using net_inv_conn [OF assms(1,2)] active_up [OF net_inv_conn [OF assms(1,2)] assms(3)] by (simp add: conn_up_def)

lemma put_conn_same: "i < length (conns w) \<Longrightarrow> put_conn i (cn w i) w = w"
  by (simp add: put_conn_def)

text \<open>Nothing read because of an error, and the end of the stream.\<close>

lemma read_error: "i < length (conns w) \<Longrightarrow> read_event h cb i (ReadError e) (s, w) = Inr (s, w)"
  using put_conn_same [of i w] by (cases "conns w ! i") (simp add: read_event_def TcpConnection.handleRead_def)

lemma read_nothing: "buf_wf b \<Longrightarrow> readFd (ReadBytes []) b = Inr (0, None, b)"
  by (simp add: readFd_def vec_copy_def Let_def buf_wf_def)

lemma remove_keeps_conns: "removeConnection cb l i w = Inr w' \<Longrightarrow> conns w' = conns w"
  by (auto simp: removeConnection_def run_in_loop_def removeConnectionInLoop_def queue_call_def Let_def cassert_def split: if_splits)

lemma read_eof:
  assumes "i < length (conns w)" and "buf_wf (inputBuffer (cn w i))"
  shows "read_event h cb i (ReadBytes []) (s, w) = res_bind (close_event cb i w) (\<lambda>w. Inr (s, w))"
proof -
  obtain l c where c: "conns w ! i = (l, c)" by fastforce
  have keep: "put_conn i c' w' = w'" if "removeConnection cb l i (put_conn i c' w) = Inr w'" for c' w'
    using remove_keeps_conns [OF that] assms(1) c by (simp add: put_conn_def)
  have rd: "readFd (ReadBytes []) (inputBuffer c) = Inr (0, None, inputBuffer c)"
    using read_nothing assms(2) c by simp
  let ?c = "ch_events (\<lambda>_. kNoneEvent) (c\<lparr>conn_state := StateE.kDisconnected\<rparr>)"
  show ?thesis
  proof (cases "cb ?c")
    case (Inr c')
    then show ?thesis
      using c rd keep [of c']
      by (cases "removeConnection cb l i (put_conn i c' w)")
        (simp_all add: read_event_def close_event_def TcpConnection.handleRead_def handleClose_def lift_cb_def Let_def)
  qed (use c rd in \<open>simp add: read_event_def close_event_def TcpConnection.handleRead_def handleClose_def lift_cb_def Let_def\<close>)
qed



section \<open>The contract of a service\<close>

definition service_inv :: "('s \<Rightarrow> bool) \<Rightarrow> (TcpConnection \<Rightarrow> bool) \<Rightarrow> 's \<times> TcpConnection \<Rightarrow> bool" where
  "service_inv I J st \<longleftrightarrow> I (fst st) \<and> J (snd st)"

text \<open>
  Bytes that may arrive on connection \<open>i\<close>: no more than were asked for, room for them in the input buffer, and room in
  the output buffer for the answers to the messages they complete.
\<close>

definition may_arrive :: "nat \<Rightarrow> nat \<Rightarrow> char list \<Rightarrow> net \<Rightarrow> bool" where
  "may_arrive cost i bs w \<longleftrightarrow>
     (let b = inputBuffer (cn w i) in
      length bs \<le> unat (writableBytes b) + 65536 \<and> buf_room (length bs) b \<and>
      cost * length (fst (parse (content b @ bs))) \<le> conn_room (cn w i))"

definition arriving :: "nat \<Rightarrow> char list \<Rightarrow> net \<Rightarrow> string list" where
  "arriving i bs w = fst (parse (content (inputBuffer (cn w i)) @ bs))"

text \<open>\<open>elsewhere\<close> is how other parts of the program change the data between the callbacks of the service.\<close>

locale service = connection_callback cb for cb +
  fixes h :: "'s \<times> TcpConnection \<Rightarrow> string \<Rightarrow> ('s \<times> TcpConnection) res"
    and data_inv :: "'s \<Rightarrow> bool"
    and valid :: "'s \<Rightarrow> string \<Rightarrow> bool"
    and cost :: nat
    and elsewhere :: "'s \<Rightarrow> 's \<Rightarrow> bool"
  assumes elsewhere_law: "data_inv s \<Longrightarrow> elsewhere s s' \<Longrightarrow> data_inv s'"
    and handler: "message_handler h (on_conn conn_shutdown) (service_inv data_inv (conn_up nm))
      (\<lambda>st. valid (fst st)) (\<lambda>st. conn_room (snd st)) cost"
begin

lemma read_data:
  assumes inv: "data_inv s" "net_inv w" and i: "i < length (conns w)" "watched (cn w i) = Some (True, e)"
    and bs: "may_arrive cost i bs w" "bs \<noteq> []"
  obtains b c where "parse (content b) = parse (content (inputBuffer (cn w i)) @ bs)" and "buf_wf b"
    and "service_inv data_inv (conn_up (identity (cn w i))) (s, c)" and "conn_room c = conn_room (cn w i)"
    and "read_event h cb i (ReadBytes bs) (s, w) =
      res_bind (onMessage h (on_conn conn_shutdown) (s, c) b) (\<lambda>((s, c), b). Inr (s, put_conn i (c\<lparr>inputBuffer := b\<rparr>) w))"
proof -
  obtain l k where k: "conns w ! i = (l, k)" by fastforce
  have up: "conn_up (identity k) k" using net_conn_up [OF inv(2) i] k by simp
  have wf: "buf_wf (inputBuffer k)" using up by (simp add: conn_up_def conn_wf_def)
  have "length bs \<le> unat (writableBytes (inputBuffer k)) + 65536" "buf_room (length bs) (inputBuffer k)"
    using bs(1) k by (simp_all add: may_arrive_def Let_def)
  then obtain b where b: "readFd (ReadBytes bs) (inputBuffer k) = Inr (int (length bs), None, b)" "buf_wf b"
      "content b = content (inputBuffer k) @ bs" using readFd_spec [OF wf] by blast
  have "read_event h cb i (ReadBytes bs) (s, w) =
      res_bind (onMessage h (on_conn conn_shutdown) (s, k\<lparr>inputBuffer := b\<rparr>) b) (\<lambda>((s, c), b). Inr (s, put_conn i (c\<lparr>inputBuffer := b\<rparr>) w))"
    using b(1) bs(2) k
    by (cases "onMessage h (on_conn conn_shutdown) (s, k\<lparr>inputBuffer := b\<rparr>) b")
      (auto simp: read_event_def TcpConnection.handleRead_def)
  then show thesis
    using b conn_up_input [OF up b(2)] inv(1) k
    by (intro that [of b "k\<lparr>inputBuffer := b\<rparr>"]) (simp_all add: service_inv_def conn_room_def)
qed

lemma read_keeps:
  assumes inv: "data_inv s" "net_inv w" and i: "i < length (conns w)" "watched (cn w i) = Some (True, e)"
    and bs: "may_arrive cost i bs w" "bs \<noteq> []" and r: "read_event h cb i (ReadBytes bs) (s, w) = Inr (s', w')"
  shows "data_inv s' \<and> net_inv w' \<and> length (conns w') = length (conns w) \<and> conn_up (identity (cn w i)) (cn w' i) \<and>
    (\<forall>j. j \<noteq> i \<longrightarrow> conns w' ! j = conns w ! j)"
proof -
  let ?nm = "identity (cn w i)"
  obtain b c where b: "parse (content b) = parse (content (inputBuffer (cn w i)) @ bs)" "buf_wf b"
      "service_inv data_inv (conn_up ?nm) (s, c)" "conn_room c = conn_room (cn w i)"
      "read_event h cb i (ReadBytes bs) (s, w) =
        res_bind (onMessage h (on_conn conn_shutdown) (s, c) b) (\<lambda>((s, c), b). Inr (s, put_conn i (c\<lparr>inputBuffer := b\<rparr>) w))"
    by (rule read_data [OF inv i bs])
  obtain ms rest bad where p: "parse (content b) = (ms, rest, bad)" by (cases "parse (content b)")
  have ms: "fst (parse (content (inputBuffer (cn w i)) @ bs)) = ms" using b(1) p by (metis fst_conv)
  obtain c' b' where on: "onMessage h (on_conn conn_shutdown) (s, c) b = Inr ((s', c'), b')" "w' = put_conn i (c'\<lparr>inputBuffer := b'\<rparr>) w"
    using r b(5) by (auto simp: res_bind_eq_Inr)
  have cost: "cost * length ms \<le> conn_room (snd (s, c))"
    using bs(1) b(4) ms by (simp add: may_arrive_def Let_def)
  have keep: "service_inv data_inv (conn_up ?nm) (s', c')" "buf_wf b'"
    using message_handler.on_message_keeps [OF handler b(3,2) p cost on(1)] by auto
  then have up: "conn_up ?nm (c'\<lparr>inputBuffer := b'\<rparr>)" using conn_up_input by (simp add: service_inv_def)
  have "net_inv (put_conn i (c'\<lparr>inputBuffer := b'\<rparr>) w)"
    using activity_ok [OF inv(2) i(1) active_up [OF net_inv_conn [OF inv(2) i(1)] i(2)]] up identityD(1) [of "c'\<lparr>inputBuffer := b'\<rparr>" "cn w i"]
    by (simp add: conn_up_def)
  moreover have "cn w' i = c'\<lparr>inputBuffer := b'\<rparr>" "length (conns w') = length (conns w)" "\<forall>j. j \<noteq> i \<longrightarrow> conns w' ! j = conns w ! j"
    using on(2) i(1) by (simp_all add: put_conn_def)
  ultimately show ?thesis using keep(1) up on(2) by (simp add: service_inv_def)
qed

lemma read_total:
  assumes inv: "data_inv s" "net_inv w" and i: "i < length (conns w)" "watched (cn w i) = Some (True, e)"
    and bs: "may_arrive cost i bs w" "bs \<noteq> []" and ok: "\<forall>m \<in> set (arriving i bs w). valid s m"
  shows "\<exists>st'. read_event h cb i (ReadBytes bs) (s, w) = Inr st'"
proof -
  let ?nm = "identity (cn w i)"
  obtain b c where b: "parse (content b) = parse (content (inputBuffer (cn w i)) @ bs)" "buf_wf b"
      "service_inv data_inv (conn_up ?nm) (s, c)" "conn_room c = conn_room (cn w i)"
      "read_event h cb i (ReadBytes bs) (s, w) =
        res_bind (onMessage h (on_conn conn_shutdown) (s, c) b) (\<lambda>((s, c), b). Inr (s, put_conn i (c\<lparr>inputBuffer := b\<rparr>) w))"
    by (rule read_data [OF inv i bs])
  obtain ms rest bad where p: "parse (content b) = (ms, rest, bad)" by (cases "parse (content b)")
  have ms: "fst (parse (content (inputBuffer (cn w i)) @ bs)) = ms" using b(1) p by (metis fst_conv)
  have "cost * length ms \<le> conn_room (snd (s, c))" "\<forall>m \<in> set ms. valid (fst (s, c)) m"
    using bs(1) ok b(4) ms by (simp_all add: may_arrive_def arriving_def Let_def)
  from message_handler.on_message_total [OF handler b(3,2) p this] b(5) show ?thesis by auto
qed

end


section \<open>Executions\<close>

text \<open>The poller stores what it found in a channel, and the channel notes that it is handling an event.\<close>

definition mark_channel :: "nat \<Rightarrow> int32 \<Rightarrow> bool \<Rightarrow> net \<Rightarrow> net" where
  "mark_channel i r b w =
     put_conn i ((cn w i)\<lparr>chan := (chan (cn w i))\<lparr>revents := r, eventHandling := b\<rparr>\<rparr>) w"

lemma net_inv_mark:
  assumes "net_inv w" and "i < length (conns w)"
  shows "net_inv (mark_channel i r b w)"
proof -
  have inv: "TcpServer.server_inv w (\<lambda>l f. count_list (pending w l) f)" using assms(1) by (simp add: net_inv_def)
  note D = server_invD [OF inv]
  let ?c = "(cn w i)\<lparr>chan := (chan (cn w i))\<lparr>revents := r, eventHandling := b\<rparr>\<rparr>"
  have "conn_wf ?c" using D(5) [OF assms(2)] by (simp add: conn_wf_def events_of_def split: StateE.splits)
  moreover have due: "due l li ?c x f = due l li (cn w i) x f" for l li x f by (cases f) simp_all
  ultimately have "TcpServer.server_inv (w\<lparr>srv := (srv w)\<lparr>connections := connections (srv w)\<rparr>, conns := (conns w)[i := (lp w i, ?c)]\<rparr>)
      (\<lambda>l f. count_list (pending w l) f)"
    using D(8,9,10) assms(2) by (intro inv_upd [OF inv assms(2), where b = "listed w i"]) auto
  then show ?thesis by (simp add: mark_channel_def net_inv_def put_conn_def)
qed

inductive serves ::
  "(TcpConnection \<Rightarrow> TcpConnection res) \<Rightarrow> ('s \<times> TcpConnection \<Rightarrow> string \<Rightarrow> ('s \<times> TcpConnection) res) \<Rightarrow> nat \<Rightarrow>
     ('s \<Rightarrow> 's \<Rightarrow> bool) \<Rightarrow> 's \<Rightarrow> TcpServer \<Rightarrow> 's \<Rightarrow> net \<Rightarrow> bool"
  for cb h cost elsewhere s0 t0
where
  init: "serves cb h cost elsewhere s0 t0 s0 (new_net t0)"
| accept: "serves cb h cost elsewhere s0 t0 s w \<Longrightarrow> \<forall>t len n. kw t len = Some n \<longrightarrow> n \<le> len \<Longrightarrow> newConnection cb fd kw w = Inr w' \<Longrightarrow>
    serves cb h cost elsewhere s0 t0 s w'"
| run: "serves cb h cost elsewhere s0 t0 s w \<Longrightarrow> pending w l = f # fs \<Longrightarrow> exec_call cb f (w\<lparr>pending := (pending w)(l := fs)\<rparr>) = Inr w' \<Longrightarrow>
    serves cb h cost elsewhere s0 t0 s w'"
| hangup: "serves cb h cost elsewhere s0 t0 s w \<Longrightarrow> i < length (conns w) \<Longrightarrow> watched (cn w i) = Some (True, e) \<Longrightarrow> close_event cb i w = Inr w' \<Longrightarrow>
    serves cb h cost elsewhere s0 t0 s w'"
| writable: "serves cb h cost elsewhere s0 t0 s w \<Longrightarrow> i < length (conns w) \<Longrightarrow> watched (cn w i) = Some (True, e) \<Longrightarrow>
    TcpConnection.handleWrite (cn w i) = Inr c' \<Longrightarrow> serves cb h cost elsewhere s0 t0 s (put_conn i c' w)"
| readable: "serves cb h cost elsewhere s0 t0 s w \<Longrightarrow> i < length (conns w) \<Longrightarrow> watched (cn w i) = Some (True, e) \<Longrightarrow>
    may_arrive cost i bs w \<Longrightarrow> read_event h cb i (ReadBytes bs) (s, w) = Inr (s', w') \<Longrightarrow> serves cb h cost elsewhere s0 t0 s' w'"
| read_fails: "serves cb h cost elsewhere s0 t0 s w \<Longrightarrow> i < length (conns w) \<Longrightarrow> read_event h cb i (ReadError en) (s, w) = Inr (s', w') \<Longrightarrow>
    serves cb h cost elsewhere s0 t0 s' w'"
| marks: "serves cb h cost elsewhere s0 t0 s w \<Longrightarrow> i < length (conns w) \<Longrightarrow> serves cb h cost elsewhere s0 t0 s (mark_channel i r b w)"
| other: "serves cb h cost elsewhere s0 t0 s w \<Longrightarrow> elsewhere s s' \<Longrightarrow> serves cb h cost elsewhere s0 t0 s' w"

context service
begin

lemma eof_ok:
  assumes "net_inv w" and "i < length (conns w)" and "watched (cn w i) = Some (True, e)"
  shows "\<exists>w'. read_event h cb i (ReadBytes []) (s, w) = Inr (s, w') \<and> net_inv w'"
proof -
  have wf: "conn_wf (cn w i)" by (rule net_inv_conn [OF assms(1,2)])
  then have "buf_wf (inputBuffer (cn w i))" by (simp add: conn_wf_def)
  from read_eof [OF assms(2) this, of h cb s] close_ok [OF assms(1,2) active_up [OF wf assms(3)]] show ?thesis by auto
qed

lemma serves_inv:
  assumes "serves cb h cost elsewhere s0 t0 s w" and "data_inv s0" and "net_inv (new_net t0)"
  shows "data_inv s \<and> net_inv w"
  using assms(1)
proof induction
  case (accept s w kw fd w')
  then show ?case using accept_ok [OF _ accept_room [OF accept(3)] accept(2), of fd] by auto
next
  case (run s w l f fs w')
  then show ?case using run_ok [of w l f fs] by auto
next
  case (hangup s w i e w')
  then show ?case using close_ok [of w i] active_up [OF net_inv_conn [of w i] hangup(3)] by auto
next
  case (writable s w i e c')
  have up: "conn_state (cn w i) \<in> {StateE.kConnected, StateE.kDisconnecting}"
    using writable active_up [OF net_inv_conn [of w i] writable(3)] by auto
  have wf: "conn_wf (cn w i)" using writable net_inv_conn by blast
  have "conn_wf c' \<and> conn_state c' \<in> {StateE.kConnected, StateE.kDisconnecting} \<and> conn_name c' = conn_name (cn w i)"
    using conn_step_up [OF wf up, of Writable c'] writable(4) by simp
  with writable activity_ok [of w i c'] up show ?case by blast
next
  case (readable s w i e bs s' w')
  show ?case
  proof (cases "bs = []")
    case True
    with eof_ok [of w i e s] readable show ?thesis by auto
  next
    case False
    with read_keeps [of s w i e bs s' w'] readable show ?thesis by blast
  qed
next
  case (read_fails s w i en s' w')
  then show ?case using read_error [of i w h cb en s] by simp
next
  case (marks s w i r b)
  then show ?case using net_inv_mark by blast
next
  case (other s w s')
  then show ?case using elsewhere_law by blast
qed (use assms(2,3) in simp)

lemma service_ok:
  assumes "serves cb h cost elsewhere s0 t0 s w" and "data_inv s0" and "net_inv (new_net t0)"
    and "i < length (conns w)" and "watched (cn w i) = Some (True, e)" and "may_arrive cost i bs w"
    and "\<forall>m \<in> set (arriving i bs w). valid s m"
  shows "\<exists>st'. read_event h cb i (ReadBytes bs) (s, w) = Inr st'"
proof (cases "bs = []")
  case True
  with eof_ok [of w i e s] serves_inv [OF assms(1-3)] assms(4,5) show ?thesis by auto
qed (use read_total [of s w i e bs] serves_inv [OF assms(1-3)] assms(4-7) in blast)

lemma service_safe:
  assumes "serves cb h cost elsewhere s0 t0 s w" and "data_inv s0" and "net_inv (new_net t0)"
  shows "data_inv s \<and>
    (\<forall>l f fs. pending w l = f # fs \<longrightarrow> (\<exists>w'. exec_call cb f (w\<lparr>pending := (pending w)(l := fs)\<rparr>) = Inr w')) \<and>
    (\<forall>i e. i < length (conns w) \<and> watched (cn w i) = Some (True, e) \<longrightarrow>
       (\<exists>w'. close_event cb i w = Inr w') \<and> (\<exists>c'. TcpConnection.handleWrite (cn w i) = Inr c') \<and>
       (\<forall>bs. may_arrive cost i bs w \<and> (\<forall>m \<in> set (arriving i bs w). valid s m) \<longrightarrow>
          (\<exists>st'. read_event h cb i (ReadBytes bs) (s, w) = Inr st'))) \<and>
    (\<forall>kw. nextConnId (srv w) < 2 ^ 31 - 1 \<and> (\<forall>t len n. kw t len = Some n \<longrightarrow> n \<le> len) \<longrightarrow>
       (\<exists>w'. newConnection cb fd kw w = Inr w'))"
proof -
  have inv: "data_inv s" "net_inv w" using serves_inv [OF assms] by auto
  have each: "(\<exists>w'. close_event cb i w = Inr w') \<and> (\<exists>c'. TcpConnection.handleWrite (cn w i) = Inr c')"
    if i: "i < length (conns w)" "watched (cn w i) = Some (True, e)" for i e
  proof -
    have wf: "conn_wf (cn w i)" by (rule net_inv_conn [OF inv(2) i(1)])
    have up: "conn_state (cn w i) \<in> {StateE.kConnected, StateE.kDisconnecting}" by (rule active_up [OF wf i(2)])
    show ?thesis using close_ok [OF inv(2) i(1) up] handleWrite_spec [OF wf up] by blast
  qed
  have rd: "\<exists>st'. read_event h cb i (ReadBytes bs) (s, w) = Inr st'"
    if "i < length (conns w)" "watched (cn w i) = Some (True, e)" "may_arrive cost i bs w"
      "\<forall>m \<in> set (arriving i bs w). valid s m" for i e bs
    using service_ok [OF assms that] .
  have run: "\<exists>w'. exec_call cb f (w\<lparr>pending := (pending w)(l := fs)\<rparr>) = Inr w'" if "pending w l = f # fs" for l f fs
    using run_ok [OF inv(2) that] by blast
  have acc: "\<exists>w'. newConnection cb fd kw w = Inr w'"
    if "nextConnId (srv w) < 2 ^ 31 - 1" "\<forall>t len n. kw t len = Some n \<longrightarrow> n \<le> len" for kw
    using accept_ok [OF inv(2) that] by blast
  show ?thesis using inv(1) each rd run acc by blast
qed

end


section \<open>The two services\<close>

lemma server_conn_service: "server_conn_inv J = service_inv P2PServer.server_inv J"
  by (simp add: fun_eq_iff server_conn_inv_def service_inv_def)

lemma peer_conn_service: "peer_conn_inv J = service_inv peer_inv J"
  by (simp add: fun_eq_iff peer_conn_inv_def service_inv_def)

definition nowhere :: "'s \<Rightarrow> 's \<Rightarrow> bool" where
  "nowhere s s' \<longleftrightarrow> False"

text \<open>The static data of a peer is shared with the callbacks of its client.\<close>

definition by_client :: "P2PCServer \<Rightarrow> P2PCServer \<Rightarrow> bool" where
  "by_client g g' \<longleftrightarrow>
     (\<exists>reach csend (p :: TcpConnection P2PClient) m p'. P2PClient_onStringMessage reach csend (g, p) m = Some (Inr (g', p'))) \<or>
     (\<exists>reach csend (p :: TcpConnection P2PClient) c up p'. P2PClient_onConnection reach csend (g, p) c up = Some (Inr (g', p')))"

lemma onConnection_keeps:
  assumes "P2PClient_onConnection reach csend (g, p) c up = Some (Inr (g', p'))" and "peer_inv g"
  shows "peer_inv g'"
proof (cases "\<not> up \<and> cstate p = ConnState.kConnected")
  case True
  then have "reconnect reach (g, p\<lparr>connection := None\<rparr>) = Some (g', p')"
    using assms(1) by (auto simp: P2PClient_onConnection_def Let_def)
  then have "search_next reach (updateFile g) (removeNeiIP (peerIP p) g, p\<lparr>connection := None\<rparr>) = Some (g', p')"
    by (simp add: reconnect_search)
  from search_result [OF this] assms(2) show ?thesis by (auto simp: peer_inv_def om.erase_wf)
next
  case False
  then have "g' = g"
    using assms(1) by (auto simp: P2PClient_onConnection_def Let_def res_bind_eq_Inr split: if_splits)
  with assms(2) show ?thesis by simp
qed

lemma onStringMessage_keeps:
  assumes "P2PClient_onStringMessage reach csend (g, p) m = Some (Inr (g', p'))" and "peer_inv g"
  shows "peer_inv g'"
  using client_message_keeps [OF assms] by simp

interpretation directory_service: service onConnection
  "P2PServer_onStringMessage UserInfoSortCriterion reach conn_send conn_shutdown" P2PServer.server_inv server_valid 22 nowhere
  for reach
  by (intro service.intro service_axioms.intro printing.connection_callback_axioms)
    (simp_all add: server_conn_service [symmetric] up.server_handler nowhere_def)

interpretation peer_service: service onConnection
  "P2PCServer_onStringMessage conn_send" peer_inv "\<lambda>_ m. 6 \<le> length m" 11 by_client
  using onConnection_keeps onStringMessage_keeps
  by (intro service.intro service_axioms.intro printing.connection_callback_axioms)
    (auto simp add: peer_conn_service [symmetric] up.serving_handler by_client_def)

lemma server_main_net: "server_main lt argv = Inr (Some (t0, d0)) \<Longrightarrow> net_inv (new_net t0)"
  by (rule start_server_inv [of False 0 "port_of (argv ! 1)" "''P2PServer''"])
    (auto simp: server_main_def start_server_def P2PServer_start_def new_TcpServer_def toIpPort_eq setThreadNum_def
      pool_setThreadNum_def new_EventLoopThreadPool_def res_bind_eq_Inr Let_def split: if_splits)

lemma server_main_inv: "server_main UserInfoSortCriterion argv = Inr (Some (t0, d0)) \<Longrightarrow> P2PServer.server_inv d0"
  using first_server_inv default_ordered [OF orders_SortCriterion]
  by (auto simp: server_main_def new_P2PServer_def first_server_def res_bind_eq_Inr Let_def split: if_splits)

lemma peer_main_inv: "peer_main s0 argv = Inr (Some (t0, g, p)) \<Longrightarrow> length (argv ! 1) = 4 \<Longrightarrow> peer_inv g"
  by (auto simp: peer_main_def peer_inv_def setIP_def init_P2PCServer_def om_wf_def res_bind_eq_Inr Let_def split: if_splits)

lemma peer_main_net: "peer_main s0 argv = Inr (Some (t0, g, p)) \<Longrightarrow> net_inv (new_net t0)"
  by (rule start_server_inv [of False 4 "port_of (argv ! 1)" "''P2PCServer''"])
    (auto simp: peer_main_def start_server_def P2PCServer_start_def new_P2PCServer_def res_bind_eq_Inr Let_def split: if_splits)

text \<open>The programs start.\<close>

lemma server_main_starts:
  assumes "1 < length argv"
  obtains t where "server_main UserInfoSortCriterion argv = Inr (Some (t, first_server))" and "loops (threadPool t) = []"
    and "nextConnId t = 1"
proof -
  have "new_P2PServer UserInfoSortCriterion = Inr first_server"
    by (simp add: new_P2PServer_def default_ordered [OF orders_SortCriterion] first_server_def)
  with assms that show thesis
    by (simp add: server_main_def new_TcpServer_def toIpPort_eq P2PServer_start_def server_start_def pool_start_def
        new_EventLoopThreadPool_def Let_def)
qed

lemma peer_main_starts:
  assumes "2 < length argv"
  obtains t g and p :: "'c P2PClient" where "peer_main s0 argv = Inr (Some (t, g, p))" and "loops (threadPool t) = [1, 2, 3, 4]"
    and "next_loop (threadPool t) = 0" and "nextConnId t = 1"
  using assms that
  by (simp add: peer_main_def new_P2PCServer_def new_TcpServer_def toIpPort_eq P2PCServer_start_def server_start_def pool_start_def
      new_EventLoopThreadPool_def setThreadNum_def pool_setThreadNum_def upt_rec Let_def)


section \<open>Properties\<close>





end
