(* ===== verification/Teardown.thy ===== *)
theory Teardown
  imports TcpServer
begin

text \<open>
  The end of a server: \<^verbatim>\<open>TcpServer::~TcpServer\<close> destroys the connections of its own loop at once and asks the loops of
  the others to do so. The loops run these requests in any order.
\<close>

section \<open>Destroying connections\<close>

definition gone :: "TcpConnection \<Rightarrow> bool" where
  "gone c \<longleftrightarrow> conn_state c = kDisconnected \<and> watched c = None"

text \<open>Connections that are established, and the effect of destroying those at the positions \<open>js\<close>.\<close>

definition all_up :: "net \<Rightarrow> nat list \<Rightarrow> bool" where
  "all_up w js \<longleftrightarrow> (\<forall>i \<in> set js. i < length (conns w) \<and> conn_wf (cn w i) \<and> conn_state (cn w i) = kConnected)"

definition destroyed :: "nat list \<Rightarrow> net \<Rightarrow> net \<Rightarrow> bool" where
  "destroyed js w w' \<longleftrightarrow> map fst (conns w') = map fst (conns w) \<and> (\<forall>j. j \<notin> set js \<longrightarrow> conns w' ! j = conns w ! j) \<and>
     (\<forall>i \<in> set js. gone (cn w' i))"

lemma destroyed_length: "destroyed js w w' \<Longrightarrow> length (conns w') = length (conns w)"
  unfolding destroyed_def by (metis length_map)

lemma destroyed_loop: "destroyed js w w' \<Longrightarrow> j < length (conns w) \<Longrightarrow> lp w' j = lp w j"
  using destroyed_length [of js w w'] unfolding destroyed_def by (metis nth_map)

lemma destroyed_up: "destroyed js w w' \<Longrightarrow> all_up w ks \<Longrightarrow> set js \<inter> set ks = {} \<Longrightarrow> all_up w' ks"
  using destroyed_length [of js w w'] by (auto simp: destroyed_def all_up_def)

lemma destroyed_trans:
  assumes "destroyed js w w'" and "destroyed ks w' w''" and "set js \<inter> set ks = {}"
  shows "destroyed (js @ ks) w w''"
  using assms unfolding destroyed_def by (auto simp: disjoint_iff)

lemma destroyed_nil [simp]: "destroyed [] w w"
  by (simp add: destroyed_def)

lemma destroyed_put:
  assumes "i < length (conns w)" and "gone c"
  shows "destroyed [i] w (put_conn i c w)"
  using assms by (simp add: destroyed_def put_conn_def map_update list_update_same_conv)

lemma queue_conns [simp]: "conns (queue_call l f w) = conns w" "srv (queue_call l f w) = srv w"
  by (simp_all add: queue_call_def)

lemma put_conn_rest [simp]: "pending (put_conn i c w) = pending w" "srv (put_conn i c w) = srv w"
  by (simp_all add: put_conn_def)

context connection_callback
begin

lemma destroy_one:
  assumes "all_up w [i]"
  shows "\<exists>w'. exec_call cb (ConnectDestroyed i) w = Inr w' \<and> destroyed [i] w w' \<and> pending w' = pending w \<and> srv w' = srv w"
proof -
  have i: "i < length (conns w)" and wf: "conn_wf (cn w i)" and st: "conn_state (cn w i) = kConnected"
    using assms by (simp_all add: all_up_def)
  have up: "conn_state (cn w i) \<in> {kConnected, kDisconnecting}" using st by simp
  note c = closed_wf [OF wf up]
  obtain c' where c': "cb (closed (cn w i)) = Inr c'" "conn_wf c'" "conn_state c' = kDisconnected" "watched c' = Some (False, 0)"
    using down_law [OF c(1,2)] c(3) by auto
  have "events (chan c') = 0" using c'(2,3) by (simp add: conn_wf_def)
  with st c'(3,4) c'(1) [unfolded closed_def] have "exec_call cb (ConnectDestroyed i) w = Inr (put_conn i (c'\<lparr>watched := None\<rparr>) w)"
    by (simp add: connectDestroyed_def lift_cb_def ch_remove_def isNoneEvent_def kNoneEvent_def Let_def)
  moreover have "destroyed [i] w (put_conn i (c'\<lparr>watched := None\<rparr>) w)"
    using destroyed_put [OF i] c'(3) by (simp add: gone_def)
  ultimately show ?thesis by auto
qed

lemma destroy_many:
  assumes "all_up w js" and "distinct js"
  shows "\<exists>w'. res_fold (exec_call cb) (map ConnectDestroyed js) w = Inr w' \<and> destroyed js w w'"
  using assms
proof (induction js arbitrary: w)
  case (Cons i js)
  have one: "all_up w [i]" using Cons.prems(1) by (simp add: all_up_def)
  obtain w' where w': "exec_call cb (ConnectDestroyed i) w = Inr w'" "destroyed [i] w w'" using destroy_one [OF one] by blast
  have "all_up w' js" by (rule destroyed_up [OF w'(2)]) (use Cons.prems in \<open>auto simp: all_up_def\<close>)
  then obtain w'' where "res_fold (exec_call cb) (map ConnectDestroyed js) w' = Inr w''" "destroyed js w' w''"
    using Cons by auto
  with w' destroyed_trans [OF w'(2), of js w''] Cons.prems(2) show ?case by auto
qed simp

text \<open>Requests to destroy the connections of the set \<open>I\<close>, in any order.\<close>

lemma destroy_any_order:
  assumes "distinct fs" and "set fs = ConnectDestroyed ` I" and "\<forall>i \<in> I. all_up w [i]"
  shows "\<exists>js w'. set js = I \<and> res_fold (exec_call cb) fs w = Inr w' \<and> destroyed js w w'"
proof -
  have "ConnectDestroyed (target f) = f" if "f \<in> set fs" for f using that assms(2) by auto
  then have "fs = map ConnectDestroyed (map target fs)" by (simp add: map_idI)
  then obtain js where map: "fs = map ConnectDestroyed js" by blast
  have "set js = I" using assms(2) unfolding map by (auto simp: inj_image_eq_iff inj_def)
  moreover have "distinct js" using assms(1) map by (simp add: distinct_map)
  moreover have "all_up w js" using assms(3) calculation(1) by (simp add: all_up_def)
  ultimately show ?thesis using destroy_many [of w js] unfolding map by blast
qed

text \<open>The loop of the destructor.\<close>

lemma destroy_listed:
  assumes "all_up w (map snd es)" and "distinct (map snd es)"
  shows "\<exists>w'. res_fold (\<lambda>(_, i) w. run_in_loop cb 0 (lp w i) (ConnectDestroyed i) w) es w = Inr w' \<and> srv w' = srv w \<and>
     destroyed (filter (\<lambda>i. lp w i = 0) (map snd es)) w w' \<and>
     (\<forall>l. pending w' l = pending w l @ (if l = 0 then [] else map ConnectDestroyed (filter (\<lambda>i. lp w i = l) (map snd es))))"
  using assms
proof (induction es arbitrary: w)
  case (Cons e es)
  obtain nm i where e: "e = (nm, i)" by fastforce
  have i: "all_up w [i]" "i < length (conns w)" using Cons.prems(1) e by (simp_all add: all_up_def)
  obtain w1 where w1: "run_in_loop cb 0 (lp w i) (ConnectDestroyed i) w = Inr w1" "srv w1 = srv w"
      "destroyed (if lp w i = 0 then [i] else []) w w1"
      "\<forall>l. pending w1 l = pending w l @ (if l = lp w i \<and> l \<noteq> 0 then [ConnectDestroyed i] else [])"
  proof (cases "lp w i = 0")
    case True
    obtain w' where "exec_call cb (ConnectDestroyed i) w = Inr w'" "destroyed [i] w w'" "pending w' = pending w" "srv w' = srv w"
      using destroy_one [OF i(1)] by blast
    with True show thesis by (intro that [of w']) (auto simp: run_in_loop_def simp del: exec_call.simps)
  next
    case False
    then show thesis by (intro that [of "queue_call (lp w i) (ConnectDestroyed i) w"]) (simp_all add: run_in_loop_def queue_call_def destroyed_def)
  qed
  have lp: "lp w1 j = lp w j" if "j \<in> set (map snd es)" for j
    using destroyed_loop [OF w1(3), of j] Cons.prems(1) that by (auto simp: all_up_def)
  then have flt: "filter (\<lambda>i. lp w1 i = l) (map snd es) = filter (\<lambda>i. lp w i = l) (map snd es)" for l
    by (intro filter_cong) auto
  have "all_up w1 (map snd es)"
    by (rule destroyed_up [OF w1(3)]) (use Cons.prems e in \<open>auto simp: all_up_def\<close>)
  moreover have "distinct (map snd es)" using Cons.prems(2) by simp
  ultimately obtain w2 where w2: "res_fold (\<lambda>(_, i) w. run_in_loop cb 0 (lp w i) (ConnectDestroyed i) w) es w1 = Inr w2" "srv w2 = srv w1"
      "destroyed (filter (\<lambda>i. lp w i = 0) (map snd es)) w1 w2"
      "\<forall>l. pending w2 l = pending w1 l @ (if l = 0 then [] else map ConnectDestroyed (filter (\<lambda>i. lp w i = l) (map snd es)))"
    using Cons.IH [of w1] unfolding flt by blast
  have "destroyed (filter (\<lambda>i. lp w i = 0) (map snd (e # es))) w w2"
    using destroyed_trans [OF w1(3) w2(3)] Cons.prems(2) e by (auto split: if_splits)
  moreover have "res_fold (\<lambda>(_, i) w. run_in_loop cb 0 (lp w i) (ConnectDestroyed i) w) (e # es) w = Inr w2"
    using w1(1) w2(1) e by simp
  moreover have "pending w2 l = pending w l @ (if l = 0 then [] else map ConnectDestroyed (filter (\<lambda>i. lp w i = l) (map snd (e # es))))" for l
    using w1(4) w2(4) e by simp
  ultimately show ?case using w1(2) w2(2) by auto
qed simp

end

text \<open>With no request pending, the server lists exactly the connections that are up.\<close>

lemma quiet_listed:
  assumes "net_inv w" and "\<forall>l. pending w l = []" and "i < length (conns w)"
  shows "listed w i \<longleftrightarrow> conn_state (cn w i) \<in> {kConnected, kDisconnecting}" and "\<not> listed w i \<longleftrightarrow> gone (cn w i)"
proof -
  have inv: "server_inv w (\<lambda>l f. count_list (pending w l) f)" using assms(1) by (simp add: net_inv_def)
  have none: "\<not> due l (lp w i) (cn w i) (listed w i) f" if "target f = i" for l f
    using server_invD(10) [OF inv, of l f] assms(2,3) that by simp
  have "listed w i \<and> conn_state (cn w i) \<in> {kConnected, kDisconnecting} \<or> \<not> listed w i \<and> gone (cn w i)"
    using none [of "ConnectEstablished i" "lp w i"] none [of "ConnectDestroyed i" "lp w i"] none [of "RemoveConnectionInLoop i" 0]
      server_invD(8,9) [OF inv assms(3)] by (cases "conn_state (cn w i)"; cases "watched (cn w i)") (auto simp: gone_def)
  then show "listed w i \<longleftrightarrow> conn_state (cn w i) \<in> {kConnected, kDisconnecting}" and "\<not> listed w i \<longleftrightarrow> gone (cn w i)"
    by (auto simp: gone_def)
qed

lemma listed_positions:
  assumes "net_inv w"
  shows "distinct (map snd (connections (srv w)))" and "set (map snd (connections (srv w))) = {i. i < length (conns w) \<and> listed w i}"
proof -
  let ?m = "connections (srv w)"
  have inv: "server_inv w (\<lambda>l f. count_list (pending w l) f)" using assms by (simp add: net_inv_def)
  have dist: "distinct (map fst ?m)" using server_invD(1) [OF inv] by (simp add: om_wf_def strict_sorted_iff)
  have nm: "i < length (conns w) \<and> k = conn_name (cn w i)" if "(k, i) \<in> set ?m" for k i
    using server_invD(7) [OF inv] map_of_is_SomeI [OF dist that] by blast
  have "inj_on snd (set ?m)" using nm by (intro inj_onI) (metis prod.collapse)
  then show "distinct (map snd ?m)" using dist by (simp add: distinct_map)
  have "i \<in> snd ` set ?m \<longleftrightarrow> i < length (conns w) \<and> listed w i" for i
  proof
    assume "i \<in> snd ` set ?m"
    then obtain k where "(k, i) \<in> set ?m" by auto
    with nm [of k i] map_of_is_SomeI [OF dist] show "i < length (conns w) \<and> listed w i" by (auto simp: listed_def)
  next
    assume "i < length (conns w) \<and> listed w i"
    then have "(conn_name (cn w i), i) \<in> set ?m" by (auto simp: listed_def dest: map_of_SomeD)
    then show "i \<in> snd ` set ?m" by force
  qed
  then show "set (map snd ?m) = {i. i < length (conns w) \<and> listed w i}" by auto
qed


section \<open>Properties\<close>



end
