(* ===== verification/Sockets.thy ===== *)
theory Sockets
  imports InetAddress
begin

text \<open>
  \<^verbatim>\<open>base/src/SocketsOps.cpp\<close> and \<^verbatim>\<open>base/src/Socket.cpp\<close>: the wrappers of the socket calls. What a system call
  answers is an argument, and each function says what the program gets and what it prints. The second half is
  the part of the kernel that decides these answers when descriptors run out: the table of open descriptors,
  its limit, and the queue of a listening socket.
\<close>

section \<open>Errors\<close>

text \<open>The errors the code tells apart; \<open>E_OK\<close> is success, \<open>E_OTHER\<close> any other error.\<close>

datatype errno = E_OK | EINPROGRESS | EINTR | EISCONN | EAGAIN | EADDRINUSE | EADDRNOTAVAIL | ECONNREFUSED
  | ENETUNREACH | EACCES | EPERM | EAFNOSUPPORT | EALREADY | EBADF | EFAULT | ENOTSOCK | ECONNABORTED | EPROTO | EMFILE
  | E_OTHER int


section \<open>SocketsOps\<close>

text \<open>The functions named \<open>OrDie\<close> print and go on; \<open>fd\<close> and \<open>ret\<close> are the answers of the kernel.\<close>

definition createNonblockingOrDie :: "int \<Rightarrow> int \<times> string list" where
  "createNonblockingOrDie fd = (fd, if fd < 0 then [''sockets::createNonblockingOrDie''] else [])"

definition createOrDie :: "int \<Rightarrow> int \<times> string list" where
  "createOrDie fd = (fd, if fd < 0 then [''sockets::createOrDie''] else [])"

definition bindOrDie :: "int \<Rightarrow> string list" where
  "bindOrDie ret = (if ret < 0 then [''sockets::bindOrDie''] else [])"

definition listenOrDie :: "int \<Rightarrow> string list" where
  "listenOrDie ret = (if ret < 0 then [''sockets::listrenOrDie''] else [])"

text \<open>
  \<open>accept\<close>: the result, the address and \<open>errno\<close> afterwards. Printing may change \<open>errno\<close> to \<open>e'\<close>; it is put back only
  for the errors in the list.
\<close>

definition sockets_accept :: "errno + int \<times> sockaddr_in \<Rightarrow> errno \<Rightarrow> sockaddr_in \<Rightarrow> int \<times> sockaddr_in \<times> errno" where
  "sockets_accept answer e' addr =
     (case answer of
        Inr (connfd, peer) \<Rightarrow> (connfd, peer, E_OK)
      | Inl savedErrno \<Rightarrow>
          (-1, addr, if savedErrno \<in> {EAGAIN, ECONNABORTED, EINTR, EPROTO, EPERM, EMFILE} then savedErrno else e'))"

definition sockets_close :: "int \<Rightarrow> string list" where
  "sockets_close ret = (if ret < 0 then [''sockets::close''] else [])"

text \<open>\<open>Inl\<close> is the error of \<^verbatim>\<open>getsockopt\<close> itself, \<open>Inr\<close> the pending error of the socket.\<close>

definition getSocketError :: "int + int \<Rightarrow> int" where
  "getSocketError answer = (case answer of Inl e \<Rightarrow> e | Inr optval \<Rightarrow> optval)"

definition getLocalAddr :: "sockaddr_in option \<Rightarrow> sockaddr_in" where
  "getLocalAddr answer = (case answer of Some localaddr \<Rightarrow> localaddr | None \<Rightarrow> zero_addr)"

definition getPeerAddr :: "sockaddr_in option \<Rightarrow> sockaddr_in" where
  "getPeerAddr answer = (case answer of Some peeraddr \<Rightarrow> peeraddr | None \<Rightarrow> zero_addr)"

definition isSelfConnect :: "sockaddr_in option \<Rightarrow> sockaddr_in option \<Rightarrow> bool" where
  "isSelfConnect lanswer panswer \<longleftrightarrow>
     (let localaddr = getLocalAddr lanswer; peeraddr = getPeerAddr panswer in
      sin_port localaddr = sin_port peeraddr \<and> s_addr localaddr = s_addr peeraddr)"


section \<open>Socket\<close>

text \<open>\<open>Socket::accept\<close>: the address of the caller is set only when a connection was accepted.\<close>

definition Socket_accept :: "errno + int \<times> sockaddr_in \<Rightarrow> errno \<Rightarrow> sockaddr_in \<Rightarrow> int \<times> sockaddr_in \<times> errno" where
  "Socket_accept answer e' peeraddr =
     (case sockets_accept answer e' zero_addr of (connfd, addr, en) \<Rightarrow>
      (connfd, if connfd \<ge> 0 then addr else peeraddr, en))"

text \<open>The socket options the program sets, as \<^verbatim>\<open>setsockopt\<close> gets them: level, option, value.\<close>

datatype sockopt = TCP_NODELAY | SO_REUSEADDR | SO_KEEPALIVE

definition setTcpNoDelay :: "bool \<Rightarrow> sockopt \<times> int" where
  "setTcpNoDelay on = (TCP_NODELAY, if on then 1 else 0)"

definition setReuseAddr :: "bool \<Rightarrow> sockopt \<times> int" where
  "setReuseAddr on = (SO_REUSEADDR, if on then 1 else 0)"

definition setKeepAlive :: "bool \<Rightarrow> sockopt \<times> int" where
  "setKeepAlive on = (SO_KEEPALIVE, if on then 1 else 0)"


section \<open>Descriptors in the kernel\<close>

record kernel =
  fd_limit :: nat
  open_fds :: "nat list"
  backlog :: "sockaddr_in list"

text \<open>A new descriptor is the lowest that is not open; \<open>EMFILE\<close> when there is none.\<close>

definition free_fd :: "kernel \<Rightarrow> nat option" where
  "free_fd k = find (\<lambda>n. n \<notin> set (open_fds k)) [0..<fd_limit k]"

definition k_open :: "kernel \<Rightarrow> int \<times> kernel" where
  "k_open k = (case free_fd k of Some n \<Rightarrow> (int n, k\<lparr>open_fds := n # open_fds k\<rparr>) | None \<Rightarrow> (-1, k))"

definition k_close :: "int \<Rightarrow> kernel \<Rightarrow> kernel" where
  "k_close fd k = k\<lparr>open_fds := filter (\<lambda>n. int n \<noteq> fd) (open_fds k)\<rparr>"

definition k_accept :: "kernel \<Rightarrow> (errno + int \<times> sockaddr_in) \<times> kernel" where
  "k_accept k =
     (case free_fd k of
        None \<Rightarrow> (Inl EMFILE, k)
      | Some n \<Rightarrow>
          (case backlog k of
             [] \<Rightarrow> (Inl EAGAIN, k)
           | a # q \<Rightarrow> (Inr (int n, a), k\<lparr>open_fds := n # open_fds k, backlog := q\<rparr>)))"

definition kernel_wf :: "kernel \<Rightarrow> bool" where
  [inv_simps]: "kernel_wf k \<longleftrightarrow> distinct (open_fds k) \<and> set (open_fds k) \<subseteq> {0..<fd_limit k}"

lemma free_fd_Some: "free_fd k = Some n \<Longrightarrow> n < fd_limit k \<and> n \<notin> set (open_fds k)"
  by (auto simp: free_fd_def find_Some_iff)

lemma free_fd_None: "free_fd k = None \<longleftrightarrow> {0..<fd_limit k} \<subseteq> set (open_fds k)"
  by (auto simp: free_fd_def find_None_iff)

lemma kernel_full: "kernel_wf k \<Longrightarrow> free_fd k = None \<Longrightarrow> set (open_fds k) = {0..<fd_limit k}"
  by (auto simp: kernel_wf_def free_fd_None)

lemma kernel_wf_close: "kernel_wf k \<Longrightarrow> kernel_wf (k_close fd k)"
  by (auto simp: kernel_wf_def k_close_def)

lemma kernel_wf_new: "kernel_wf k \<Longrightarrow> free_fd k = Some n \<Longrightarrow> kernel_wf (k\<lparr>open_fds := n # open_fds k, backlog := q\<rparr>)"
  using free_fd_Some [of k n] by (auto simp: kernel_wf_def)

text \<open>In a full table, the descriptor just closed is the one given out next.\<close>

lemma reopen_closed:
  assumes "kernel_wf k" and "free_fd k = None" and "n \<in> set (open_fds k)"
  shows "free_fd (k_close (int n) k) = Some n"
proof -
  have "free_fd (k_close (int n) k) \<noteq> None"
    using assms kernel_full [OF assms(1,2)] by (auto simp: free_fd_None k_close_def)
  then obtain m where m: "free_fd (k_close (int n) k) = Some m" by blast
  have "m = n" using free_fd_Some [OF m] kernel_full [OF assms(1,2)] by (auto simp: k_close_def)
  with m show ?thesis by simp
qed

end
