(* ===== verification/PollPoller.thy ===== *)
theory PollPoller
  imports Channel
begin

text \<open>
  \<^verbatim>\<open>base/src/PollPoller.cpp\<close> (with the interface \<^verbatim>\<open>base/inc/Poller.h\<close>): the vector \<^verbatim>\<open>pollfds_\<close> that is
  handed to \<^verbatim>\<open>poll(2)\<close> and the map \<^verbatim>\<open>channels_\<close> from descriptors to channels. Each channel keeps the index
  of its entry, and a removal moves the last entry into the gap. \<^verbatim>\<open>poll(2)\<close> is an argument: the number it
  returns and the \<^verbatim>\<open>revents\<close> it wrote. \<^verbatim>\<open>assertInLoopThread\<close> has no effect, since
  \<^verbatim>\<open>EventLoop::abortNotInLoopThread\<close> is empty.
\<close>

section \<open>State\<close>

record pollfd =
  pfd_fd :: int
  pfd_events :: "16 word"
  pfd_revents :: "16 word"

record PollPoller = chan_store +
  pollfds :: "pollfd list"
  channels :: "int \<rightharpoonup> nat"


section \<open>Operations\<close>

definition updateChannel :: "'z PollPoller_scheme chan_op" where
  "updateChannel a s =
     res_bind (read_ch a s) (\<lambda>ch.
     if index ch < 0 then
       cassert (channels s (ch_fd ch) = None)
         (let pfd = \<lparr>pfd_fd = ch_fd ch, pfd_events = ucast (events ch), pfd_revents = 0\<rparr>;
              s = s\<lparr>pollfds := pollfds s @ [pfd]\<rparr>;
              idx = int (length (pollfds s)) - 1
          in res_bind (modify_ch a (\<lambda>ch. ch\<lparr>index := idx\<rparr>) s) (\<lambda>s.
             Inr (s\<lparr>channels := (channels s)(pfd_fd pfd \<mapsto> a)\<rparr>)))
     else
       cassert (channels s (ch_fd ch) \<noteq> None)
       (cassert (channels s (ch_fd ch) = Some a)
       (let idx = index ch in
        cassert (0 \<le> idx \<and> idx < int (length (pollfds s)))
         (let pfd = pollfds s ! nat idx in
          cassert (pfd_fd pfd = ch_fd ch \<or> pfd_fd pfd = - ch_fd ch - 1)
           (let pfd = pfd\<lparr>pfd_events := ucast (events ch), pfd_revents := 0\<rparr>;
                pfd = (if isNoneEvent ch then pfd\<lparr>pfd_fd := - ch_fd ch - 1\<rparr> else pfd)
            in Inr (s\<lparr>pollfds := (pollfds s)[nat idx := pfd]\<rparr>))))))"

definition removeChannel :: "'z PollPoller_scheme chan_op" where
  "removeChannel a s =
     res_bind (read_ch a s) (\<lambda>ch.
     cassert (channels s (ch_fd ch) \<noteq> None)
     (cassert (channels s (ch_fd ch) = Some a)
     (cassert (isNoneEvent ch)
     (let idx = index ch in
      cassert (0 \<le> idx \<and> idx < int (length (pollfds s)))
       (let pfd = pollfds s ! nat idx in
        cassert (pfd_fd pfd = - ch_fd ch - 1 \<and> ucast (pfd_events pfd) = events ch)
         (let s = s\<lparr>channels := (channels s)(ch_fd ch := None)\<rparr> in
          if nat idx = length (pollfds s) - 1 then Inr (s\<lparr>pollfds := butlast (pollfds s)\<rparr>)
          else
            let channelAtEnd = pfd_fd (last (pollfds s));
                s = s\<lparr>pollfds := (pollfds s)[nat idx := last (pollfds s), length (pollfds s) - 1 := pollfds s ! nat idx]\<rparr>;
                channelAtEnd = (if channelAtEnd < 0 then - channelAtEnd - 1 else channelAtEnd)
            in case channels s channelAtEnd of
                 None \<Rightarrow> Inl UndefinedBehaviour
               | Some b \<Rightarrow> res_bind (modify_ch b (\<lambda>ch. ch\<lparr>index := idx\<rparr>) s) (\<lambda>s.
                           Inr (s\<lparr>pollfds := butlast (pollfds s)\<rparr>))))))))"

fun fillActiveChannels ::
  "nat \<Rightarrow> pollfd list \<Rightarrow> nat list \<Rightarrow> 'z PollPoller_scheme \<Rightarrow> (nat list \<times> 'z PollPoller_scheme) res"
where
  "fillActiveChannels numEvents [] active s = Inr (active, s)"
| "fillActiveChannels numEvents (pfd # pfds) active s =
     (if numEvents = 0 then Inr (active, s)
      else if sint (pfd_revents pfd) > 0 then
        (case channels s (pfd_fd pfd) of
           None \<Rightarrow> Inl AssertFail
         | Some a \<Rightarrow>
             res_bind (read_ch a s) (\<lambda>ch.
             cassert (ch_fd ch = pfd_fd pfd)
               (res_bind (modify_ch a (\<lambda>ch. ch\<lparr>revents := word_of_int (sint (pfd_revents pfd))\<rparr>) s) (\<lambda>s.
                fillActiveChannels (numEvents - 1) pfds (active @ [a]) s))))
      else fillActiveChannels numEvents pfds active s)"

text \<open>
  \<open>numEvents\<close> and \<open>revs\<close> are what \<^verbatim>\<open>poll(2)\<close> returns and writes; a negative number is an error and leaves
  nothing active.
\<close>

definition poll :: "int \<Rightarrow> 16 word list \<Rightarrow> nat list \<Rightarrow> 'z PollPoller_scheme \<Rightarrow> (nat list \<times> 'z PollPoller_scheme) res" where
  "poll numEvents revs active s =
     (let s = s\<lparr>pollfds := map2 (\<lambda>p r. p\<lparr>pfd_revents := r\<rparr>) (pollfds s) revs\<rparr> in
      if numEvents > 0 then fillActiveChannels (nat numEvents) (pollfds s) active s
      else Inr (active, s))"


section \<open>Invariant\<close>

text \<open>The descriptor an entry stands for, whether it is ignored or not.\<close>

definition fd_of :: "pollfd \<Rightarrow> int" where
  "fd_of p = (if pfd_fd p < 0 then - pfd_fd p - 1 else pfd_fd p)"

text \<open>\<open>channels_\<close> and \<open>pollfds_\<close> describe the same channels: each one's index is the place of its entry.\<close>

definition poller_inv :: "'z PollPoller_scheme \<Rightarrow> bool" where
  [inv_simps]: "poller_inv s \<longleftrightarrow>
     (\<forall>fd a. channels s fd = Some a \<longrightarrow>
        (\<exists>ch. heap s a = Some ch \<and> ch_fd ch = fd \<and> 0 \<le> fd \<and> 0 \<le> index ch \<and>
              nat (index ch) < length (pollfds s) \<and> fd_of (pollfds s ! nat (index ch)) = fd)) \<and>
     (\<forall>i < length (pollfds s). \<exists>a ch. channels s (fd_of (pollfds s ! i)) = Some a \<and>
        heap s a = Some ch \<and> index ch = int i)"

definition registered :: "nat \<Rightarrow> 'z PollPoller_scheme \<Rightarrow> bool" where
  "registered a s \<longleftrightarrow> (\<exists>ch. heap s a = Some ch \<and> channels s (ch_fd ch) = Some a)"

text \<open>What \<^verbatim>\<open>poll(2)\<close> is asked to watch: per descriptor whether its entry is active, and the events.\<close>

definition watch :: "'z PollPoller_scheme \<Rightarrow> int \<Rightarrow> (bool \<times> 16 word) option" where
  "watch s fd =
     (case channels s fd of
        None \<Rightarrow> None
      | Some a \<Rightarrow> (case heap s a of
          None \<Rightarrow> None
        | Some ch \<Rightarrow> let p = pollfds s ! nat (index ch) in Some (0 \<le> pfd_fd p, pfd_events p)))"

lemma poller_invI:
  assumes "\<And>fd a. channels s fd = Some a \<Longrightarrow> \<exists>ch i. heap s a = Some ch \<and> ch_fd ch = fd \<and> 0 \<le> fd \<and> index ch = int i \<and>
      i < length (pollfds s) \<and> fd_of (pollfds s ! i) = fd"
    and "\<And>i. i < length (pollfds s) \<Longrightarrow> \<exists>a ch. channels s (fd_of (pollfds s ! i)) = Some a \<and> heap s a = Some ch \<and> index ch = int i"
  shows "poller_inv s"
  unfolding poller_inv_def
proof (intro conjI allI impI)
  fix fd a
  assume "channels s fd = Some a"
  from assms(1) [OF this] obtain ch i where "heap s a = Some ch" "ch_fd ch = fd" "0 \<le> fd" "index ch = int i"
      "i < length (pollfds s)" "fd_of (pollfds s ! i) = fd" by blast
  then show "\<exists>ch. heap s a = Some ch \<and> ch_fd ch = fd \<and> 0 \<le> fd \<and> 0 \<le> index ch \<and>
      nat (index ch) < length (pollfds s) \<and> fd_of (pollfds s ! nat (index ch)) = fd"
    by (intro exI [of _ ch]) simp
qed (rule assms(2))

lemma poller_invD:
  assumes "poller_inv s" and "channels s fd = Some a"
  obtains ch i where "heap s a = Some ch" and "ch_fd ch = fd" and "0 \<le> fd" and "index ch = int i"
    and "i < length (pollfds s)" and "fd_of (pollfds s ! i) = fd"
proof -
  obtain ch where "heap s a = Some ch \<and> ch_fd ch = fd \<and> 0 \<le> fd \<and> 0 \<le> index ch \<and>
      nat (index ch) < length (pollfds s) \<and> fd_of (pollfds s ! nat (index ch)) = fd"
    using assms unfolding poller_inv_def by blast
  then show thesis by (intro that [of ch "nat (index ch)"]) auto
qed

lemma poller_inv_entry:
  assumes "poller_inv s" and "i < length (pollfds s)"
  obtains a ch where "channels s (fd_of (pollfds s ! i)) = Some a" and "heap s a = Some ch" and "index ch = int i"
    and "ch_fd ch = fd_of (pollfds s ! i)"
proof -
  obtain a ch where a: "channels s (fd_of (pollfds s ! i)) = Some a" "heap s a = Some ch" "index ch = int i"
    using assms unfolding poller_inv_def by blast
  with poller_invD [OF assms(1) a(1)] have "ch_fd ch = fd_of (pollfds s ! i)" by auto
  with a show thesis by (rule that)
qed

lemma registeredD:
  assumes "poller_inv s" and "registered a s"
  obtains ch i where "heap s a = Some ch" and "channels s (ch_fd ch) = Some a" and "0 \<le> ch_fd ch" and "index ch = int i"
    and "i < length (pollfds s)" and "fd_of (pollfds s ! i) = ch_fd ch"
    and "watch s (ch_fd ch) = Some (0 \<le> pfd_fd (pollfds s ! i), pfd_events (pollfds s ! i))"
proof -
  obtain ch where ch: "heap s a = Some ch" "channels s (ch_fd ch) = Some a"
    using assms(2) by (auto simp: registered_def)
  from poller_invD [OF assms(1) ch(2)] obtain i where i: "0 \<le> ch_fd ch" "index ch = int i"
      "i < length (pollfds s)" "fd_of (pollfds s ! i) = ch_fd ch"
    using ch(1) by (metis option.inject)
  moreover have "watch s (ch_fd ch) = Some (0 \<le> pfd_fd (pollfds s ! i), pfd_events (pollfds s ! i))"
    using ch i by (simp add: watch_def Let_def)
  ultimately show thesis using ch that by blast
qed

text \<open>Distinct descriptors have distinct entries, so the entries' descriptors are distinct.\<close>

lemma entries_inj:
  assumes "poller_inv s" and "i < length (pollfds s)" and "j < length (pollfds s)"
    and "fd_of (pollfds s ! i) = fd_of (pollfds s ! j)"
  shows "i = j"
proof -
  obtain a ch where 1: "channels s (fd_of (pollfds s ! i)) = Some a" "heap s a = Some ch" "index ch = int i"
    by (rule poller_inv_entry [OF assms(1,2)])
  obtain a' ch' where 2: "channels s (fd_of (pollfds s ! j)) = Some a'" "heap s a' = Some ch'" "index ch' = int j"
    by (rule poller_inv_entry [OF assms(1,3)])
  have "a' = a" using 1(1) 2(1) assms(4) by simp
  then have "ch' = ch" using 1(2) 2(2) by simp
  then show ?thesis using 1(3) 2(3) by simp
qed

lemma watch_events [simp]:
  "heap s a = Some ch \<Longrightarrow> watch (s\<lparr>heap := (heap s)(a \<mapsto> ch\<lparr>events := e\<rparr>)\<rparr>) = watch s"
  by (rule ext) (auto simp: watch_def split: option.splits)

lemma poller_inv_events:
  assumes "poller_inv s" and "heap s a = Some ch"
  shows "poller_inv (s\<lparr>heap := (heap s)(a \<mapsto> ch\<lparr>events := e\<rparr>)\<rparr>)"
proof (rule poller_invI)
  let ?s = "s\<lparr>heap := (heap s)(a \<mapsto> ch\<lparr>events := e\<rparr>)\<rparr>"
  fix fd b
  assume "channels ?s fd = Some b"
  then have "channels s fd = Some b" by simp
  then obtain c i where "heap s b = Some c" "ch_fd c = fd" "0 \<le> fd" "index c = int i" "i < length (pollfds s)"
      "fd_of (pollfds s ! i) = fd" by (rule poller_invD [OF assms(1)])
  then show "\<exists>c i. heap ?s b = Some c \<and> ch_fd c = fd \<and> 0 \<le> fd \<and> index c = int i \<and> i < length (pollfds ?s) \<and>
      fd_of (pollfds ?s ! i) = fd"
    using assms(2) by (cases "b = a") auto
next
  let ?s = "s\<lparr>heap := (heap s)(a \<mapsto> ch\<lparr>events := e\<rparr>)\<rparr>"
  fix i
  assume "i < length (pollfds ?s)"
  then have "i < length (pollfds s)" by simp
  then obtain b c where "channels s (fd_of (pollfds s ! i)) = Some b" "heap s b = Some c" "index c = int i"
    by (rule poller_inv_entry [OF assms(1)])
  then show "\<exists>b c. channels ?s (fd_of (pollfds ?s ! i)) = Some b \<and> heap ?s b = Some c \<and> index c = int i"
    using assms(2) by (cases "b = a") auto
qed

lemma registered_events:
  "heap s a = Some ch \<Longrightarrow> registered b (s\<lparr>heap := (heap s)(a \<mapsto> ch\<lparr>events := e\<rparr>)\<rparr>) = registered b s"
  by (auto simp: registered_def)


section \<open>Updating a channel\<close>

definition new_entry :: "Channel \<Rightarrow> pollfd" where
  "new_entry ch = \<lparr>pfd_fd = ch_fd ch, pfd_events = ucast (events ch), pfd_revents = 0\<rparr>"

definition with_new :: "nat \<Rightarrow> Channel \<Rightarrow> 'z PollPoller_scheme \<Rightarrow> 'z PollPoller_scheme" where
  "with_new a ch s = s\<lparr>pollfds := pollfds s @ [new_entry ch],
     heap := (heap s)(a \<mapsto> ch\<lparr>index := int (length (pollfds s))\<rparr>), channels := (channels s)(ch_fd ch \<mapsto> a)\<rparr>"

lemma with_new_simps [simp]:
  "pollfds (with_new a ch s) = pollfds s @ [new_entry ch]"
  "heap (with_new a ch s) = (heap s)(a \<mapsto> ch\<lparr>index := int (length (pollfds s))\<rparr>)"
  "channels (with_new a ch s) = (channels s)(ch_fd ch \<mapsto> a)"
  by (simp_all add: with_new_def)

lemma unregistered_negative:
  assumes "poller_inv s" and "heap s a = Some ch" and "index ch < 0"
  shows "channels s fd \<noteq> Some a"
proof
  assume "channels s fd = Some a"
  then obtain c i where "heap s a = Some c" "index c = int i" by (rule poller_invD [OF assms(1)])
  with assms(2,3) show False by simp
qed

lemma with_new_inv:
  assumes inv: "poller_inv s" and ch: "heap s a = Some ch" and new: "index ch < 0" and fd: "0 \<le> ch_fd ch"
    and free: "channels s (ch_fd ch) = None"
  shows "poller_inv (with_new a ch s)"
proof -
  note other = unregistered_negative [OF inv ch new]
  have fd_new: "fd_of (new_entry ch) = ch_fd ch" using fd by (simp add: fd_of_def new_entry_def)
  show ?thesis
  proof (rule poller_invI, goal_cases)
    case (1 fd b)
    show ?case
    proof (cases "fd = ch_fd ch")
      case True
      with 1 fd fd_new show ?thesis by auto
    next
      case False
      with 1 have "channels s fd = Some b" by simp
      moreover from this obtain c i where "heap s b = Some c" "ch_fd c = fd" "0 \<le> fd" "index c = int i"
          "i < length (pollfds s)" "fd_of (pollfds s ! i) = fd" by (rule poller_invD [OF inv])
      ultimately show ?thesis using other [of fd] by (auto simp: nth_append)
    qed
  next
    case (2 i)
    show ?case
    proof (cases "i < length (pollfds s)")
      case True
      then obtain b c where b: "channels s (fd_of (pollfds s ! i)) = Some b" "heap s b = Some c" "index c = int i"
        by (rule poller_inv_entry [OF inv])
      moreover have "b \<noteq> a" "fd_of (pollfds s ! i) \<noteq> ch_fd ch" using b free other by auto
      ultimately show ?thesis using True by (auto simp: nth_append)
    next
      case False
      with 2 have "i = length (pollfds s)" by simp
      with fd_new show ?thesis by simp
    qed
  qed
qed

lemma watch_with_new:
  assumes inv: "poller_inv s" and ch: "heap s a = Some ch" and new: "index ch < 0" and fd: "0 \<le> ch_fd ch"
  shows "watch (with_new a ch s) = (watch s)(ch_fd ch \<mapsto> (True, ucast (events ch)))"
proof
  fix fd'
  show "watch (with_new a ch s) fd' = ((watch s)(ch_fd ch \<mapsto> (True, ucast (events ch)))) fd'"
  proof (cases "fd' = ch_fd ch")
    case True
    then show ?thesis using fd by (simp add: watch_def new_entry_def)
  next
    case False
    show ?thesis
    proof (cases "channels s fd'")
      case None
      with False show ?thesis by (simp add: watch_def)
    next
      case (Some b)
      then obtain c i where "heap s b = Some c" "index c = int i" "i < length (pollfds s)"
        by (rule poller_invD [OF inv])
      with Some False unregistered_negative [OF inv ch new, of fd'] show ?thesis by (auto simp: watch_def nth_append)
    qed
  qed
qed

lemma updateChannel_new:
  assumes inv: "poller_inv s" and ch: "heap s a = Some ch" and new: "index ch < 0" and fd: "0 \<le> ch_fd ch"
    and free: "channels s (ch_fd ch) = None"
  shows "updateChannel a s = Inr (with_new a ch s)" and "poller_inv (with_new a ch s)"
    and "watch (with_new a ch s) = (watch s)(ch_fd ch \<mapsto> (True, ucast (events ch)))"
  using ch new free with_new_inv [OF assms] watch_with_new [OF inv ch new fd]
  by (simp_all add: updateChannel_def ch_simps Let_def with_new_def new_entry_def)

lemma set_entry:
  assumes inv: "poller_inv s" and i: "i < length (pollfds s)" and p: "fd_of p = fd_of (pollfds s ! i)"
  shows "poller_inv (s\<lparr>pollfds := (pollfds s)[i := p]\<rparr>)"
    and "watch (s\<lparr>pollfds := (pollfds s)[i := p]\<rparr>) = (watch s)(fd_of p \<mapsto> (0 \<le> pfd_fd p, pfd_events p))"
proof -
  have same: "fd_of ((pollfds s)[i := p] ! j) = fd_of (pollfds s ! j)" if "j < length (pollfds s)" for j
    using p i that by (cases "j = i") auto
  show "poller_inv (s\<lparr>pollfds := (pollfds s)[i := p]\<rparr>)"
  proof (rule poller_invI, goal_cases)
    case (1 fd a)
    then have "channels s fd = Some a" by simp
    then show ?case by (rule poller_invD [OF inv]) (use same in auto)
  next
    case (2 j)
    then have j: "j < length (pollfds s)" by simp
    then show ?case by (rule poller_inv_entry [OF inv]) (use same [OF j] in auto)
  qed
  obtain b c where b: "channels s (fd_of p) = Some b" "heap s b = Some c" "index c = int i"
    unfolding p by (rule poller_inv_entry [OF inv i])
  show "watch (s\<lparr>pollfds := (pollfds s)[i := p]\<rparr>) = (watch s)(fd_of p \<mapsto> (0 \<le> pfd_fd p, pfd_events p))"
  proof
    fix fd'
    show "watch (s\<lparr>pollfds := (pollfds s)[i := p]\<rparr>) fd' = ((watch s)(fd_of p \<mapsto> (0 \<le> pfd_fd p, pfd_events p))) fd'"
    proof (cases "channels s fd'")
      case None
      with b show ?thesis by (auto simp: watch_def)
    next
      case (Some b')
      then obtain c' j where j: "heap s b' = Some c'" "index c' = int j" "j < length (pollfds s)"
          "fd_of (pollfds s ! j) = fd'"
        by (rule poller_invD [OF inv])
      show ?thesis
      proof (cases "fd' = fd_of p")
        case True
        with Some b i show ?thesis by (simp add: watch_def)
      next
        case False
        then have "j \<noteq> i" using j(4) p by auto
        with Some j False show ?thesis by (simp add: watch_def)
      qed
    qed
  qed
qed

text \<open>The entry that an update of a registered channel leaves.\<close>

definition updated_entry :: "Channel \<Rightarrow> pollfd \<Rightarrow> pollfd" where
  "updated_entry ch p =
     p\<lparr>pfd_events := ucast (events ch), pfd_revents := 0,
       pfd_fd := (if isNoneEvent ch then - ch_fd ch - 1 else pfd_fd p)\<rparr>"

lemma updateChannel_old:
  assumes inv: "poller_inv s" and reg: "registered a s" and ch: "heap s a = Some ch"
    and act: "watch s (ch_fd ch) = Some (act, ev)"
  obtains s' where "updateChannel a s = Inr s'" and "poller_inv s'" and "heap s' = heap s" and "channels s' = channels s"
    and "watch s' = (watch s)(ch_fd ch \<mapsto> (act \<and> \<not> isNoneEvent ch, ucast (events ch)))"
proof -
  obtain i where i: "channels s (ch_fd ch) = Some a" "0 \<le> ch_fd ch" "index ch = int i" "i < length (pollfds s)"
      "fd_of (pollfds s ! i) = ch_fd ch" and w: "watch s (ch_fd ch) = Some (0 \<le> pfd_fd (pollfds s ! i), pfd_events (pollfds s ! i))"
    using registeredD [OF inv reg] ch by (metis option.inject)
  let ?p = "updated_entry ch (pollfds s ! i)"
  let ?s = "s\<lparr>pollfds := (pollfds s)[i := ?p]\<rparr>"
  have "pfd_fd (pollfds s ! i) = ch_fd ch \<or> pfd_fd (pollfds s ! i) = - ch_fd ch - 1"
    using i(5) by (auto simp: fd_of_def split: if_splits)
  then have "updateChannel a s = Inr ?s"
    using ch i by (simp add: updateChannel_def ch_simps Let_def updated_entry_def)
  moreover have p: "fd_of ?p = ch_fd ch" "fd_of ?p = fd_of (pollfds s ! i)"
    using i(2,5) by (auto simp: fd_of_def updated_entry_def)
  moreover have "(0 \<le> pfd_fd ?p) = (act \<and> \<not> isNoneEvent ch)" "pfd_events ?p = ucast (events ch)"
    using act w i(2) by (auto simp: updated_entry_def)
  ultimately show thesis
    using set_entry [OF inv i(4) p(2)] by (intro that [of ?s]) (simp_all only: p(1), simp_all)
qed


section \<open>Removing a channel\<close>

text \<open>
  What a removal leaves: the last entry in the gap (which is nothing when the gap is the last place), and
  its channel with the new index.
\<close>

definition without ::
  "nat \<Rightarrow> Channel \<Rightarrow> nat \<Rightarrow> nat \<Rightarrow> Channel \<Rightarrow> 'z PollPoller_scheme \<Rightarrow> 'z PollPoller_scheme"
where
  "without a ch i b chb s =
     s\<lparr>channels := (channels s)(ch_fd ch := None), pollfds := (butlast (pollfds s))[i := last (pollfds s)],
       heap := (if i = length (pollfds s) - 1 then heap s else (heap s)(b \<mapsto> chb\<lparr>index := int i\<rparr>))\<rparr>"

lemma without_simps [simp]:
  "channels (without a ch i b chb s) = (channels s)(ch_fd ch := None)"
  "pollfds (without a ch i b chb s) = (butlast (pollfds s))[i := last (pollfds s)]"
  "heap (without a ch i b chb s) =
     (if i = length (pollfds s) - 1 then heap s else (heap s)(b \<mapsto> chb\<lparr>index := int i\<rparr>))"
  by (simp_all add: without_def)

lemma removeChannel_spec:
  assumes inv: "poller_inv s" and reg: "registered a s" and ch: "heap s a = Some ch"
    and none: "isNoneEvent ch" and ign: "watch s (ch_fd ch) = Some (False, 0)"
  obtains i b chb where "removeChannel a s = Inr (without a ch i b chb s)"
    and "channels s (ch_fd ch) = Some a" and "index ch = int i" and "i < length (pollfds s)"
    and "fd_of (pollfds s ! i) = ch_fd ch"
    and "channels s (fd_of (last (pollfds s))) = Some b" and "heap s b = Some chb"
    and "index chb = int (length (pollfds s) - 1)" and "ch_fd chb = fd_of (last (pollfds s))"
proof -
  obtain i where i: "channels s (ch_fd ch) = Some a" "0 \<le> ch_fd ch" "index ch = int i" "i < length (pollfds s)"
      "fd_of (pollfds s ! i) = ch_fd ch" and w: "watch s (ch_fd ch) = Some (0 \<le> pfd_fd (pollfds s ! i), pfd_events (pollfds s ! i))"
    using registeredD [OF inv reg] ch by (metis option.inject)
  let ?n = "length (pollfds s)"
  have ne: "pollfds s \<noteq> []" using i(4) by auto
  have "?n - 1 < ?n" using ne by simp
  then obtain b chb where b: "channels s (fd_of (last (pollfds s))) = Some b" "heap s b = Some chb"
      "index chb = int (?n - 1)" "ch_fd chb = fd_of (last (pollfds s))"
    unfolding last_conv_nth [OF ne] by (rule poller_inv_entry [OF inv])
  have entry: "pfd_fd (pollfds s ! i) = - ch_fd ch - 1" "pfd_events (pollfds s ! i) = 0" "events ch = 0"
    using ign w i(5) none by (auto simp: fd_of_def isNoneEvent_def kNoneEvent_def split: if_splits)
  have "removeChannel a s = Inr (without a ch i b chb s)"
  proof (cases "i = ?n - 1")
    case True
    then have "(butlast (pollfds s))[i := last (pollfds s)] = butlast (pollfds s)"
      by (intro list_update_beyond) simp
    moreover have "?n - Suc 0 = i" using True by simp
    ultimately show ?thesis using ch i none entry
      by (simp add: removeChannel_def ch_simps Let_def without_def)
  next
    case False
    have "fd_of (pollfds s ! i) \<noteq> fd_of (last (pollfds s))"
      using entries_inj [OF inv i(4), of "?n - 1"] False ne by (auto simp: last_conv_nth)
    then have "fd_of (last (pollfds s)) \<noteq> ch_fd ch" using i(5) by simp
    then have "((channels s)(ch_fd ch := None))
        (if pfd_fd (last (pollfds s)) < 0 then - pfd_fd (last (pollfds s)) - 1 else pfd_fd (last (pollfds s))) = Some b"
      using b(1) by (simp add: fd_of_def)
    moreover have "butlast ((pollfds s)[i := last (pollfds s), ?n - 1 := pollfds s ! i]) =
        (butlast (pollfds s))[i := last (pollfds s)]"
      using False i(4) by (simp add: butlast_list_update)
    ultimately show ?thesis
      using False ch i none entry b(2) by (simp add: removeChannel_def ch_simps Let_def without_def)
  qed
  then show thesis using i b by (intro that) auto
qed

lemma without_entry:
  assumes "i < length p" and "j < length p - 1"
  shows "((butlast p)[i := last p]) ! j = (if j = i then last p else p ! j)"
  using assms by (auto simp: nth_list_update nth_butlast)

text \<open>Where the channel of another descriptor is after a removal.\<close>

lemma without_kept:
  assumes inv: "poller_inv s" and ch: "heap s a = Some ch" "channels s (ch_fd ch) = Some a" "index ch = int i"
    and i: "i < length (pollfds s)" "fd_of (pollfds s ! i) = ch_fd ch"
    and b: "channels s (fd_of (last (pollfds s))) = Some b" "heap s b = Some chb"
    "index chb = int (length (pollfds s) - 1)" "ch_fd chb = fd_of (last (pollfds s))"
    and f: "channels s fd' = Some a'" "fd' \<noteq> ch_fd ch" "heap s a' = Some c" "ch_fd c = fd'" "index c = int j"
      "j < length (pollfds s)" "fd_of (pollfds s ! j) = fd'"
  shows "\<exists>c' j'. heap (without a ch i b chb s) a' = Some c' \<and> ch_fd c' = fd' \<and> index c' = int j' \<and> j' < length (pollfds s) - 1 \<and>
      pollfds (without a ch i b chb s) ! j' = pollfds s ! j"
proof -
  let ?n = "length (pollfds s)"
  note ent = without_entry [OF i(1)]
  have ne: "pollfds s \<noteq> []" using i(1) by auto
  have ji: "j \<noteq> i" using f(2,7) i(2) by auto
  show ?thesis
  proof (cases "j = ?n - 1")
    case True
    then have l: "last (pollfds s) = pollfds s ! j" using ne by (simp add: last_conv_nth)
    then have "a' = b" "c = chb" using b f by auto
    then show ?thesis using True ji i(1) f ent [of i] l by (auto simp: ent)
  next
    case False
    then have "j < ?n - 1" using f(6) by simp
    moreover have "a' \<noteq> b \<or> i = ?n - 1" using b(2,3) f(3,5) False by auto
    ultimately show ?thesis using f ji by (auto simp: nth_butlast)
  qed
qed

lemma without_inv:
  assumes inv: "poller_inv s" and ch: "heap s a = Some ch" "channels s (ch_fd ch) = Some a" "index ch = int i"
    and i: "i < length (pollfds s)" "fd_of (pollfds s ! i) = ch_fd ch"
    and b: "channels s (fd_of (last (pollfds s))) = Some b" "heap s b = Some chb"
    "index chb = int (length (pollfds s) - 1)" "ch_fd chb = fd_of (last (pollfds s))"
  shows "poller_inv (without a ch i b chb s)"
proof -
  let ?n = "length (pollfds s)"
  let ?s = "without a ch i b chb s"
  note kept = without_kept [OF assms]
  have ne: "pollfds s \<noteq> []" using i(1) by auto
  show ?thesis
  proof (rule poller_invI, goal_cases)
    case (1 fd' a')
    then have f: "channels s fd' = Some a'" "fd' \<noteq> ch_fd ch" by (auto split: if_splits)
    from f(1) obtain c j where c: "heap s a' = Some c" "ch_fd c = fd'" "0 \<le> fd'" "index c = int j" "j < ?n"
        "fd_of (pollfds s ! j) = fd'" by (rule poller_invD [OF inv])
    from kept [OF f c(1,2,4,5,6)] c show ?case by auto
  next
    case (2 j)
    then have j: "j < ?n - 1" by simp
    define k where "k = (if j = i then ?n - 1 else j)"
    have k: "k < ?n" "k \<noteq> i" "pollfds ?s ! j = pollfds s ! k"
      using j i(1) ne by (auto simp: k_def nth_butlast last_conv_nth)
    obtain a' c where c: "channels s (fd_of (pollfds s ! k)) = Some a'" "heap s a' = Some c" "index c = int k"
        "ch_fd c = fd_of (pollfds s ! k)" using k(1) by (rule poller_inv_entry [OF inv])
    have fd': "fd_of (pollfds s ! k) \<noteq> ch_fd ch" using entries_inj [OF inv k(1) i(1)] k(2) i(2) by auto
    from kept [OF c(1) fd' c(2,4,3) k(1) refl] obtain c' j' where
      c': "heap ?s a' = Some c'" "index c' = int j'" "j' < ?n - 1" "pollfds ?s ! j' = pollfds s ! k" by blast
    have "j' = j"
    proof -
      define k' where "k' = (if j' = i then ?n - 1 else j')"
      have "k' < ?n" "pollfds ?s ! j' = pollfds s ! k'"
        using c'(3) i(1) ne by (auto simp: k'_def nth_butlast last_conv_nth)
      then have "k' = k" using entries_inj [OF inv, of k' k] k(1) c'(4) by simp
      then show ?thesis using j c'(3) by (auto simp: k_def k'_def split: if_splits)
    qed
    with c c' k fd' show ?case by auto
  qed
qed

lemma without_watch:
  assumes inv: "poller_inv s" and ch: "heap s a = Some ch" "channels s (ch_fd ch) = Some a" "index ch = int i"
    and i: "i < length (pollfds s)" "fd_of (pollfds s ! i) = ch_fd ch"
    and b: "channels s (fd_of (last (pollfds s))) = Some b" "heap s b = Some chb"
    "index chb = int (length (pollfds s) - 1)" "ch_fd chb = fd_of (last (pollfds s))"
  shows "watch (without a ch i b chb s) = (watch s)(ch_fd ch := None)"
proof -
  let ?n = "length (pollfds s)"
  let ?s = "without a ch i b chb s"
  note kept = without_kept [OF assms]
  show ?thesis
  proof
    fix fd'
    show "watch ?s fd' = ((watch s)(ch_fd ch := None)) fd'"
    proof (cases "fd' = ch_fd ch \<or> channels s fd' = None")
      case True
      then show ?thesis by (auto simp: watch_def)
    next
      case False
      then obtain a' where f: "channels s fd' = Some a'" "fd' \<noteq> ch_fd ch" by auto
      from f(1) obtain c j where c: "heap s a' = Some c" "ch_fd c = fd'" "index c = int j" "j < ?n"
          "fd_of (pollfds s ! j) = fd'" by (rule poller_invD [OF inv])
      from kept [OF f c] obtain c' j' where
        "heap ?s a' = Some c'" "index c' = int j'" "pollfds ?s ! j' = pollfds s ! j" by blast
      with f c show ?thesis by (simp add: watch_def del: without_simps(2,3))
    qed
  qed
qed


section \<open>The registry contract\<close>

text \<open>
  What channels and their owners rely on: \<open>updateChannel\<close> of a fresh channel starts watching its
  descriptor, a later one changes or suspends the watch, \<open>removeChannel\<close> of a suspended channel ends it,
  and none of them touches another descriptor.
\<close>

locale channel_registry =
  fixes reg_inv :: "'z chan_store_scheme \<Rightarrow> bool"
    and is_reg :: "nat \<Rightarrow> 'z chan_store_scheme \<Rightarrow> bool"
    and watched :: "'z chan_store_scheme \<Rightarrow> int \<Rightarrow> (bool \<times> 16 word) option"
    and upd :: "'z chan_store_scheme chan_op"
    and rem :: "'z chan_store_scheme chan_op"
  assumes free_inv: "reg_inv s \<Longrightarrow> heap s a = Some ch \<Longrightarrow> reg_inv (s\<lparr>heap := (heap s)(a \<mapsto> ch\<lparr>events := e\<rparr>)\<rparr>)"
    and free_reg: "heap s a = Some ch \<Longrightarrow> is_reg b (s\<lparr>heap := (heap s)(a \<mapsto> ch\<lparr>events := e\<rparr>)\<rparr>) = is_reg b s"
    and free_watched: "heap s a = Some ch \<Longrightarrow> watched (s\<lparr>heap := (heap s)(a \<mapsto> ch\<lparr>events := e\<rparr>)\<rparr>) = watched s"
    and upd_new: "reg_inv s \<Longrightarrow> heap s a = Some ch \<Longrightarrow> index ch < 0 \<Longrightarrow> 0 \<le> ch_fd ch \<Longrightarrow> watched s (ch_fd ch) = None \<Longrightarrow>
      \<exists>s'. upd a s = Inr s' \<and> reg_inv s' \<and> is_reg a s' \<and> watched s' = (watched s)(ch_fd ch \<mapsto> (True, ucast (events ch)))"
    and upd_old: "reg_inv s \<Longrightarrow> is_reg a s \<Longrightarrow> heap s a = Some ch \<Longrightarrow> watched s (ch_fd ch) = Some (act, ev) \<Longrightarrow>
      \<exists>s'. upd a s = Inr s' \<and> reg_inv s' \<and> is_reg a s' \<and> heap s' = heap s \<and>
           watched s' = (watched s)(ch_fd ch \<mapsto> (act \<and> \<not> isNoneEvent ch, ucast (events ch)))"
    and rem_law: "reg_inv s \<Longrightarrow> is_reg a s \<Longrightarrow> heap s a = Some ch \<Longrightarrow> isNoneEvent ch \<Longrightarrow>
      watched s (ch_fd ch) = Some (False, 0) \<Longrightarrow>
      \<exists>s'. rem a s = Inr s' \<and> reg_inv s' \<and> \<not> is_reg a s' \<and> watched s' = (watched s)(ch_fd ch := None)"
begin

lemma set_events_new:
  assumes "reg_inv s" and "heap s a = Some ch" and "index ch < 0" and "0 \<le> ch_fd ch" and "watched s (ch_fd ch) = None"
  shows "\<exists>s'. set_events upd f a s = Inr s' \<and> reg_inv s' \<and> is_reg a s' \<and>
           watched s' = (watched s)(ch_fd ch \<mapsto> (True, ucast (f (events ch))))"
  using upd_new [of "s\<lparr>heap := (heap s)(a \<mapsto> ch\<lparr>events := f (events ch)\<rparr>)\<rparr>" a "ch\<lparr>events := f (events ch)\<rparr>"]
    free_inv [OF assms(1,2)] free_watched [OF assms(2)] assms
  by (auto simp: set_events_def ch_simps)

lemma set_events_old:
  assumes "reg_inv s" and "is_reg a s" and "heap s a = Some ch" and "watched s (ch_fd ch) = Some (act, ev)"
  shows "\<exists>s'. set_events upd f a s = Inr s' \<and> reg_inv s' \<and> is_reg a s' \<and>
           heap s' a = Some (ch\<lparr>events := f (events ch)\<rparr>) \<and>
           watched s' = (watched s)(ch_fd ch \<mapsto> (act \<and> f (events ch) \<noteq> kNoneEvent, ucast (f (events ch))))"
  using upd_old [of "s\<lparr>heap := (heap s)(a \<mapsto> ch\<lparr>events := f (events ch)\<rparr>)\<rparr>" a "ch\<lparr>events := f (events ch)\<rparr>" act ev]
    free_inv [OF assms(1,3)] free_watched [OF assms(3)] free_reg [OF assms(3)] assms
  by (auto simp: set_events_def ch_simps isNoneEvent_def)

text \<open>Retiring a channel: the pair of calls every owner makes before it destroys one.\<close>

lemma retire:
  assumes "reg_inv s" and "is_reg a s" and "heap s a = Some ch" and "watched s (ch_fd ch) = Some (act, ev)"
  shows "\<exists>s'. res_bind (disableAll upd a s) (remove_Channel rem a) = Inr s' \<and> reg_inv s' \<and> \<not> is_reg a s' \<and>
           watched s' = (watched s)(ch_fd ch := None)"
proof -
  obtain s1 where s1: "disableAll upd a s = Inr s1" "reg_inv s1" "is_reg a s1" "heap s1 a = Some (ch\<lparr>events := kNoneEvent\<rparr>)"
      "watched s1 = (watched s)(ch_fd ch \<mapsto> (False, 0))"
    using set_events_old [OF assms, of "\<lambda>_. kNoneEvent"] by (auto simp: disableAll_def kNoneEvent_def)
  with rem_law [OF s1(2,3,4)] show ?thesis
    by (auto simp: remove_Channel_def ch_simps isNoneEvent_def)
qed

end

lemma watch_None: "poller_inv s \<Longrightarrow> watch s fd = None \<longleftrightarrow> channels s fd = None"
  by (auto simp: watch_def Let_def split: option.splits elim!: poller_invD)

text \<open>The poller's own fields are the extension of the store, so the laws hold for every further extension.\<close>

interpretation pp: channel_registry
  "poller_inv :: 'z PollPoller_scheme \<Rightarrow> bool" registered watch updateChannel removeChannel
proof
  fix s :: "'z PollPoller_scheme" and a b :: nat and ch e act ev
  assume ch: "heap s a = Some ch"
  let ?s = "s\<lparr>heap := (heap s)(a \<mapsto> ch\<lparr>events := e\<rparr>)\<rparr>"
  show "poller_inv s \<Longrightarrow> poller_inv ?s" using poller_inv_events ch by blast
  show "registered b ?s = registered b s" using registered_events [OF ch] .
  show "watch ?s = watch s" using watch_events [OF ch] .
  assume inv: "poller_inv s"
  { assume "index ch < 0" "0 \<le> ch_fd ch" "watch s (ch_fd ch) = None"
    with updateChannel_new [OF inv ch] watch_None [OF inv]
    show "\<exists>s'. updateChannel a s = Inr s' \<and> poller_inv s' \<and> registered a s' \<and>
        watch s' = (watch s)(ch_fd ch \<mapsto> (True, ucast (events ch)))"
      by (auto simp: registered_def) }
  assume reg: "registered a s"
  { assume "watch s (ch_fd ch) = Some (act, ev)"
    with updateChannel_old [OF inv reg ch] obtain s' where
      "updateChannel a s = Inr s'" "poller_inv s'" "heap s' = heap s" "channels s' = channels s"
      "watch s' = (watch s)(ch_fd ch \<mapsto> (act \<and> \<not> isNoneEvent ch, ucast (events ch)))" by blast
    with reg show "\<exists>s'. updateChannel a s = Inr s' \<and> poller_inv s' \<and> registered a s' \<and> heap s' = heap s \<and>
        watch s' = (watch s)(ch_fd ch \<mapsto> (act \<and> \<not> isNoneEvent ch, ucast (events ch)))"
      by (auto simp: registered_def) }
  assume "isNoneEvent ch" "watch s (ch_fd ch) = Some (False, 0)"
  from removeChannel_spec [OF inv reg ch this] obtain i c chc where
    r: "removeChannel a s = Inr (without a ch i c chc s)" "channels s (ch_fd ch) = Some a" "index ch = int i"
      "i < length (pollfds s)" "fd_of (pollfds s ! i) = ch_fd ch"
      "channels s (fd_of (last (pollfds s))) = Some c" "heap s c = Some chc"
      "index chc = int (length (pollfds s) - 1)" "ch_fd chc = fd_of (last (pollfds s))" by blast
  have "\<not> registered a (without a ch i c chc s)"
  proof (cases "i = length (pollfds s) - 1 \<or> c \<noteq> a")
    case True
    then show ?thesis using ch by (auto simp: registered_def)
  next
    case False
    then have "chc = ch" using r(7) ch by simp
    with False r(3,8) show ?thesis by simp
  qed
  with r without_inv [OF inv ch r(2-9)] without_watch [OF inv ch r(2-9)]
  show "\<exists>s'. removeChannel a s = Inr s' \<and> poller_inv s' \<and> \<not> registered a s' \<and> watch s' = (watch s)(ch_fd ch := None)"
    by auto
qed


section \<open>Polling\<close>

definition ready :: "pollfd \<Rightarrow> bool" where
  "ready p \<longleftrightarrow> 0 < sint (pfd_revents p)"

text \<open>What the poller writes into a registered channel: the events reported for its descriptor.\<close>

definition reported :: "pollfd list \<Rightarrow> Channel \<Rightarrow> int32" where
  "reported pfds ch =
     (case find (\<lambda>p. ready p \<and> fd_of p = ch_fd ch) pfds of
        Some p \<Rightarrow> word_of_int (sint (pfd_revents p)) | None \<Rightarrow> revents ch)"

definition report ::
  "pollfd list \<Rightarrow> (int \<rightharpoonup> nat) \<Rightarrow> (nat \<rightharpoonup> Channel) \<Rightarrow> (nat \<rightharpoonup> Channel)"
where
  "report pfds cs h = (\<lambda>a. map_option (\<lambda>ch. if cs (ch_fd ch) = Some a then ch\<lparr>revents := reported pfds ch\<rparr> else ch) (h a))"

lemma reported_fresh: "\<forall>p \<in> set pfds. fd_of p \<noteq> ch_fd ch \<Longrightarrow> reported pfds ch = revents ch"
proof -
  assume "\<forall>p \<in> set pfds. fd_of p \<noteq> ch_fd ch"
  then have "find (\<lambda>p. ready p \<and> fd_of p = ch_fd ch) pfds = None" by (auto simp: find_None_iff)
  then show ?thesis by (simp add: reported_def)
qed

lemma reported_other: "\<not> (ready p \<and> fd_of p = ch_fd ch) \<Longrightarrow> reported (p # pfds) ch = reported pfds ch"
  by (auto simp: reported_def)

text \<open>Storing the event word of the first ready entry in its channel, then the rest.\<close>

lemma report_ready:
  assumes p: "ready p" and fresh: "\<forall>q \<in> set pfds. fd_of q \<noteq> fd_of p"
    and a: "cs (fd_of p) = Some a" "h a = Some ch" "ch_fd ch = fd_of p"
  shows "report pfds cs (h(a \<mapsto> ch\<lparr>revents := word_of_int (sint (pfd_revents p))\<rparr>)) = report (p # pfds) cs h"
    (is "report pfds cs ?h = _")
proof
  fix b
  show "report pfds cs ?h b = report (p # pfds) cs h b"
  proof (cases "b = a")
    case True
    have "\<forall>q \<in> set pfds. fd_of q \<noteq> ch_fd (ch\<lparr>revents := word_of_int (sint (pfd_revents p))\<rparr>)"
      using fresh a(3) by simp
    from reported_fresh [OF this] p True a show ?thesis by (simp add: report_def reported_def)
  next
    case False
    then have "reported (p # pfds) c = reported pfds c" if "cs (ch_fd c) = Some b" for c
      using reported_other [of p c] a(1) that by (metis option.inject)
    with False show ?thesis by (cases "h b") (simp_all add: report_def)
  qed
qed

lemma fillActiveChannels_spec:
  assumes "length (filter ready pfds) \<le> n" and "distinct (map fd_of pfds)"
    and "\<forall>p \<in> set pfds. ready p \<longrightarrow> 0 \<le> pfd_fd p"
    and "\<forall>p \<in> set pfds. \<exists>a ch. channels s (fd_of p) = Some a \<and> heap s a = Some ch \<and> ch_fd ch = fd_of p"
  shows "fillActiveChannels n pfds act s =
    Inr (act @ map (\<lambda>p. the (channels s (fd_of p))) (filter ready pfds), s\<lparr>heap := report pfds (channels s) (heap s)\<rparr>)"
  using assms
proof (induction pfds arbitrary: n act s)
  case Nil
  have "report [] (channels s) (heap s) = heap s"
    by (rule ext) (auto simp: report_def reported_def option.map_ident_strong split: option.split)
  then show ?case by simp
next
  case (Cons p pfds)
  show ?case
  proof (cases "ready p")
    case False
    then have "reported (p # pfds) = reported pfds" using reported_other [of p] by blast
    then have "report (p # pfds) (channels s) (heap s) = report pfds (channels s) (heap s)"
      unfolding report_def by (rule arg_cong)
    moreover have "n = 0 \<Longrightarrow> fillActiveChannels n pfds act s = Inr (act, s)" by (cases pfds) simp_all
    ultimately show ?thesis using Cons False by (auto simp: ready_def)
  next
    case True
    obtain a ch where a: "channels s (fd_of p) = Some a" "heap s a = Some ch" "ch_fd ch = fd_of p"
      using Cons.prems(4) by auto
    have fd: "pfd_fd p = fd_of p" using Cons.prems(3) True by (auto simp: fd_of_def)
    let ?r = "word_of_int (sint (pfd_revents p)) :: int32"
    let ?s = "s\<lparr>heap := (heap s)(a \<mapsto> ch\<lparr>revents := ?r\<rparr>)\<rparr>"
    have "fillActiveChannels (n - 1) pfds (act @ [a]) ?s =
        Inr ((act @ [a]) @ map (\<lambda>p. the (channels ?s (fd_of p))) (filter ready pfds),
             ?s\<lparr>heap := report pfds (channels ?s) (heap ?s)\<rparr>)"
      using Cons.prems True a(1) by (intro Cons.IH) (fastforce simp: a(2,3))+
    moreover have "report pfds (channels s) ((heap s)(a \<mapsto> ch\<lparr>revents := ?r\<rparr>)) = report (p # pfds) (channels s) (heap s)"
      using Cons.prems(2) True a by (intro report_ready) (force simp: image_iff)+
    moreover have "n \<noteq> 0" using Cons.prems(1) True by auto
    ultimately show ?thesis
      using True a fd ready_def [of p] by (simp add: ch_simps)
  qed
qed

text \<open>
  \<^verbatim>\<open>poll(2)\<close> as documented: one \<^verbatim>\<open>revents\<close> per entry, zero for a negative descriptor, and the return value
  counts the entries with a nonzero one; the event bits make a nonnegative \<^verbatim>\<open>short\<close>.
\<close>

definition poll_contract :: "pollfd list \<Rightarrow> int \<Rightarrow> 16 word list \<Rightarrow> bool" where
  "poll_contract pfds n revs \<longleftrightarrow>
     length revs = length pfds \<and>
     (\<forall>i < length pfds. pfd_fd (pfds ! i) < 0 \<longrightarrow> revs ! i = 0) \<and>
     (\<forall>r \<in> set revs. 0 \<le> sint r) \<and>
     n = int (length (filter (\<lambda>r. r \<noteq> 0) revs))"

lemma map2_revents:
  assumes "length revs = length pfds"
  shows "map pfd_revents (map2 (\<lambda>p r. p\<lparr>pfd_revents := r\<rparr>) pfds revs) = revs"
    and "map fd_of (map2 (\<lambda>p r. p\<lparr>pfd_revents := r\<rparr>) pfds revs) = map fd_of pfds"
  using assms by (induction revs pfds rule: list_induct2) (auto simp: fd_of_def)

lemma ready_count:
  assumes "\<forall>p \<in> set pfds. 0 \<le> sint (pfd_revents p)"
  shows "length (filter ready pfds) = length (filter (\<lambda>r. r \<noteq> 0) (map pfd_revents pfds))"
proof -
  have "ready p \<longleftrightarrow> pfd_revents p \<noteq> 0" if "p \<in> set pfds" for p
    using assms that by (metis less_le ready_def signed_0 signed_eq_0_iff)
  then have "filter ready pfds = filter (\<lambda>p. pfd_revents p \<noteq> 0) pfds" by (intro filter_cong) auto
  then show ?thesis by (simp add: filter_map comp_def)
qed

lemma poll_spec:
  assumes inv: "poller_inv s" and con: "poll_contract (pollfds s) n revs"
  defines "pfds \<equiv> map2 (\<lambda>p r. p\<lparr>pfd_revents := r\<rparr>) (pollfds s) revs"
  shows "poll n revs [] s =
    Inr (map (\<lambda>p. the (channels s (fd_of p))) (filter ready pfds),
         s\<lparr>pollfds := pfds, heap := report pfds (channels s) (heap s)\<rparr>)"
proof -
  have len: "length revs = length (pollfds s)" using con by (simp add: poll_contract_def)
  note m = map2_revents [OF len, folded pfds_def]
  have lp: "length pfds = length (pollfds s)" using m(2) by (metis length_map)
  have fds: "fd_of (pfds ! i) = fd_of (pollfds s ! i)" if "i < length (pollfds s)" for i
    using m(2) that lp by (metis nth_map)
  have rev: "pfd_revents (pfds ! i) = revs ! i" if "i < length (pollfds s)" for i
    using m(1) that lp by (metis nth_map)
  have "0 \<le> sint (pfd_revents p)" if "p \<in> set pfds" for p
    using con m(1) that unfolding poll_contract_def by (metis image_eqI set_map)
  then have count: "int (length (filter ready pfds)) = n"
    using con ready_count [of pfds] m(1) by (simp add: poll_contract_def)
  have dist: "distinct (map fd_of pfds)"
    unfolding m(2) distinct_conv_nth using entries_inj [OF inv] by auto
  have pos: "\<forall>p \<in> set pfds. ready p \<longrightarrow> 0 \<le> pfd_fd p"
  proof (intro ballI impI)
    fix p assume p: "p \<in> set pfds" "ready p"
    then obtain i where i: "i < length (pollfds s)" "p = pfds ! i" by (metis in_set_conv_nth lp)
    then have "revs ! i \<noteq> 0" using p(2) rev by (auto simp: ready_def)
    moreover have "pfd_fd p = pfd_fd (pollfds s ! i)" using i len by (simp add: pfds_def)
    ultimately show "0 \<le> pfd_fd p" using con i(1) by (auto simp: poll_contract_def not_less)
  qed
  have ent: "\<forall>p \<in> set pfds. \<exists>a ch. channels s (fd_of p) = Some a \<and> heap s a = Some ch \<and> ch_fd ch = fd_of p"
  proof
    fix p assume "p \<in> set pfds"
    then obtain i where i: "i < length (pollfds s)" "p = pfds ! i" by (metis in_set_conv_nth lp)
    from i(1) show "\<exists>a ch. channels s (fd_of p) = Some a \<and> heap s a = Some ch \<and> ch_fd ch = fd_of p"
      by (rule poller_inv_entry [OF inv]) (use i fds in auto)
  qed
  let ?s = "s\<lparr>pollfds := pfds\<rparr>"
  have "fillActiveChannels (nat n) pfds [] ?s =
      Inr (map (\<lambda>p. the (channels s (fd_of p))) (filter ready pfds), s\<lparr>pollfds := pfds, heap := report pfds (channels s) (heap s)\<rparr>)"
    using fillActiveChannels_spec [of pfds "nat n" ?s "[]"] count dist pos ent by simp
  moreover have "\<not> 0 < n \<Longrightarrow> fillActiveChannels (nat n) pfds [] ?s = Inr ([], ?s)"
    by (cases pfds) simp_all
  ultimately show ?thesis by (auto simp: poll_def pfds_def [symmetric] Let_def)
qed


lemma polled_entries:
  assumes "poll_contract pfds n revs"
  defines "pfds' \<equiv> map2 (\<lambda>p r. p\<lparr>pfd_revents := r\<rparr>) pfds revs"
  shows "length pfds' = length pfds"
    and "i < length pfds \<Longrightarrow> pfds' ! i = (pfds ! i)\<lparr>pfd_revents := revs ! i\<rparr>"
    and "i < length pfds \<Longrightarrow> ready (pfds' ! i) \<longleftrightarrow> revs ! i \<noteq> 0"
    and "filter ready pfds' = map (\<lambda>i. pfds' ! i) (filter (\<lambda>i. revs ! i \<noteq> 0) [0..<length pfds])"
proof -
  have len: "length revs = length pfds" using assms by (simp add: poll_contract_def)
  then show l: "length pfds' = length pfds" by (simp add: pfds'_def)
  show e: "pfds' ! i = (pfds ! i)\<lparr>pfd_revents := revs ! i\<rparr>" if "i < length pfds" for i
    using that len by (simp add: pfds'_def)
  have nonneg: "0 \<le> sint (revs ! i)" if "i < length pfds" for i
    using assms(1) that len unfolding poll_contract_def by (metis nth_mem)
  show r: "ready (pfds' ! i) \<longleftrightarrow> revs ! i \<noteq> 0" if "i < length pfds" for i
    using nonneg [OF that] e [OF that] by (simp add: ready_def) (metis less_le signed_0 signed_eq_0_iff)
  have "filter ready pfds' = filter ready (map (\<lambda>i. pfds' ! i) [0..<length pfds])"
    using l by (metis map_nth)
  also have "\<dots> = map (\<lambda>i. pfds' ! i) (filter (\<lambda>i. revs ! i \<noteq> 0) [0..<length pfds])"
    unfolding filter_map by (rule arg_cong [of _ _ "map _"], rule filter_cong) (auto simp: r)
  finally show "filter ready pfds' = map (\<lambda>i. pfds' ! i) (filter (\<lambda>i. revs ! i \<noteq> 0) [0..<length pfds])" .
qed

lemma reported_entry:
  assumes "distinct (map fd_of pfds)" and "i < length pfds" and "ready (pfds ! i)" and "fd_of (pfds ! i) = ch_fd ch"
  shows "reported pfds ch = word_of_int (sint (pfd_revents (pfds ! i)))"
proof -
  have "\<exists>p \<in> set pfds. ready p \<and> fd_of p = ch_fd ch" using assms(2-4) nth_mem by blast
  then obtain p where p: "find (\<lambda>p. ready p \<and> fd_of p = ch_fd ch) pfds = Some p"
    by (metis (mono_tags, lifting) find_None_iff not_None_eq)
  then obtain j where "j < length pfds" "p = pfds ! j" "fd_of (pfds ! j) = ch_fd ch"
    by (auto simp: find_Some_iff)
  moreover from this have "j = i" using assms by (metis distinct_conv_nth length_map nth_map)
  ultimately show ?thesis using p by (simp add: reported_def)
qed

lemma report_untouched:
  assumes "\<forall>p \<in> set pfds. ready p \<longrightarrow> cs (fd_of p) \<noteq> Some a"
  shows "report pfds cs h a = h a"
proof (cases "h a")
  case (Some ch)
  have "reported pfds ch = revents ch" if "cs (ch_fd ch) = Some a"
  proof -
    have "find (\<lambda>p. ready p \<and> fd_of p = ch_fd ch) pfds = None" using assms that by (auto simp: find_None_iff)
    then show ?thesis by (simp add: reported_def)
  qed
  with Some show ?thesis by (simp add: report_def)
qed (simp add: report_def)

lemma poll_active:
  assumes inv: "poller_inv s" and con: "poll_contract (pollfds s) n revs"
  shows "\<exists>active s'. poll n revs [] s = Inr (active, s') \<and> distinct active \<and>
           map Some active = map (\<lambda>i. channels s (pfd_fd (pollfds s ! i))) (filter (\<lambda>i. revs ! i \<noteq> 0) [0..<length (pollfds s)]) \<and>
           (\<forall>i < length (pollfds s). revs ! i \<noteq> 0 \<longrightarrow>
              (\<exists>a ch. channels s (pfd_fd (pollfds s ! i)) = Some a \<and> heap s a = Some ch \<and>
                      heap s' a = Some (ch\<lparr>revents := word_of_int (sint (revs ! i))\<rparr>))) \<and>
           (\<forall>a. a \<notin> set active \<longrightarrow> heap s' a = heap s a)"
proof -
  define pfds where "pfds = map2 (\<lambda>p r. p\<lparr>pfd_revents := r\<rparr>) (pollfds s) revs"
  note spec = poll_spec [OF assms, folded pfds_def]
  note pe = polled_entries [OF con, folded pfds_def]
  let ?n = "length (pollfds s)"
  let ?is = "filter (\<lambda>i. revs ! i \<noteq> 0) [0..<?n]"
  let ?act = "map (\<lambda>p. the (channels s (fd_of p))) (filter ready pfds)"
  let ?h = "report pfds (channels s) (heap s)"
  have fd: "fd_of (pfds ! i) = fd_of (pollfds s ! i)" if "i < ?n" for i
    using pe(2) [OF that] by (simp add: fd_of_def)
  have dist: "distinct (map fd_of pfds)"
    using entries_inj [OF inv] fd pe(1) by (auto simp: distinct_conv_nth)
  have entry: "\<exists>a ch. channels s (fd_of (pfds ! i)) = Some a \<and> heap s a = Some ch \<and> ch_fd ch = fd_of (pfds ! i)"
    if "i < ?n" for i
    using poller_inv_entry [OF inv that] fd [OF that] by metis
  have pos: "fd_of (pfds ! i) = pfd_fd (pollfds s ! i)" if "i < ?n" "revs ! i \<noteq> 0" for i
    using con that fd [OF that(1)] by (auto simp: poll_contract_def fd_of_def)
  have act: "?act = map (\<lambda>i. the (channels s (fd_of (pfds ! i)))) ?is" unfolding pe(4) by simp
  have "distinct ?act"
    unfolding act distinct_map
  proof (intro conjI inj_onI)
    fix i j assume ij: "i \<in> set ?is" "j \<in> set ?is"
      and eq: "the (channels s (fd_of (pfds ! i))) = the (channels s (fd_of (pfds ! j)))"
    then have "fd_of (pfds ! i) = fd_of (pfds ! j)" using entry [of i] entry [of j] by fastforce
    with ij show "i = j" using entries_inj [OF inv, of i j] fd by auto
  qed simp
  moreover have "map Some ?act = map (\<lambda>i. channels s (pfd_fd (pollfds s ! i))) ?is"
    unfolding act map_map using entry pos by (intro map_cong) force+
  moreover have "\<exists>a ch. channels s (pfd_fd (pollfds s ! i)) = Some a \<and> heap s a = Some ch \<and>
      ?h a = Some (ch\<lparr>revents := word_of_int (sint (revs ! i))\<rparr>)" if i: "i < ?n" "revs ! i \<noteq> 0" for i
  proof -
    obtain a ch where a: "channels s (fd_of (pfds ! i)) = Some a" "heap s a = Some ch" "ch_fd ch = fd_of (pfds ! i)"
      using entry [OF i(1)] by blast
    have "reported pfds ch = word_of_int (sint (revs ! i))"
      using reported_entry [OF dist, of i ch] i pe a(3) by simp
    with a pos [OF i] show ?thesis by (auto simp: report_def)
  qed
  moreover have "?h a = heap s a" if "a \<notin> set ?act" for a
    using that by (intro report_untouched) force
  ultimately show ?thesis
    using spec by (intro exI [of _ ?act] exI [of _ "s\<lparr>pollfds := pfds, heap := ?h\<rparr>"]) auto
qed

text \<open>A new channel object, not yet known to the poller.\<close>

lemma alloc_channel:
  assumes "poller_inv s" and "heap s a = None"
  shows "poller_inv (s\<lparr>heap := (heap s)(a \<mapsto> ch)\<rparr>)" and "watch (s\<lparr>heap := (heap s)(a \<mapsto> ch)\<rparr>) = watch s"
proof -
  have none: "channels s f \<noteq> Some a" for f using poller_invD [OF assms(1)] assms(2) by (metis option.distinct(1))
  then show "watch (s\<lparr>heap := (heap s)(a \<mapsto> ch)\<rparr>) = watch s" by (auto simp: watch_def fun_eq_iff split: option.splits)
  let ?s = "s\<lparr>heap := (heap s)(a \<mapsto> ch)\<rparr>"
  show "poller_inv ?s"
  proof (rule poller_invI)
    fix f b assume "channels ?s f = Some b"
    then have "channels s f = Some b" "b \<noteq> a" using none by auto
    then show "\<exists>c i. heap ?s b = Some c \<and> ch_fd c = f \<and> 0 \<le> f \<and> index c = int i \<and> i < length (pollfds ?s) \<and> fd_of (pollfds ?s ! i) = f"
      by (elim poller_invD [OF assms(1)]) auto
  next
    fix i assume "i < length (pollfds ?s)"
    then have "i < length (pollfds s)" by simp
    then obtain b c where "channels s (fd_of (pollfds s ! i)) = Some b" "heap s b = Some c" "index c = int i"
      by (rule poller_inv_entry [OF assms(1)])
    then show "\<exists>b c. channels ?s (fd_of (pollfds ?s ! i)) = Some b \<and> heap ?s b = Some c \<and> index c = int i"
      using assms(2) by auto
  qed
qed


section \<open>Properties\<close>

text \<open>
  Registering, changing and removing channels keeps \<open>pollfds_\<close> and \<open>channels_\<close> consistent and changes
  what is watched for that one descriptor only: a new channel is watched for its events, retiring one
  (\<open>disableAll\<close>, then \<open>remove\<close>) always passes the assertions and ends the watch, also when the last entry
  has to be moved into the gap.
\<close>

theorem poller_registry:
  fixes s :: "'z PollPoller_scheme"
  assumes "poller_inv s" and "heap s a = Some ch"
  shows "(index ch < 0 \<and> 0 \<le> ch_fd ch \<and> watch s (ch_fd ch) = None \<longrightarrow>
            (\<exists>s'. enableReading updateChannel a s = Inr s' \<and> poller_inv s' \<and> registered a s' \<and>
                  watch s' = (watch s)(ch_fd ch \<mapsto> (True, ucast (events ch OR kReadEvent))))) \<and>
         (registered a s \<longrightarrow>
            (\<exists>s'. res_bind (disableAll updateChannel a s) (remove_Channel removeChannel a) = Inr s' \<and>
                  poller_inv s' \<and> \<not> registered a s' \<and> watch s' = (watch s)(ch_fd ch := None)))"
proof (intro conjI impI)
  assume "index ch < 0 \<and> 0 \<le> ch_fd ch \<and> watch s (ch_fd ch) = None"
  then show "\<exists>s'. enableReading updateChannel a s = Inr s' \<and> poller_inv s' \<and> registered a s' \<and>
      watch s' = (watch s)(ch_fd ch \<mapsto> (True, ucast (events ch OR kReadEvent)))"
    unfolding enableReading_def using assms by (intro pp.set_events_new) auto
next
  assume reg: "registered a s"
  obtain w where "watch s (ch_fd ch) = Some w"
    using registeredD [OF assms(1) reg] assms(2) by (metis option.inject)
  then show "\<exists>s'. res_bind (disableAll updateChannel a s) (remove_Channel removeChannel a) = Inr s' \<and>
      poller_inv s' \<and> \<not> registered a s' \<and> watch s' = (watch s)(ch_fd ch := None)"
    using pp.retire [OF assms(1) reg assms(2)] by (cases w) auto
qed

definition two_channels :: PollPoller where
  "two_channels = \<lparr>heap = [0 \<mapsto> (new_Channel 4)\<lparr>events := kReadEvent, index := 0\<rparr>, 1 \<mapsto> (new_Channel 7)\<lparr>events := kReadEvent, index := 1\<rparr>],
     pollfds = [\<lparr>pfd_fd = 4, pfd_events = 3, pfd_revents = 0\<rparr>, \<lparr>pfd_fd = 7, pfd_events = 3, pfd_revents = 0\<rparr>],
     channels = [4 \<mapsto> 0, 7 \<mapsto> 1]\<rparr>"

lemma two_channels_inv: "poller_inv two_channels" "registered 0 two_channels" "registered 1 two_channels"
  by (auto simp: poller_inv_def registered_def two_channels_def new_Channel_def fd_of_def less_Suc_eq split: if_splits)

theorem poller_registry_witness:
  "\<exists>s'. res_bind (disableAll updateChannel 0 two_channels) (remove_Channel removeChannel 0) = Inr s' \<and>
        poller_inv s' \<and> watch s' 4 = None \<and> watch s' 7 = Some (True, 3)"
proof -
  have "heap two_channels 0 = Some ((new_Channel 4)\<lparr>events := kReadEvent, index := 0\<rparr>)"
    by (simp add: two_channels_def)
  moreover have "watch two_channels 7 = Some (True, 3)"
    by (simp add: watch_def two_channels_def)
  ultimately show ?thesis
    using poller_registry [OF two_channels_inv(1), of 0] two_channels_inv(2) by (auto simp: new_Channel_def)
qed

text \<open>
  C28. \<open>poll\<close> never fails an assertion, and it reports exactly the channels for which \<open>poll(2)\<close> set events,
  each once and in the order of the entries, with those events stored in the channel; other channels are
  unchanged.
\<close>

theorem poll_reports_active:
  assumes "poller_inv s" and "poll_contract (pollfds s) n revs"
  shows "\<exists>active s'. poll n revs [] s = Inr (active, s') \<and> distinct active \<and>
           map Some active = map (\<lambda>i. channels s (pfd_fd (pollfds s ! i))) (filter (\<lambda>i. revs ! i \<noteq> 0) [0..<length (pollfds s)]) \<and>
           (\<forall>i < length (pollfds s). revs ! i \<noteq> 0 \<longrightarrow>
              (\<exists>a ch. channels s (pfd_fd (pollfds s ! i)) = Some a \<and> heap s a = Some ch \<and>
                      heap s' a = Some (ch\<lparr>revents := word_of_int (sint (revs ! i))\<rparr>))) \<and>
           (\<forall>a. a \<notin> set active \<longrightarrow> heap s' a = heap s a)"
  by (rule poll_active [OF assms])

theorem poll_reports_active_witness:
  "\<exists>active s'. poll 1 [0, 1] [] two_channels = Inr (active, s') \<and> map Some active = [Some 1]"
proof -
  have len: "[0..<length (pollfds two_channels)] = [0, 1]" by (simp add: two_channels_def upt_rec)
  have "poll_contract (pollfds two_channels) 1 [0, 1]"
    by (auto simp: poll_contract_def two_channels_def less_Suc_eq)
  from poll_reports_active [OF two_channels_inv(1) this] show ?thesis
    unfolding len by (auto simp: two_channels_def)
qed

text \<open>
  Once a channel has been disabled, enabling it again does not bring it back: \<open>updateChannel\<close> keeps the
  negated descriptor in \<open>pollfds_\<close>, so \<open>poll(2)\<close> goes on ignoring the channel although it asks for events.
\<close>

theorem reenabled_channel_ignored:
  fixes s :: "'z PollPoller_scheme"
  assumes "poller_inv s" and "registered a s" and "heap s a = Some ch"
  shows "\<exists>s'. res_bind (disableAll updateChannel a s) (enableReading updateChannel a) = Inr s' \<and>
           watch s' (ch_fd ch) = Some (False, ucast kReadEvent)"
proof -
  obtain act ev where w: "watch s (ch_fd ch) = Some (act, ev)"
    using registeredD [OF assms(1,2)] assms(3) by (metis option.inject)
  from pp.set_events_old [OF assms w, of "\<lambda>_. kNoneEvent"] obtain s1 where
    s1: "disableAll updateChannel a s = Inr s1" "poller_inv s1" "registered a s1"
      "heap s1 a = Some (ch\<lparr>events := kNoneEvent\<rparr>)" "watch s1 (ch_fd ch) = Some (False, 0)"
    by (auto simp: disableAll_def kNoneEvent_def)
  from pp.set_events_old [OF s1(2-4), of False 0 "\<lambda>e. e OR kReadEvent"] s1(1,5) show ?thesis
    by (auto simp: enableReading_def kNoneEvent_def)
qed

theorem reenabled_channel_ignored_witness:
  "\<exists>s'. res_bind (disableAll updateChannel 0 two_channels) (enableReading updateChannel 0) = Inr s' \<and>
        watch s' 4 = Some (False, 3)"
proof -
  have "heap two_channels 0 = Some ((new_Channel 4)\<lparr>events := kReadEvent, index := 0\<rparr>)"
    by (simp add: two_channels_def)
  from reenabled_channel_ignored [OF two_channels_inv(1,2) this] show ?thesis
    by (simp add: new_Channel_def event_defs)
qed

end
