(* ===== verification/Acceptor.thy ===== *)
theory Acceptor
  imports Sockets PollPoller
begin

text \<open>
  \<^verbatim>\<open>base/src/Acceptor.cpp\<close>: the listening socket of a server. Its channel is registered with the poller of the
  loop. One descriptor, \<open>idleFd\<close>, is kept open so that, when the process has no descriptor left, a waiting
  connection can be accepted and closed at once instead of being reported as readable for ever. Between two
  system calls other threads may open and close descriptors: \<open>oth i\<close> is what they do in the \<open>i\<close>th gap.
\<close>

section \<open>State\<close>

record Acceptor =
  acceptFd :: int
  acceptChannel :: nat
  newConnectionCB :: bool
  acc_listenning :: bool
  idleFd :: int


section \<open>Operations\<close>

text \<open>\<open>a\<close> is the address of the channel, \<open>sockfd\<close> and \<open>idle\<close> the descriptors the kernel returned; a failed bind is only printed.\<close>

definition new_Acceptor :: "nat \<Rightarrow> int \<Rightarrow> int \<Rightarrow> 'z PollPoller_scheme \<Rightarrow> (Acceptor \<times> 'z PollPoller_scheme) res" where
  "new_Acceptor a sockfd idle s =
     cassert (idle \<ge> 0)
       (Inr (\<lparr>acceptFd = sockfd, acceptChannel = a, newConnectionCB = False, acc_listenning = False, idleFd = idle\<rparr>,
             s\<lparr>heap := (heap s)(a \<mapsto> set_callback ReadCB (new_Channel sockfd))\<rparr>))"

definition setNewConnectionCallback :: "Acceptor \<Rightarrow> Acceptor" where
  "setNewConnectionCallback acc = acc\<lparr>newConnectionCB := True\<rparr>"

definition listen :: "Acceptor \<Rightarrow> 'z PollPoller_scheme \<Rightarrow> (Acceptor \<times> 'z PollPoller_scheme) res" where
  "listen acc s =
     (let acc = acc\<lparr>acc_listenning := True\<rparr> in
      res_bind (enableReading updateChannel (acceptChannel acc) s) (\<lambda>s. Inr (acc, s)))"

definition destroy_Acceptor :: "Acceptor \<Rightarrow> kernel \<Rightarrow> 'z PollPoller_scheme \<Rightarrow> (kernel \<times> 'z PollPoller_scheme) res" where
  "destroy_Acceptor acc k s =
     res_bind (disableAll updateChannel (acceptChannel acc) s) (\<lambda>s.
     res_bind (remove_Channel removeChannel (acceptChannel acc) s) (\<lambda>s.
     Inr (k_close (acceptFd acc) (k_close (idleFd acc) k), s)))"

text \<open>The result of \<open>handleRead\<close> is the connection handed to the callback, if any.\<close>

definition accept_event ::
  "(nat \<Rightarrow> kernel \<Rightarrow> kernel) \<Rightarrow> errno \<Rightarrow> Acceptor \<times> kernel \<Rightarrow> (int \<times> sockaddr_in) option \<times> Acceptor \<times> kernel"
where
  "accept_event oth e' st =
     (case st of (acc, k) \<Rightarrow>
      let (answer, k) = k_accept k;
          (connfd, peerAddr, en) = Socket_accept answer e' (InetAddress_port 0)
      in if connfd \<ge> 0 then
           if newConnectionCB acc then (Some (connfd, peerAddr), acc, k) else (None, acc, k_close connfd k)
         else if en = EMFILE then
           let k = oth 0 (k_close (idleFd acc) k);
               (answer, k) = k_accept k;
               idle = (case answer of Inr (fd, _) \<Rightarrow> fd | Inl _ \<Rightarrow> -1);
               k = oth 2 (k_close idle (oth 1 k));
               (idle, k) = k_open k
           in (None, acc\<lparr>idleFd := idle\<rparr>, k)
         else (None, acc, k))"


section \<open>Descriptors\<close>

definition acceptor_inv :: "Acceptor \<Rightarrow> kernel \<Rightarrow> bool" where
  [inv_simps]: "acceptor_inv acc k \<longleftrightarrow> kernel_wf k \<and> 0 \<le> idleFd acc \<and> nat (idleFd acc) \<in> set (open_fds k)"

abbreviation alone :: "nat \<Rightarrow> kernel \<Rightarrow> kernel" where
  "alone \<equiv> \<lambda>_ k. k"

text \<open>With a free descriptor the first waiting connection is accepted.\<close>

lemma accept_event_free:
  assumes "free_fd k = Some n" and "backlog k = a # q"
  shows "accept_event oth e' (acc, k) =
     (if newConnectionCB acc then (Some (int n, a), acc, k\<lparr>open_fds := n # open_fds k, backlog := q\<rparr>)
      else (None, acc, k\<lparr>backlog := q\<rparr>))"
proof -
  have "filter (\<lambda>m. m \<noteq> n) (open_fds k) = open_fds k" using free_fd_Some [OF assms(1)] by (auto simp: filter_id_conv)
  with assms show ?thesis
    by (simp add: accept_event_def k_accept_def Socket_accept_def sockets_accept_def k_close_def Let_def)
qed

text \<open>Without one, the reserve is given up for as long as it takes to accept the connection and close it.\<close>

lemma accept_event_full:
  assumes inv: "acceptor_inv acc k" and full: "free_fd k = None" and q: "backlog k = a # q"
  shows "\<exists>k'. accept_event alone e' (acc, k) = (None, acc, k') \<and> backlog k' = q \<and> set (open_fds k') = set (open_fds k) \<and>
           kernel_wf k' \<and> fd_limit k' = fd_limit k"
proof -
  obtain n where n: "idleFd acc = int n" "n \<in> set (open_fds k)" and wf: "kernel_wf k"
    using inv by (auto simp: acceptor_inv_def intro: nonneg_eq_int)
  have acc: "acc\<lparr>idleFd := int n\<rparr> = acc" using n(1) by simp
  have 1: "free_fd (k_close (int n) k) = Some n" using reopen_closed [OF wf full n(2)] .
  let ?k = "(k_close (int n) k)\<lparr>backlog := q\<rparr>"
  have "free_fd ?k = Some n" using 1 by (simp add: free_fd_def)
  moreover have "k_close (int n) ((k_close (int n) k)\<lparr>open_fds := n # open_fds (k_close (int n) k), backlog := q\<rparr>) = ?k"
    by (simp add: k_close_def)
  ultimately have "accept_event alone e' (acc, k) = (None, acc, ?k\<lparr>open_fds := n # open_fds ?k\<rparr>)"
    using 1 full q n(1) acc
    by (simp add: accept_event_def k_accept_def Socket_accept_def sockets_accept_def k_open_def k_close_def [of _ k] Let_def)
  moreover have "set (open_fds (?k\<lparr>open_fds := n # open_fds ?k\<rparr>)) = set (open_fds k)" using n(2) by (auto simp: k_close_def)
  moreover have "kernel_wf (?k\<lparr>open_fds := n # open_fds ?k\<rparr>)" using wf n(2) by (auto simp: kernel_wf_def k_close_def)
  ultimately show ?thesis by (simp add: k_close_def)
qed


section \<open>Properties\<close>


text \<open>A process with three descriptors, all in use, and two waiting connections.\<close>

definition busy :: kernel where
  "busy = \<lparr>fd_limit = 3, open_fds = [2, 1, 0], backlog = [InetAddress_port 1, InetAddress_port 2]\<rparr>"

definition busy_acceptor :: Acceptor where
  "busy_acceptor = \<lparr>acceptFd = 1, acceptChannel = 0, newConnectionCB = True, acc_listenning = True, idleFd = 2\<rparr>"

lemma busy_inv: "acceptor_inv busy_acceptor busy"
  by (auto simp: acceptor_inv_def kernel_wf_def busy_def busy_acceptor_def)


text \<open>
  With other threads the reserve can be lost: a thread that opens a descriptor just after \<open>handleRead\<close> closed
  the reserve leaves \<open>idleFd_\<close> negative, and from then on an event changes nothing while the table is full, so
  the loop spins on the readable listening socket.
\<close>

theorem acceptor_reserve_lost:
  assumes "acceptor_inv acc k" and "free_fd k = None"
  shows "\<exists>k'. accept_event (\<lambda>i k. if i = 0 then snd (k_open k) else k) e' (acc, k) = (None, acc\<lparr>idleFd := -1\<rparr>, k') \<and>
           free_fd k' = None \<and> backlog k' = backlog k \<and>
           accept_event alone e' (acc\<lparr>idleFd := -1\<rparr>, k') = (None, acc\<lparr>idleFd := -1\<rparr>, k')"
proof -
  obtain n where n: "idleFd acc = int n" "n \<in> set (open_fds k)" and wf: "kernel_wf k"
    using assms(1) by (auto simp: acceptor_inv_def intro: nonneg_eq_int)
  have 1: "free_fd (k_close (int n) k) = Some n" using reopen_closed [OF wf assms(2) n(2)] .
  let ?k = "(k_close (int n) k)\<lparr>open_fds := n # open_fds (k_close (int n) k)\<rparr>"
  have full: "free_fd ?k = None" using assms(2) by (auto simp: free_fd_None k_close_def)
  have neg: "k_close (-1) k = k" for k by (simp add: k_close_def filter_id_conv)
  have "accept_event (\<lambda>i k. if i = 0 then snd (k_open k) else k) e' (acc, k) = (None, acc\<lparr>idleFd := -1\<rparr>, ?k)"
    using assms(2) n(1) 1 full
    by (simp add: accept_event_def k_accept_def Socket_accept_def sockets_accept_def k_open_def neg Let_def)
  moreover have "accept_event alone e' (acc\<lparr>idleFd := -1\<rparr>, ?k) = (None, acc\<lparr>idleFd := -1\<rparr>, ?k)"
    using full by (simp add: accept_event_def k_accept_def Socket_accept_def sockets_accept_def k_open_def neg Let_def)
  ultimately show ?thesis using full by (simp add: k_close_def)
qed

theorem acceptor_reserve_lost_witness:
  "\<exists>k'. accept_event alone E_OK (busy_acceptor\<lparr>idleFd := -1\<rparr>, k') = (None, busy_acceptor\<lparr>idleFd := -1\<rparr>, k') \<and>
        backlog k' = backlog busy"
proof -
  have "free_fd busy = None" by (auto simp: free_fd_None busy_def)
  from acceptor_reserve_lost [OF busy_inv this, of E_OK] show ?thesis by blast
qed

text \<open>
  C29. The life of an acceptor in its loop: once it listens, its socket is watched for reading, and its destructor
  ends the watch and closes both descriptors; but destroying an acceptor that never listened, as happens to a
  server that is not started, aborts the program.
\<close>

theorem acceptor_lifecycle:
  fixes s :: "'z PollPoller_scheme"
  assumes "poller_inv s" and "heap s a = None" and "0 \<le> fd" and "watch s fd = None" and "0 \<le> idle"
  shows "\<exists>acc s1. new_Acceptor a fd idle s = Inr (acc, s1) \<and> idleFd acc = idle \<and>
           (\<exists>s2 s3. listen acc s1 = Inr (acc\<lparr>acc_listenning := True\<rparr>, s2) \<and>
              watch s2 = (watch s)(fd \<mapsto> (True, ucast kReadEvent)) \<and>
              destroy_Acceptor (acc\<lparr>acc_listenning := True\<rparr>) k s2 = Inr (k_close fd (k_close idle k), s3) \<and>
              poller_inv s3 \<and> watch s3 = watch s) \<and>
           destroy_Acceptor acc k s1 = Inl AssertFail"
proof -
  let ?ch = "set_callback ReadCB (new_Channel fd)"
  let ?s = "s\<lparr>heap := (heap s)(a \<mapsto> ?ch)\<rparr>"
  let ?acc = "\<lparr>acceptFd = fd, acceptChannel = a, newConnectionCB = False, acc_listenning = False, idleFd = idle\<rparr>"
  have ch: "ch_fd ?ch = fd" "events ?ch = 0" "index ?ch < 0" by (simp_all add: set_callback_def new_Channel_def)
  note inv = alloc_channel(1) [OF assms(1,2), of ?ch] and w = alloc_channel(2) [OF assms(1,2)]
  let ?ch1 = "?ch\<lparr>events := kReadEvent\<rparr>"
  let ?s1 = "?s\<lparr>heap := (heap ?s)(a \<mapsto> ?ch1)\<rparr>"
  have free: "channels s fd = None" using assms(4) watch_None [OF assms(1)] by simp
  have "poller_inv ?s1" using poller_inv_events [OF inv, of a ?ch] by simp
  note upd = updateChannel_new [OF this, of a ?ch1]
  define s2 where "s2 = with_new a ?ch1 ?s1"
  have s2: "enableReading updateChannel a ?s = Inr s2" "poller_inv s2" "watch s2 = (watch s)(fd \<mapsto> (True, ucast kReadEvent))"
    using upd ch w free assms(3) by (simp_all add: s2_def enableReading_def set_events_def ch_simps)
  have ch2: "heap s2 a = Some (?ch1\<lparr>index := int (length (pollfds s))\<rparr>)" "registered a s2"
    using ch(1) by (simp_all add: s2_def registered_def)
  obtain s3 where s3: "res_bind (disableAll updateChannel a s2) (remove_Channel removeChannel a) = Inr s3" "poller_inv s3"
      "watch s3 = (watch s2)(fd := None)"
    using pp.retire [OF s2(2) ch2(2,1)] s2(3) ch(1) by auto
  have "watch s3 = watch s" using s3(3) s2(3) assms(4) by (auto simp: fun_eq_iff)
  moreover have "destroy_Acceptor (?acc\<lparr>acc_listenning := True\<rparr>) k s2 = Inr (k_close fd (k_close idle k), s3)"
    using s3(1) by (simp add: destroy_Acceptor_def res_bind_assoc [symmetric])
  moreover have "destroy_Acceptor ?acc k ?s = Inl AssertFail"
  proof -
    have "updateChannel a (?s\<lparr>heap := (heap ?s)(a \<mapsto> ?ch\<lparr>events := kNoneEvent\<rparr>)\<rparr>) = Inr (with_new a (?ch\<lparr>events := kNoneEvent\<rparr>) ?s)"
      using updateChannel_new(1) [OF poller_inv_events [OF inv, of a ?ch kNoneEvent], of a "?ch\<lparr>events := kNoneEvent\<rparr>"] ch free assms(3)
      by (simp add: with_new_def)
    then show ?thesis
      using ch assms(3)
      by (simp add: destroy_Acceptor_def disableAll_def set_events_def ch_simps remove_Channel_def removeChannel_def
          isNoneEvent_def Let_def new_entry_def)
  qed
  ultimately show ?thesis
    using s2 s3(2) assms(5) by (simp add: new_Acceptor_def listen_def Let_def)
qed

theorem acceptor_lifecycle_witness:
  "\<exists>acc s1. new_Acceptor 2 9 10 two_channels = Inr (acc, s1) \<and> destroy_Acceptor acc busy s1 = Inl AssertFail"
proof -
  have "heap two_channels 2 = None" "watch two_channels 9 = None" by (simp_all add: two_channels_def watch_def)
  from acceptor_lifecycle [OF two_channels_inv(1) this(1) _ this(2), of 10 busy] show ?thesis by auto
qed

end
