(* ===== verification/Descriptors.thy ===== *)
theory Descriptors
  imports Teardown Acceptor
begin

text \<open>
  The descriptors of a process with a server: \<open>Acceptor::handleRead\<close> takes a connection from the kernel and hands its
  descriptor to \<open>TcpServer::newConnection\<close>, the \<open>Socket\<close> of the new \<open>TcpConnection\<close> owns it, and the destructors of
  \<open>TcpConnection\<close>, \<open>Channel\<close> and \<open>Socket\<close> close it when the last shared pointer is gone. Shared pointers are held by
  \<open>connections_\<close> and by the requests that wait in the loops; \<open>alive\<close> are the connections whose object exists. The
  last pointer goes some time after the last request was run, so the destruction is a step of its own. The rest of
  the process opens and closes descriptors too, \<open>foreign\<close> are those it has open.
\<close>

section \<open>State\<close>

record process =
  p_net :: net
  p_acc :: Acceptor
  p_kernel :: kernel
  alive :: "nat list"
  foreign :: "nat list"

abbreviation fd_of :: "net \<Rightarrow> nat \<Rightarrow> nat" where
  "fd_of w i \<equiv> nat (ch_fd (chan (cn w i)))"


section \<open>Operations\<close>

text \<open>The handler of the listening socket with the callback that the constructor of the server installs.\<close>

definition acceptor_handleRead ::
  "(TcpConnection \<Rightarrow> TcpConnection res) \<Rightarrow> errno \<Rightarrow> (nat \<Rightarrow> nat \<Rightarrow> nat option) \<Rightarrow> process \<Rightarrow> process res"
where
  "acceptor_handleRead cb e' kw p =
     (case accept_event alone e' (p_acc p, p_kernel p) of
        (None, acc, k) \<Rightarrow> Inr (p\<lparr>p_acc := acc, p_kernel := k\<rparr>)
      | (Some (connfd, peerAddr), acc, k) \<Rightarrow>
          res_bind (newConnection cb connfd kw (p_net p)) (\<lambda>w.
          Inr (p\<lparr>p_net := w, p_acc := acc, p_kernel := k, alive := alive p @ [length (conns (p_net p))]\<rparr>)))"

text \<open>\<^verbatim>\<open>Socket::~Socket\<close>, and the members of a connection in the order of their destruction: channel, then socket.\<close>

definition destroy_Socket :: "int \<Rightarrow> kernel \<Rightarrow> kernel" where
  "destroy_Socket sockfd k = k_close sockfd k"

definition destroy_TcpConnection :: "nat \<Rightarrow> process \<Rightarrow> process res" where
  "destroy_TcpConnection i p =
     (let ch = chan (cn (p_net p) i) in
      cassert (\<not> eventHandling ch)
        (Inr (p\<lparr>p_kernel := destroy_Socket (ch_fd ch) (p_kernel p), alive := remove1 i (alive p)\<rparr>)))"

text \<open>No shared pointer to connection \<open>i\<close> is left.\<close>

definition unreferenced :: "net \<Rightarrow> nat \<Rightarrow> bool" where
  "unreferenced w i \<longleftrightarrow> \<not> listed w i \<and> (\<forall>l. i \<notin> target ` set (pending w l))"

text \<open>
  An execution: the steps of the loops as in \<^const>\<open>sreach\<close>, with the kernel behind the accepted connections;
  destruction of connections nobody points to; and descriptors of other parts of the process.
\<close>

inductive fdreach :: "(TcpConnection \<Rightarrow> TcpConnection res) \<Rightarrow> process \<Rightarrow> process \<Rightarrow> bool" for cb p0 where
  init: "fdreach cb p0 p0"
| accept: "fdreach cb p0 p \<Longrightarrow> \<forall>t len n. kw t len = Some n \<longrightarrow> n \<le> len \<Longrightarrow> acceptor_handleRead cb e' kw p = Inr p' \<Longrightarrow> fdreach cb p0 p'"
| run: "fdreach cb p0 p \<Longrightarrow> pending (p_net p) l = f # fs \<Longrightarrow>
     exec_call cb f ((p_net p)\<lparr>pending := (pending (p_net p))(l := fs)\<rparr>) = Inr w' \<Longrightarrow> fdreach cb p0 (p\<lparr>p_net := w'\<rparr>)"
| close: "fdreach cb p0 p \<Longrightarrow> i < length (conns (p_net p)) \<Longrightarrow> watched (cn (p_net p) i) = Some (True, e) \<Longrightarrow>
     close_event cb i (p_net p) = Inr w' \<Longrightarrow> fdreach cb p0 (p\<lparr>p_net := w'\<rparr>)"
| activity: "fdreach cb p0 p \<Longrightarrow> i < length (conns (p_net p)) \<Longrightarrow> watched (cn (p_net p) i) = Some (True, e) \<Longrightarrow>
     length (accepted [op]) \<le> conn_room (cn (p_net p) i) \<Longrightarrow> conn_step op (cn (p_net p) i) = Inr c' \<Longrightarrow>
     fdreach cb p0 (p\<lparr>p_net := put_conn i c' (p_net p)\<rparr>)"
| release: "fdreach cb p0 p \<Longrightarrow> i \<in> set (alive p) \<Longrightarrow> unreferenced (p_net p) i \<Longrightarrow> destroy_TcpConnection i p = Inr p' \<Longrightarrow> fdreach cb p0 p'"
| other_open: "fdreach cb p0 p \<Longrightarrow> k_open (p_kernel p) = (int fd, k) \<Longrightarrow> fdreach cb p0 (p\<lparr>p_kernel := k, foreign := fd # foreign p\<rparr>)"
| other_close: "fdreach cb p0 p \<Longrightarrow> fd \<in> set (foreign p) \<Longrightarrow>
     fdreach cb p0 (p\<lparr>p_kernel := k_close (int fd) (p_kernel p), foreign := remove1 fd (foreign p)\<rparr>)"

text \<open>Seen without the kernel, it is an execution of the server.\<close>

lemma fdreach_sreach:
  assumes "fdreach cb p0 p" and "p_net p0 = new_net s0"
  shows "sreach cb s0 (p_net p)"
  using assms(1)
proof induction
  case init
  show ?case unfolding assms(2) by (rule sreach.init)
next
  case (accept p kw e' p')
  show ?case
  proof (cases "p_net p' = p_net p")
    case False
    then obtain fd where "newConnection cb fd kw (p_net p) = Inr (p_net p')"
      using accept(3) by (auto simp: acceptor_handleRead_def res_bind_eq_Inr split: prod.splits option.splits)
    from sreach.accept [OF accept.IH accept(2) this] show ?thesis .
  qed (use accept.IH in simp)
qed (auto simp: destroy_TcpConnection_def Let_def intro: sreach.run sreach.close sreach.activity)


section \<open>A connection keeps its descriptor\<close>

lemma identity_phase [simp]: "identity (established c) = identity c" "identity (closed c) = identity c"
  by (simp_all add: established_def closed_def) (simp add: identity_def tie_def)

text \<open>Steps of a server that make no connection.\<close>

definition keeps_fds :: "net \<Rightarrow> net \<Rightarrow> bool" where
  "keeps_fds w w' \<longleftrightarrow> length (conns w') = length (conns w) \<and>
     (\<forall>i < length (conns w). identity (cn w' i) = identity (cn w i) \<and> (gone (cn w i) \<longrightarrow> gone (cn w' i)))"

lemma keeps_conns: "conns w' = conns w \<Longrightarrow> keeps_fds w w'"
  by (simp add: keeps_fds_def)

lemma keeps_put: "identity c = identity (cn w i) \<Longrightarrow> \<not> gone (cn w i) \<Longrightarrow> keeps_fds w (put_conn i c w)"
  by (cases "i < length (conns w)") (auto simp: keeps_fds_def put_conn_def nth_list_update)

lemma remove_conns: "removeConnectionInLoop i w = Inr w' \<Longrightarrow> conns w' = conns w"
  by (auto simp: removeConnectionInLoop_def Let_def)

lemma removeConnection_conns: "removeConnection cb cur i w = Inr w' \<Longrightarrow> conns w' = conns w"
  by (auto simp: removeConnection_def run_in_loop_def dest: remove_conns split: if_splits)

locale keeps_descriptor = connection_callback cb for cb +
  assumes id_law: "cb c = Inr c' \<Longrightarrow> identity c' = identity c"
begin

lemma exec_keeps:
  assumes "exec_call cb f w = Inr w'"
  shows "keeps_fds w w'"
proof (cases f)
  case (ConnectEstablished i)
  with assms obtain c where "conn_state (cn w i) = kConnecting" "cb (established (cn w i)) = Inr c" "w' = put_conn i c w"
    by (auto simp: connectEstablished_def lift_cb_def res_bind_eq_Inr Let_def established_def)
  then show ?thesis using id_law [of "established (cn w i)" c] by (auto intro!: keeps_put simp: gone_def)
next
  case (ConnectDestroyed i)
  with assms obtain c where c: "w' = put_conn i (c\<lparr>watched := None\<rparr>) w" "watched c = Some (False, 0)"
      "conn_state (cn w i) = kConnected \<and> cb (closed (cn w i)) = Inr c \<or> conn_state (cn w i) \<noteq> kConnected \<and> c = cn w i"
    by (auto simp: connectDestroyed_def lift_cb_def res_bind_eq_Inr Let_def closed_def ch_remove_def split: if_splits)
  then show ?thesis using id_law [of "closed (cn w i)" c] by (auto intro!: keeps_put simp: gone_def)
qed (use assms in \<open>auto intro: keeps_conns dest: remove_conns\<close>)

lemma run_in_loop_keeps: "run_in_loop cb cur l f w = Inr w' \<Longrightarrow> keeps_fds w w'"
  by (auto simp: run_in_loop_def exec_keeps intro: keeps_conns simp del: exec_call.simps split: if_splits)

lemma close_keeps:
  assumes "close_event cb i w = Inr w'" and "watched (cn w i) = Some (True, e)"
  shows "keeps_fds w w'"
proof -
  obtain c where c: "cb (closed (cn w i)) = Inr c" "removeConnection cb (lp w i) i (put_conn i c w) = Inr w'"
    using assms(1)
    by (auto simp: close_event_def handleClose_def lift_cb_def res_bind_eq_Inr closed_def Let_def split: prod.splits)
  have "keeps_fds w (put_conn i c w)"
    using id_law [OF c(1)] assms(2) by (intro keeps_put) (auto simp: gone_def)
  with removeConnection_conns [OF c(2)] show ?thesis by (simp add: keeps_fds_def)
qed

lemma newConnection_keeps:
  assumes "newConnection cb fd kw w = Inr w'"
  shows "\<exists>w1 l nm. conns w1 = conns w @ [(l, new_TcpConnection nm fd kw)] \<and> keeps_fds w1 w'"
  using assms
  by (auto simp: newConnection_def res_bind_eq_Inr Let_def dest!: run_in_loop_keeps split: if_splits)
    (rule exI, rule conjI [rotated], assumption, auto)

end

interpretation printing_fd: keeps_descriptor onConnection
  by unfold_locales (simp add: onConnection_def)


section \<open>Accounting\<close>

text \<open>What an event of the listening socket does to the table of descriptors.\<close>

lemma accept_event_fds:
  assumes inv: "acceptor_inv acc k"
  shows "\<exists>k' h. accept_event alone e' (acc, k) = (h, acc, k') \<and> acceptor_inv acc k' \<and>
           (case h of None \<Rightarrow> set (open_fds k') = set (open_fds k)
            | Some (fd, peer) \<Rightarrow> 0 \<le> fd \<and> nat fd \<notin> set (open_fds k) \<and> set (open_fds k') = insert (nat fd) (set (open_fds k)))"
proof (cases "free_fd k")
  case (Some n)
  note n = free_fd_Some [OF Some]
  show ?thesis
  proof (cases "backlog k")
    case Nil
    with Some inv show ?thesis
      by (simp add: accept_event_def k_accept_def Socket_accept_def sockets_accept_def)
  next
    case (Cons a q)
    have "acceptor_inv acc (k\<lparr>open_fds := n # open_fds k, backlog := q\<rparr>)" "acceptor_inv acc (k\<lparr>backlog := q\<rparr>)"
      using inv kernel_wf_new [OF _ Some, of q] by (simp_all add: acceptor_inv_def kernel_wf_def)
    with accept_event_free [OF Some Cons, of alone e' acc] n show ?thesis by simp
  qed
next
  case None
  show ?thesis
  proof (cases "backlog k")
    case Nil
    obtain n where n: "idleFd acc = int n" "n \<in> set (open_fds k)" and wf: "kernel_wf k"
      using inv by (auto simp: acceptor_inv_def intro: nonneg_eq_int)
    have free: "free_fd (k_close (int n) k) = Some n" using reopen_closed [OF wf None n(2)] .
    have acc: "acc\<lparr>idleFd := int n\<rparr> = acc" using n(1) by simp
    have neg: "k_close (-1) k = k" for k by (simp add: k_close_def filter_id_conv)
    let ?k = "k_close (int n) k\<lparr>open_fds := n # open_fds (k_close (int n) k)\<rparr>"
    have "accept_event alone e' (acc, k) = (None, acc, ?k)"
      using None Nil n(1) free acc neg
      by (simp add: accept_event_def k_accept_def Socket_accept_def sockets_accept_def k_open_def Let_def)
        (simp add: k_close_def)
    moreover have "set (open_fds ?k) = set (open_fds k)" using n(2) by (auto simp: k_close_def)
    moreover have "acceptor_inv acc ?k" using wf n by (auto simp: acceptor_inv_def kernel_wf_def k_close_def)
    ultimately show ?thesis by (intro exI [of _ ?k] exI [of _ None]) simp
  next
    case (Cons a q)
    from accept_event_full [OF inv None this, of e'] inv show ?thesis by (force simp: acceptor_inv_def)
  qed
qed

text \<open>Who owns the open descriptors: the acceptor two, the rest of the process, and each existing connection one.\<close>

definition owned :: "process \<Rightarrow> nat list" where
  "owned p = [nat (acceptFd (p_acc p)), nat (idleFd (p_acc p))] @ foreign p @ map (fd_of (p_net p)) (alive p)"

definition fd_inv :: "process \<Rightarrow> bool" where
  [inv_simps]: "fd_inv p \<longleftrightarrow>
     acceptor_inv (p_acc p) (p_kernel p) \<and> distinct (owned p) \<and> set (open_fds (p_kernel p)) = set (owned p) \<and> distinct (alive p) \<and>
     (\<forall>i < length (conns (p_net p)). 0 \<le> ch_fd (chan (cn (p_net p) i)) \<and> \<not> eventHandling (chan (cn (p_net p) i)) \<and>
        (i \<notin> set (alive p) \<longrightarrow> gone (cn (p_net p) i))) \<and>
     (\<forall>i \<in> set (alive p). i < length (conns (p_net p)))"

lemma fd_inv_keeps:
  assumes inv: "fd_inv p" and k: "keeps_fds (p_net p) w'"
  shows "fd_inv (p\<lparr>p_net := w'\<rparr>)"
proof -
  have id: "ch_fd (chan (cn w' i)) = ch_fd (chan (cn (p_net p) i))" "eventHandling (chan (cn w' i)) = eventHandling (chan (cn (p_net p) i))"
    if "i < length (conns (p_net p))" for i using k that identityD [of "cn w' i" "cn (p_net p) i"] by (auto simp: keeps_fds_def)
  have "map (fd_of w') (alive p) = map (fd_of (p_net p)) (alive p)"
    using inv id(1) by (auto simp: fd_inv_def)
  then have "owned (p\<lparr>p_net := w'\<rparr>) = owned p" by (simp add: owned_def)
  then show ?thesis using inv k id by (auto simp: fd_inv_def keeps_fds_def)
qed

text \<open>The owners of a descriptor come and go.\<close>

lemma fd_inv_insert:
  assumes "fd_inv p" and "acceptor_inv (p_acc p) k" and "fd \<notin> set (open_fds (p_kernel p))"
    and "set (open_fds k) = insert fd (set (open_fds (p_kernel p)))"
  shows "fd_inv (p\<lparr>p_kernel := k, foreign := fd # foreign p\<rparr>)"
  using assms by (auto simp: fd_inv_def owned_def)

lemma acceptor_inv_close:
  "acceptor_inv acc k \<Longrightarrow> nat (idleFd acc) \<noteq> fd \<Longrightarrow> acceptor_inv acc (k_close (int fd) k)"
  using kernel_wf_close [of k "int fd"] by (auto simp: acceptor_inv_def k_close_def)

lemma close_fds: "set (open_fds (k_close (int fd) k)) = set (open_fds k) - {fd}"
  by (auto simp: k_close_def)

lemma fd_inv_remove:
  assumes "fd_inv p" and "fd \<in> set (foreign p)"
  shows "fd_inv (p\<lparr>p_kernel := k_close (int fd) (p_kernel p), foreign := remove1 fd (foreign p)\<rparr>)"
proof -
  have "nat (idleFd (p_acc p)) \<noteq> fd" using assms by (auto simp: fd_inv_def owned_def)
  with assms show ?thesis
    using acceptor_inv_close [of "p_acc p" "p_kernel p" fd]
    by (auto simp: fd_inv_def owned_def close_fds set_remove1_eq distinct_remove1)
qed

lemma unreferenced_gone:
  assumes "net_inv w" and "i < length (conns w)"
  shows "unreferenced w i \<longleftrightarrow> gone (cn w i)"
proof -
  have inv: "server_inv w (\<lambda>l f. count_list (pending w l) f)" using assms(1) by (simp add: net_inv_def)
  have pend: "f \<in> set (pending w l) \<longleftrightarrow> due l (lp w i) (cn w i) (listed w i) f" if "target f = i" for l f
    using server_invD(10) [OF inv, of l f] count_list_0_iff [of "pending w l" f] assms(2) that by auto
  show ?thesis
  proof
    assume u: "unreferenced w i"
    then have st: "conn_state (cn w i) = kDisconnected" using server_invD(8) [OF inv assms(2)] by (auto simp: unreferenced_def)
    have "ConnectDestroyed i \<notin> set (pending w (lp w i))" using u by (force simp: unreferenced_def)
    with pend [of "ConnectDestroyed i" "lp w i"] u st show "gone (cn w i)"
      by (cases "watched (cn w i)") (auto simp: gone_def unreferenced_def)
  next
    assume "gone (cn w i)"
    then show "unreferenced w i"
      using server_invD(9) [OF inv assms(2)] pend by (auto simp: unreferenced_def gone_def)
  qed
qed

lemma map_remove1: "inj_on f (insert x (set xs)) \<Longrightarrow> map f (remove1 x xs) = remove1 (f x) (map f xs)"
  by (induction xs) (auto simp: insert_commute inj_on_def)

lemma fd_inv_release:
  assumes inv: "fd_inv p" and i: "i \<in> set (alive p)" and "gone (cn (p_net p) i)"
  shows "\<exists>p'. destroy_TcpConnection i p = Inr p' \<and> fd_inv p'"
proof -
  let ?w = "p_net p"
  have len: "i < length (conns ?w)" using inv i by (auto simp: fd_inv_def)
  then have fd: "ch_fd (chan (cn ?w i)) = int (fd_of ?w i)" and "\<not> eventHandling (chan (cn ?w i))" using inv by (auto simp: fd_inv_def)
  then have "destroy_TcpConnection i p =
      Inr (p\<lparr>p_kernel := k_close (int (fd_of ?w i)) (p_kernel p), alive := remove1 i (alive p)\<rparr>)" (is "_ = Inr ?p")
    by (simp add: destroy_TcpConnection_def destroy_Socket_def)
  moreover have "fd_inv ?p"
  proof -
    have dist: "distinct (owned p)" "distinct (alive p)" using inv by (simp_all add: fd_inv_def)
    have inj: "inj_on (fd_of ?w) (set (alive p))" using dist by (simp add: owned_def distinct_map)
    have "map (fd_of ?w) (remove1 i (alive p)) = remove1 (fd_of ?w i) (map (fd_of ?w) (alive p))"
      using inj i by (intro map_remove1) (simp add: insert_absorb)
    moreover have mem: "fd_of ?w i \<in> set (map (fd_of ?w) (alive p))" using i by simp
    ultimately have own: "owned ?p = remove1 (fd_of ?w i) (owned p)" using dist(1) by (auto simp: owned_def remove1_append)
    have "nat (idleFd (p_acc p)) \<noteq> fd_of ?w i" using dist(1) mem by (auto simp: owned_def)
    with acceptor_inv_close [of "p_acc p" "p_kernel p" "fd_of ?w i"] inv own assms(3) show ?thesis
      by (auto simp: fd_inv_def close_fds set_remove1_eq distinct_remove1 simp del: int_nat_eq)
  qed
  ultimately show ?thesis by blast
qed

context keeps_descriptor
begin

lemma fd_inv_accept:
  assumes inv: "fd_inv p" and step: "acceptor_handleRead cb e' kw p = Inr p'"
  shows "fd_inv p'"
proof -
  have acc: "acceptor_inv (p_acc p) (p_kernel p)" using inv by (simp add: fd_inv_def)
  obtain k' h where k': "accept_event alone e' (p_acc p, p_kernel p) = (h, p_acc p, k')" "acceptor_inv (p_acc p) k'"
      "case h of None \<Rightarrow> set (open_fds k') = set (open_fds (p_kernel p))
       | Some (fd, peer) \<Rightarrow> 0 \<le> fd \<and> nat fd \<notin> set (open_fds (p_kernel p)) \<and> set (open_fds k') = insert (nat fd) (set (open_fds (p_kernel p)))"
    using accept_event_fds [OF acc, of e'] by blast
  show ?thesis
  proof (cases h)
    case None
    then have "p' = p\<lparr>p_kernel := k'\<rparr>" using step k'(1) by (simp add: acceptor_handleRead_def)
    then show ?thesis using inv k'(2,3) None by (simp add: fd_inv_def owned_def)
  next
    case (Some c)
    then obtain fd peer w' where h: "h = Some (fd, peer)" "newConnection cb fd kw (p_net p) = Inr w'"
        "p' = p\<lparr>p_net := w', p_kernel := k', alive := alive p @ [length (conns (p_net p))]\<rparr>"
      using step k'(1) by (cases c) (auto simp: acceptor_handleRead_def res_bind_eq_Inr)
    obtain w1 l nm where w1: "conns w1 = conns (p_net p) @ [(l, new_TcpConnection nm fd kw)]" "keeps_fds w1 w'"
      using newConnection_keeps [OF h(2)] by blast
    let ?n = "length (conns (p_net p))"
    let ?p = "p\<lparr>p_net := w1, p_kernel := k', alive := alive p @ [?n]\<rparr>"
    have new: "ch_fd (chan (cn w1 ?n)) = fd" "\<not> eventHandling (chan (cn w1 ?n))"
      using w1(1) by (simp_all add: nth_append new_TcpConnection_def set_callback_def new_Channel_def)
    have old: "cn w1 i = cn (p_net p) i" if "i < ?n" for i using w1(1) that by (simp add: nth_append)
    have alive: "i < ?n" if "i \<in> set (alive p)" for i using inv that by (simp add: fd_inv_def)
    then have "map (fd_of w1) (alive p) = map (fd_of (p_net p)) (alive p)" using old by simp
    then have own: "owned ?p = owned p @ [nat fd]" using new(1) by (simp add: owned_def)
    have "fd_inv ?p"
      unfolding fd_inv_def own using inv k'(2,3) h(1) new old alive w1(1) by (auto simp: fd_inv_def less_Suc_eq)
    from fd_inv_keeps [OF this, of w'] w1(2) have "fd_inv (?p\<lparr>p_net := w'\<rparr>)" by simp
    moreover have "?p\<lparr>p_net := w'\<rparr> = p'" using h(3) by simp
    ultimately show ?thesis by simp
  qed
qed

lemma fdreach_inv:
  assumes "fdreach cb p0 p" and "fd_inv p0" and "p_net p0 = new_net s0" and "net_inv (new_net s0)"
  shows "fd_inv p"
  using assms(1)
proof induction
  case (accept p kw e' p')
  then show ?case using fd_inv_accept by blast
next
  case (run p l f fs w')
  from exec_keeps [OF run(3)] have "keeps_fds (p_net p) w'" by (simp add: keeps_fds_def)
  then show ?case by (rule fd_inv_keeps [OF run.IH])
next
  case (close p i e w')
  then show ?case using close_keeps fd_inv_keeps by blast
next
  case (activity p i e op c')
  have "keeps_fds (p_net p) (put_conn i c' (p_net p))"
    using conn_step_identity [OF activity(5)] activity(3) by (intro keeps_put) (auto simp: gone_def)
  then show ?case by (rule fd_inv_keeps [OF activity.IH])
next
  case (release p i p')
  have "net_inv (p_net p)" using sreach_inv [OF fdreach_sreach [OF release(1) assms(3)] connection_callback_axioms assms(4)] .
  then have "gone (cn (p_net p) i)" using unreferenced_gone release(2,3) release.IH by (auto simp: fd_inv_def)
  then show ?case using fd_inv_release [OF release.IH release(2)] release(4) by auto
next
  case (other_open p fd k)
  then obtain n where n: "free_fd (p_kernel p) = Some n" "fd = n" "k = (p_kernel p)\<lparr>open_fds := n # open_fds (p_kernel p)\<rparr>"
    by (auto simp: k_open_def split: option.splits)
  have "acceptor_inv (p_acc p) k"
    using other_open.IH kernel_wf_new [OF _ n(1), of "backlog (p_kernel p)"] n(3) by (auto simp: fd_inv_def acceptor_inv_def)
  from fd_inv_insert [OF other_open.IH this, of fd] n free_fd_Some [OF n(1)] show ?case by simp
next
  case (other_close p fd)
  then show ?case using fd_inv_remove by blast
qed (rule assms(2))

end


section \<open>Properties\<close>


text \<open>A process that has nothing but a listening socket and its reserve open; one connection waits.\<close>

definition fresh_process :: "TcpServer \<Rightarrow> process" where
  "fresh_process s0 =
     \<lparr>p_net = new_net s0,
      p_acc = \<lparr>acceptFd = 1, acceptChannel = 0, newConnectionCB = True, acc_listenning = True, idleFd = 2\<rparr>,
      p_kernel = \<lparr>fd_limit = 8, open_fds = [2, 1, 0], backlog = [InetAddress_port 1]\<rparr>, alive = [], foreign = [0]\<rparr>"


end
