(* ===== verification/Dispatch.thy ===== *)
theory Dispatch
  imports Service Descriptors
begin

text \<open>
  One event of a connection, from the poller to the handlers: the poller stores the events it found in the channel,
  \<^verbatim>\<open>Channel::handleEvent\<close> calls the callbacks that the constructor of the connection installed in the channel, in its fixed
  order, and these are \<^verbatim>\<open>handleClose\<close>, \<^verbatim>\<open>handleError\<close>, \<^verbatim>\<open>handleRead\<close> and \<^verbatim>\<open>handleWrite\<close> of the connection. Whatever combination of events
  is reported, the whole event amounts to steps of an execution of the service.
\<close>

section \<open>Operations\<close>

text \<open>\<^verbatim>\<open>handleError\<close> asks for the error of the socket and prints it.\<close>

definition conn_handleError :: "int + int \<Rightarrow> TcpConnection \<Rightarrow> string \<times> TcpConnection" where
  "conn_handleError answer c =
     (let err = getSocketError answer in
      (''TcpConnection::handleError ['' @ conn_name c @ ''] - SO_ERROR = '' @ show_int err @ '' '', c))"

text \<open>
  While a channel handles an event it is in the store, at the position of its connection; the connection is brought up
  to date from the store before each callback, and the store after it.
\<close>

type_synonym 's events = "('s \<times> net) chan_store_scheme"

definition load :: "nat \<Rightarrow> 's events \<Rightarrow> 's \<times> net" where
  "load i st =
     (case chan_store.more st of (s, w) \<Rightarrow>
      (s, case heap st i of Some ch \<Rightarrow> put_conn i ((cn w i)\<lparr>chan := ch\<rparr>) w | None \<Rightarrow> w))"

definition pack :: "nat \<Rightarrow> 's \<times> net \<Rightarrow> 's events" where
  "pack i st = \<lparr>heap = [i \<mapsto> chan (cn (snd st) i)], \<dots> = st\<rparr>"

text \<open>The callbacks of the channel; \<open>rr\<close> and \<open>so\<close> are the answers of \<^verbatim>\<open>readv\<close> and \<^verbatim>\<open>getsockopt\<close>.\<close>

definition conn_run ::
  "('s \<times> TcpConnection \<Rightarrow> string \<Rightarrow> ('s \<times> TcpConnection) res) \<Rightarrow> (TcpConnection \<Rightarrow> TcpConnection res) \<Rightarrow> read_result \<Rightarrow> int + int \<Rightarrow>
     nat \<Rightarrow> callback \<Rightarrow> 's events \<Rightarrow> 's events res"
where
  "conn_run h cb rr so i cbk st =
     (case load i st of (s, w) \<Rightarrow>
      res_bind
        (case cbk of
           CloseCB \<Rightarrow> res_bind (close_event cb i w) (\<lambda>w. Inr (s, w))
         | ErrorCB \<Rightarrow> Inr (s, put_conn i (snd (conn_handleError so (cn w i))) w)
         | ReadCB \<Rightarrow> read_event h cb i rr (s, w)
         | WriteCB \<Rightarrow> res_bind (TcpConnection.handleWrite (cn w i)) (\<lambda>c. Inr (s, put_conn i c w)))
        (\<lambda>st. Inr (pack i st)))"

text \<open>The poller found \<open>r\<close> for the channel of connection \<open>i\<close>; \<open>owner\<close> says which owners of tied channels still exist.\<close>

definition conn_event ::
  "('s \<times> TcpConnection \<Rightarrow> string \<Rightarrow> ('s \<times> TcpConnection) res) \<Rightarrow> (TcpConnection \<Rightarrow> TcpConnection res) \<Rightarrow> read_result \<Rightarrow> int + int \<Rightarrow>
     (nat \<Rightarrow> bool) \<Rightarrow> nat \<Rightarrow> int32 \<Rightarrow> 's \<times> net \<Rightarrow> ('s \<times> net) res"
where
  "conn_event h cb rr so owner i r st =
     res_bind
       (handleEvent (conn_run h cb rr so) owner i \<lparr>heap = [i \<mapsto> (chan (cn (snd st) i))\<lparr>revents := r\<rparr>], \<dots> = st\<rparr>)
       (\<lambda>st. Inr (load i st))"

text \<open>
  The loop over the active channels in a round of \<^verbatim>\<open>EventLoop::loop\<close>, for channels of connections: position, events and the
  answers of the system calls.
\<close>

definition conn_round ::
  "('s \<times> TcpConnection \<Rightarrow> string \<Rightarrow> ('s \<times> TcpConnection) res) \<Rightarrow> (TcpConnection \<Rightarrow> TcpConnection res) \<Rightarrow> (nat \<Rightarrow> bool) \<Rightarrow>
     (nat \<times> int32 \<times> read_result \<times> (int + int)) list \<Rightarrow> 's \<times> net \<Rightarrow> ('s \<times> net) res"
where
  "conn_round h cb owner active st = res_fold (\<lambda>(i, r, rr, so) st. conn_event h cb rr so owner i r st) active st"


section \<open>Lemmas\<close>

lemma load_pack: "i < length (conns (snd st)) \<Longrightarrow> load i (pack i st) = st"
  by (cases st) (simp add: load_def pack_def put_conn_same)

text \<open>What a read may deliver, and which events may come together: a hang-up without data left comes alone or with an error.\<close>

definition read_ok :: "nat \<Rightarrow> ('s \<Rightarrow> string \<Rightarrow> bool) \<Rightarrow> read_result \<Rightarrow> nat \<Rightarrow> 's \<Rightarrow> net \<Rightarrow> bool" where
  "read_ok cost valid rr i s w \<longleftrightarrow>
     (case rr of ReadError e \<Rightarrow> True | ReadBytes bs \<Rightarrow> may_arrive cost i bs w \<and> (\<forall>m \<in> set (arriving i bs w). valid s m))"

definition hup_alone :: "int32 \<Rightarrow> bool" where
  "hup_alone r \<longleftrightarrow> (has r POLLHUP \<and> \<not> has r POLLIN \<longrightarrow> \<not> has r (POLLIN OR POLLPRI OR POLLRDHUP))"

definition active_ok ::
  "('s \<Rightarrow> bool) \<Rightarrow> ('s \<Rightarrow> string \<Rightarrow> bool) \<Rightarrow> nat \<Rightarrow> (nat \<Rightarrow> bool) \<Rightarrow> net \<Rightarrow> nat \<times> int32 \<times> read_result \<times> (int + int) \<Rightarrow> bool"
where
  "active_ok data_inv valid cost owner w x \<longleftrightarrow>
     (case x of (i, r, rr, so) \<Rightarrow>
      i < length (conns w) \<and> (\<exists>e. watched (cn w i) = Some (True, e)) \<and> owner i \<and> hup_alone r \<and>
      (case rr of ReadError e \<Rightarrow> True
       | ReadBytes bs \<Rightarrow> may_arrive cost i bs w \<and> (\<forall>m \<in> set (arriving i bs w). \<forall>s. data_inv s \<longrightarrow> valid s m)))"

text \<open>The events that end a connection: a hang-up with nothing left to read, and the end of the stream.\<close>

definition ends :: "int32 \<Rightarrow> read_result \<Rightarrow> bool" where
  "ends r rr \<longleftrightarrow> has r POLLHUP \<and> \<not> has r POLLIN \<or> has r (POLLIN OR POLLPRI OR POLLRDHUP) \<and> rr = ReadBytes []"

lemma mark_conn [simp]:
  assumes "i < length (conns w)"
  shows "cn (mark_channel i r b w) i = (cn w i)\<lparr>chan := (chan (cn w i))\<lparr>revents := r, eventHandling := b\<rparr>\<rparr>"
    and "length (conns (mark_channel i r b w)) = length (conns w)"
  using assms by (simp_all add: mark_channel_def put_conn_def)

lemma mark_mark: "i < length (conns w) \<Longrightarrow> mark_channel i r b (mark_channel i r b' w) = mark_channel i r b w"
  by (simp add: mark_channel_def put_conn_def)

lemma mark_read_ok: "i < length (conns w) \<Longrightarrow> read_ok cost valid rr i s (mark_channel i r b w) = read_ok cost valid rr i s w"
  by (simp add: read_ok_def may_arrive_def arriving_def conn_room_def split: read_result.split)

lemma idle_write:
  assumes "conn_wf c" and "conn_state c = StateE.kDisconnected"
  shows "TcpConnection.handleWrite c = Inr c"
  using assms by (simp add: conn_wf_def TcpConnection.handleWrite_def isWriting_def)

text \<open>The state in which the callbacks of connection \<open>i\<close> are called: that of an execution, with the events \<open>r\<close> in the channel.\<close>

definition at_event :: "('s \<Rightarrow> net \<Rightarrow> bool) \<Rightarrow> nat \<Rightarrow> int32 \<Rightarrow> 's events \<Rightarrow> 's \<Rightarrow> net \<Rightarrow> bool" where
  "at_event S i r st s w \<longleftrightarrow>
     load i st = (s, w) \<and> S s w \<and> i < length (conns w) \<and> heap st i = Some (chan (cn w i)) \<and> revents (chan (cn w i)) = r"

lemma at_event_mark:
  assumes "at_event S i r st s w" and "S s (mark_channel i r b w)"
  shows "\<exists>st'. modify_ch i (\<lambda>ch. ch\<lparr>eventHandling := b\<rparr>) st = Inr st' \<and> at_event S i r st' s (mark_channel i r b w)"
proof -
  obtain w0 where more: "chan_store.more st = (s, w0)"
    using assms(1) by (auto simp: at_event_def load_def split: prod.splits)
  define ch where "ch = chan (cn w i)"
  let ?st = "st\<lparr>heap := (heap st)(i \<mapsto> ch\<lparr>eventHandling := b\<rparr>)\<rparr>"
  have h: "heap st i = Some ch" "i < length (conns w)" "revents ch = r" using assms(1) by (simp_all add: at_event_def ch_def)
  have w: "w = put_conn i ((cn w0 i)\<lparr>chan := ch\<rparr>) w0" using assms(1) more h(1) by (auto simp: at_event_def load_def)
  have len: "i < length (conns w0)" using h(2) unfolding w by (simp add: put_conn_def)
  have ch: "chan (cn (mark_channel i r b w) i) = ch\<lparr>eventHandling := b\<rparr>"
    using h(2,3) by (simp add: ch_def)
  have "mark_channel i r b w = put_conn i ((cn w0 i)\<lparr>chan := ch\<lparr>eventHandling := b\<rparr>\<rparr>) w0"
    using len h(3) [symmetric] unfolding w by (simp add: mark_channel_def put_conn_def)
  then have "load i ?st = (s, mark_channel i r b w)" using more by (simp add: load_def)
  with assms(2) h ch have "at_event S i r ?st s (mark_channel i r b w)" by (simp add: at_event_def)
  then show ?thesis using h(1) by (auto simp: modify_ch_Some)
qed

lemma at_event_pack:
  assumes "S s w" and "i < length (conns w)" and "revents (chan (cn w i)) = r"
  shows "at_event S i r (pack i (s, w)) s w"
  using assms load_pack [of i "(s, w)"] by (simp add: at_event_def) (simp add: pack_def)

lemma at_event_start:
  assumes "S s (mark_channel i r (eventHandling (chan (cn w i))) w)" and "i < length (conns w)"
  shows "at_event S i r \<lparr>heap = [i \<mapsto> (chan (cn w i))\<lparr>revents := r\<rparr>], \<dots> = (s, w)\<rparr> s (mark_channel i r (eventHandling (chan (cn w i))) w)"
proof -
  have "(chan (cn w i))\<lparr>revents := r, eventHandling := eventHandling (chan (cn w i))\<rparr> = (chan (cn w i))\<lparr>revents := r\<rparr>" by simp
  then show ?thesis using assms by (simp add: at_event_def) (simp add: load_def mark_channel_def)
qed

text \<open>An execution that has not touched other connections than \<open>i\<close> since the state \<open>v\<close>.\<close>

definition during where
  "during cb h cost elsewhere s0 t0 i v s w \<longleftrightarrow>
     serves cb h cost elsewhere s0 t0 s w \<and> length (conns w) = length (conns v) \<and> (\<forall>j. j \<noteq> i \<longrightarrow> conns w ! j = conns v ! j)"

lemma during_step:
  assumes "during cb h cost elsewhere s0 t0 i v s w" and "serves cb h cost elsewhere s0 t0 s' w'"
    and "length (conns w') = length (conns w)" and "\<forall>j. j \<noteq> i \<longrightarrow> conns w' ! j = conns w ! j"
  shows "during cb h cost elsewhere s0 t0 i v s' w'"
  using assms by (simp add: during_def)

lemma during_put:
  assumes "during cb h cost elsewhere s0 t0 i v s w" and "serves cb h cost elsewhere s0 t0 s' (put_conn i c w)"
  shows "during cb h cost elsewhere s0 t0 i v s' (put_conn i c w)"
  by (rule during_step [OF assms]) (simp_all add: put_conn_def)

lemma during_mark:
  assumes "during cb h cost elsewhere s0 t0 i v s w" and "i < length (conns w)"
  shows "during cb h cost elsewhere s0 t0 i v s (mark_channel i r b w)"
proof -
  have "serves cb h cost elsewhere s0 t0 s w" using assms(1) by (simp add: during_def)
  from during_put [OF assms(1) serves.marks [OF this assms(2), of r b, unfolded mark_channel_def]] show ?thesis
    by (simp add: mark_channel_def)
qed

lemma close_others:
  assumes "close_event cb i w = Inr w'"
  shows "length (conns w') = length (conns w) \<and> (\<forall>j. j \<noteq> i \<longrightarrow> conns w' ! j = conns w ! j)"
proof -
  obtain c where "removeConnection cb (lp w i) i (put_conn i c w) = Inr w'"
    using assms by (auto simp: close_event_def handleClose_def lift_cb_def res_bind_eq_Inr Let_def split: prod.splits)
  from removeConnection_conns [OF this] show ?thesis by (simp add: put_conn_def)
qed

lemma call_skip:
  assumes "at_event S i r st s w" and "\<not> p r"
  shows "call_if run i cbk p st = Inr st"
  using assms by (simp add: at_event_def call_if_def read_ch_Some)

text \<open>Every connection has all its callbacks set.\<close>

definition all_set :: "net \<Rightarrow> bool" where
  "all_set w \<longleftrightarrow> (\<forall>i < length (conns w). callbacks (chan (cn w i)) = UNIV)"

lemma all_set_keeps: "all_set w \<Longrightarrow> keeps_fds w w' \<Longrightarrow> all_set w'"
  unfolding all_set_def keeps_fds_def by (metis identityD(4))

lemma all_set_put: "all_set w \<Longrightarrow> callbacks (chan c) = UNIV \<Longrightarrow> all_set (put_conn i c w)"
  by (cases "i < length (conns w)") (auto simp: all_set_def put_conn_def nth_list_update)

lemma new_conn_callbacks: "callbacks (chan (new_TcpConnection nm fd kw)) = UNIV"
  by (auto simp: new_TcpConnection_def set_callback_def new_Channel_def) (metis callback.exhaust)

locale reactive_service = service cb h data_inv valid cost elsewhere + keeps_descriptor cb
  for cb and h :: "'s \<times> TcpConnection \<Rightarrow> string \<Rightarrow> ('s \<times> TcpConnection) res" and data_inv valid cost elsewhere
begin

lemma closed_state:
  assumes "close_event cb i w = Inr w'" and "conn_wf (cn w i)" and "watched (cn w i) = Some (True, e)" and "i < length (conns w)"
  shows "conn_state (cn w' i) = StateE.kDisconnected"
proof -
  obtain c where c: "cb (closed (cn w i)) = Inr c" "removeConnection cb (lp w i) i (put_conn i c w) = Inr w'"
    using assms(1)
    by (auto simp: close_event_def handleClose_def lift_cb_def res_bind_eq_Inr closed_def Let_def split: prod.splits)
  note wf = closed_wf [OF assms(2) active_up [OF assms(2,3)]]
  have "conn_state c = StateE.kDisconnected" using down_law [OF wf(1,2)] c(1) by auto
  with removeConnection_conns [OF c(2)] assms(4) show ?thesis by (simp add: put_conn_def)
qed

text \<open>Each callback, called or not, leads from a state of an execution to one.\<close>

lemma call_error:
  assumes "at_event S i r st s w"
  shows "\<exists>st'. call_if (conn_run h cb rr so) i ErrorCB p st = Inr st' \<and> at_event S i r st' s w"
proof (cases "p r \<and> ErrorCB \<in> callbacks (chan (cn w i))")
  case True
  have ld: "load i st = (s, w)" "i < length (conns w)" "heap st i = Some (chan (cn w i))" "revents (chan (cn w i)) = r" "S s w"
    using assms by (simp_all add: at_event_def)
  then have "call_if (conn_run h cb rr so) i ErrorCB p st = Inr (pack i (s, w))"
    using True by (simp add: call_if_def read_ch_Some conn_run_def conn_handleError_def put_conn_same Let_def)
  then show ?thesis using at_event_pack [of S s w i r] ld by simp
qed (use assms in \<open>auto simp: at_event_def call_if_def read_ch_Some\<close>)

lemma call_write:
  assumes at: "at_event (during cb h cost elsewhere s0 t0 i v) i r st s w" and inv: "net_inv w"
    and st: "conn_state (cn w i) \<noteq> StateE.kConnecting"
  shows "\<exists>st' w'. call_if (conn_run h cb rr so) i WriteCB p st = Inr st' \<and> at_event (during cb h cost elsewhere s0 t0 i v) i r st' s w' \<and>
    conn_state (cn w' i) = conn_state (cn w i)"
proof (cases "p r \<and> WriteCB \<in> callbacks (chan (cn w i))")
  case True
  have ld: "load i st = (s, w)" "i < length (conns w)" "heap st i = Some (chan (cn w i))" "revents (chan (cn w i)) = r"
      "serves cb h cost elsewhere s0 t0 s w" and dur: "during cb h cost elsewhere s0 t0 i v s w"
    using at by (simp_all add: at_event_def during_def)
  have wf: "conn_wf (cn w i)" by (rule net_inv_conn [OF inv ld(2)])
  obtain c where c: "TcpConnection.handleWrite (cn w i) = Inr c" "conn_state c = conn_state (cn w i)"
      "serves cb h cost elsewhere s0 t0 s (put_conn i c w)"
  proof (cases "conn_state (cn w i) = StateE.kDisconnected")
    case True
    then show thesis using that [of "cn w i"] idle_write [OF wf] put_conn_same [OF ld(2)] ld(5) by simp
  next
    case False
    then have up: "conn_state (cn w i) \<in> {StateE.kConnected, StateE.kDisconnecting}" using st by (cases "conn_state (cn w i)") auto
    then obtain e where "watched (cn w i) = Some (True, e)" using conn_wfD(4,5) [OF wf] by auto
    with handleWrite_spec [OF wf up] serves.writable [OF ld(5,2)] that show thesis by blast
  qed
  have "call_if (conn_run h cb rr so) i WriteCB p st = Inr (pack i (s, put_conn i c w))"
    using True ld c(1) by (simp add: call_if_def read_ch_Some conn_run_def)
  moreover have "identity c = identity (cn w i)" using handleWrite_identity [OF c(1)] .
  ultimately show ?thesis
    using at_event_pack [of "during cb h cost elsewhere s0 t0 i v" s "put_conn i c w" i r] c(2) during_put [OF dur c(3)] ld(2,4) identityD(3) [of c "cn w i"]
    by (auto simp: put_conn_def)
qed (use at in \<open>auto simp: at_event_def call_if_def read_ch_Some\<close>)

lemma call_close:
  assumes at: "at_event (during cb h cost elsewhere s0 t0 i v) i r st s w" and inv: "net_inv w" and up: "watched (cn w i) = Some (True, e)"
    and p: "p r" "CloseCB \<in> callbacks (chan (cn w i))"
  shows "\<exists>st' w'. call_if (conn_run h cb rr so) i CloseCB p st = Inr st' \<and> at_event (during cb h cost elsewhere s0 t0 i v) i r st' s w' \<and>
    close_event cb i w = Inr w' \<and> conn_state (cn w' i) = StateE.kDisconnected"
proof -
  have ld: "load i st = (s, w)" "i < length (conns w)" "heap st i = Some (chan (cn w i))" "revents (chan (cn w i)) = r"
      "serves cb h cost elsewhere s0 t0 s w" and dur: "during cb h cost elsewhere s0 t0 i v s w"
    using at by (simp_all add: at_event_def during_def)
  have wf: "conn_wf (cn w i)" by (rule net_inv_conn [OF inv ld(2)])
  obtain w' where w': "close_event cb i w = Inr w'" using close_ok [OF inv ld(2) active_up [OF wf up]] by blast
  have keep: "length (conns w') = length (conns w)" "identity (cn w' i) = identity (cn w i)"
    using close_keeps [OF w' up] ld(2) by (simp_all add: keeps_fds_def)
  have "call_if (conn_run h cb rr so) i CloseCB p st = Inr (pack i (s, w'))"
    using p ld w' by (simp add: call_if_def read_ch_Some conn_run_def)
  moreover have "at_event (during cb h cost elsewhere s0 t0 i v) i r (pack i (s, w')) s w'"
    using at_event_pack during_step [OF dur serves.hangup [OF ld(5,2) up w']] close_others [OF w'] identityD(3) [OF keep(2)] ld(2,4)
    by metis
  ultimately show ?thesis using w' closed_state [OF w' wf up ld(2)] by blast
qed

lemma call_read:
  assumes at: "at_event (during cb h cost elsewhere s0 t0 i v) i r st s w" and inv: "data_inv s" "net_inv w" and up: "watched (cn w i) = Some (True, e)"
    and p: "p r" "ReadCB \<in> callbacks (chan (cn w i))" and rr: "read_ok cost valid rr i s w"
  shows "\<exists>st' s' w'. call_if (conn_run h cb rr so) i ReadCB p st = Inr st' \<and> at_event (during cb h cost elsewhere s0 t0 i v) i r st' s' w' \<and>
    (if rr = ReadBytes [] then conn_state (cn w' i) = StateE.kDisconnected
     else conn_state (cn w' i) \<in> {StateE.kConnected, StateE.kDisconnecting})"
proof -
  have ld: "load i st = (s, w)" "i < length (conns w)" "heap st i = Some (chan (cn w i))" "revents (chan (cn w i)) = r"
      "serves cb h cost elsewhere s0 t0 s w" and dur: "during cb h cost elsewhere s0 t0 i v s w"
    using at by (simp_all add: at_event_def during_def)
  have wf: "conn_wf (cn w i)" by (rule net_inv_conn [OF inv(2) ld(2)])
  note act = active_up [OF wf up]
  obtain s' w' where r: "read_event h cb i rr (s, w) = Inr (s', w')" "serves cb h cost elsewhere s0 t0 s' w'"
      "length (conns w') = length (conns w)" "identity (cn w' i) = identity (cn w i)" "\<forall>j. j \<noteq> i \<longrightarrow> conns w' ! j = conns w ! j"
      "if rr = ReadBytes [] then conn_state (cn w' i) = StateE.kDisconnected
       else conn_state (cn w' i) \<in> {StateE.kConnected, StateE.kDisconnecting}"
  proof (cases rr)
    case (ReadError en)
    have "read_event h cb i (ReadError en) (s, w) = Inr (s, w)" by (rule read_error [OF ld(2)])
    with ReadError act ld(5) show thesis by (intro that [of s w]) auto
  next
    case (ReadBytes bs)
    have bs: "may_arrive cost i bs w" "\<forall>m \<in> set (arriving i bs w). valid s m" using rr ReadBytes by (simp_all add: read_ok_def)
    show thesis
    proof (cases "bs = []")
      case True
      have "buf_wf (inputBuffer (cn w i))" using wf by (simp add: conn_wf_def)
      note eof = read_eof [OF ld(2) this, of h cb s]
      obtain w' where w': "close_event cb i w = Inr w'" using close_ok [OF inv(2) ld(2) act] by blast
      have "serves cb h cost elsewhere s0 t0 s w'" by (rule serves.hangup [OF ld(5,2) up w'])
      with ReadBytes True eof w' close_others [OF w'] close_keeps [OF w' up] closed_state [OF w' wf up ld(2)] ld(2) show thesis
        by (intro that [of s w']) (simp_all add: keeps_fds_def)
    next
      case False
      obtain s' w' where r: "read_event h cb i (ReadBytes bs) (s, w) = Inr (s', w')"
        using read_total [OF inv ld(2) up bs(1) False bs(2)] by auto
      have "serves cb h cost elsewhere s0 t0 s' w'" by (rule serves.readable [OF ld(5,2) up bs(1) r])
      with ReadBytes False r read_keeps [OF inv ld(2) up bs(1) False r] show thesis
        by (intro that [of s' w']) (simp_all add: conn_up_def)
    qed
  qed
  have "call_if (conn_run h cb rr so) i ReadCB p st = Inr (pack i (s', w'))"
    using p ld r(1) by (simp add: call_if_def read_ch_Some conn_run_def)
  moreover have "at_event (during cb h cost elsewhere s0 t0 i v) i r (pack i (s', w')) s' w'"
    using at_event_pack during_step [OF dur r(2,3,5)] r(3) identityD(3) [OF r(4)] ld(2,4) by metis
  ultimately show ?thesis using r(6) by blast
qed

lemma serves_all_set:
  assumes "serves cb h cost elsewhere s0 t0 s w" and "data_inv s0" and "net_inv (new_net t0)"
  shows "all_set w"
  using assms(1)
proof induction
  case init
  show ?case by (simp add: all_set_def new_net_def)
next
  case (accept s w kw fd w')
  obtain w1 l nm where w1: "conns w1 = conns w @ [(l, new_TcpConnection nm fd kw)]" "keeps_fds w1 w'"
    using newConnection_keeps [OF accept(3)] by blast
  have "all_set w1" using accept.IH new_conn_callbacks by (simp add: all_set_def w1(1) nth_append less_Suc_eq)
  then show ?case by (rule all_set_keeps [OF _ w1(2)])
next
  case (run s w l f fs w')
  from exec_keeps [OF run(3)] have "keeps_fds w w'" by (simp add: keeps_fds_def)
  then show ?case by (rule all_set_keeps [OF run.IH])
next
  case (hangup s w i e w')
  then show ?case using close_keeps all_set_keeps by blast
next
  case (writable s w i e c')
  have "callbacks (chan c') = UNIV"
    using identityD(4) [OF handleWrite_identity [OF writable(4)]] writable(2) writable.IH by (simp add: all_set_def)
  then show ?case by (rule all_set_put [OF writable.IH])
next
  case (readable s w i e bs s' w')
  have inv: "data_inv s" "net_inv w" using serves_inv [OF readable(1) assms(2,3)] by auto
  show ?case
  proof (cases "bs = []")
    case True
    have "buf_wf (inputBuffer (cn w i))" using net_inv_conn [OF inv(2) readable(2)] by (simp add: conn_wf_def)
    from read_eof [OF readable(2) this, of h cb s] readable(5) True have "close_event cb i w = Inr w'"
      by (auto simp: res_bind_eq_Inr)
    then show ?thesis using close_keeps [OF _ readable(3)] all_set_keeps [OF readable.IH] by blast
  next
    case False
    note k = read_keeps [OF inv readable(2,3,4) False readable(5)]
    then have "identity (cn w' i) = identity (cn w i)" by (simp add: conn_up_def)
    then have "callbacks (chan (cn w' j)) = callbacks (chan (cn w j))" for j
      using k identityD(4) [of "cn w' i" "cn w i"] by (cases "j = i") simp_all
    then show ?thesis using readable.IH k by (simp add: all_set_def)
  qed
next
  case (read_fails s w i en s' w')
  then show ?case using read_error [OF read_fails(2), of h cb en s] by simp
next
  case (marks s w i r b)
  then show ?case unfolding mark_channel_def by (intro all_set_put) (simp_all add: all_set_def)
qed

text \<open>
  The whole event: the channel is marked, a hang-up closes the connection and an error is printed; the connection is
  read if it was not closed; then it is written and the mark is taken off.
\<close>

lemma event_begins:
  assumes S: "serves cb h cost elsewhere s0 t0 s w" and start: "data_inv s0" "net_inv (new_net t0)"
    and i: "i < length (conns w)" "watched (cn w i) = Some (True, e)"
  obtains st1 st2 st3 w2 where
    "modify_ch i (\<lambda>ch. ch\<lparr>eventHandling := True\<rparr>) \<lparr>heap = [i \<mapsto> (chan (cn w i))\<lparr>revents := r\<rparr>], \<dots> = (s, w)\<rparr> = Inr st1"
    and "call_if (conn_run h cb rr so) i CloseCB (\<lambda>r. has r POLLHUP \<and> \<not> has r POLLIN) st1 = Inr st2"
    and "call_if (conn_run h cb rr so) i ErrorCB (\<lambda>r. has r (POLLERR OR POLLNVAL)) st2 = Inr st3"
    and "at_event (during cb h cost elsewhere s0 t0 i w) i r st3 s w2"
    and "if has r POLLHUP \<and> \<not> has r POLLIN
         then close_event cb i (mark_channel i r True w) = Inr w2 \<and> conn_state (cn w2 i) = StateE.kDisconnected
         else w2 = mark_channel i r True w"
proof -
  let ?S = "during cb h cost elsewhere s0 t0 i w" and ?hup = "\<lambda>r. has r POLLHUP \<and> \<not> has r POLLIN" and ?w = "mark_channel i r True w"
  have "?S s w" using S by (simp add: during_def)
  then have mark: "?S s (mark_channel i r b w)" for b using i(1) by (rule during_mark)
  have inv: "net_inv ?w" using serves_inv [OF _ start] mark unfolding during_def by blast
  have up: "watched (cn ?w i) = Some (True, e)" using i by simp
  have "at_event ?S i r \<lparr>heap = [i \<mapsto> (chan (cn w i))\<lparr>revents := r\<rparr>], \<dots> = (s, w)\<rparr> s
      (mark_channel i r (eventHandling (chan (cn w i))) w)" by (rule at_event_start [where S = ?S, OF mark i(1)])
  from at_event_mark [OF this, of True] mark [of True] obtain st1 where
    st1: "modify_ch i (\<lambda>ch. ch\<lparr>eventHandling := True\<rparr>) \<lparr>heap = [i \<mapsto> (chan (cn w i))\<lparr>revents := r\<rparr>], \<dots> = (s, w)\<rparr> = Inr st1"
      "at_event ?S i r st1 s ?w" by (auto simp: mark_mark [OF i(1)])
  have cbs: "callbacks (chan (cn ?w i)) = UNIV" using serves_all_set [OF S start] i(1) by (simp add: all_set_def)
  obtain st2 w2 where st2: "call_if (conn_run h cb rr so) i CloseCB ?hup st1 = Inr st2" "at_event ?S i r st2 s w2"
      "if ?hup r then close_event cb i ?w = Inr w2 \<and> conn_state (cn w2 i) = StateE.kDisconnected else w2 = ?w"
  proof (cases "?hup r")
    case True
    then show thesis using call_close [OF st1(2) inv up _ _, of ?hup rr so] cbs that by auto
  next
    case False
    then show thesis using call_skip [OF st1(2), of ?hup] st1(2) that by auto
  qed
  with call_error [OF st2(2), of rr so "\<lambda>r. has r (POLLERR OR POLLNVAL)"] st1(1) that show thesis by blast
qed

lemma event_ends:
  assumes at: "at_event (during cb h cost elsewhere s0 t0 i v) i r st s w" and start: "data_inv s0" "net_inv (new_net t0)"
    and st: "conn_state (cn w i) \<noteq> StateE.kConnecting"
  obtains st' st'' w' where "call_if (conn_run h cb rr so) i WriteCB (\<lambda>r. has r POLLOUT) st = Inr st'"
    and "modify_ch i (\<lambda>ch. ch\<lparr>eventHandling := False\<rparr>) st' = Inr st''" and "load i st'' = (s, w')"
    and "during cb h cost elsewhere s0 t0 i v s w'" and "\<not> eventHandling (chan (cn w' i))" and "conn_state (cn w' i) = conn_state (cn w i)"
proof -
  have "net_inv w" using serves_inv [OF _ start] at unfolding at_event_def during_def by blast
  from call_write [OF at this st, of rr so "\<lambda>r. has r POLLOUT"] obtain st1 w1 where
    w1: "call_if (conn_run h cb rr so) i WriteCB (\<lambda>r. has r POLLOUT) st = Inr st1"
      "at_event (during cb h cost elsewhere s0 t0 i v) i r st1 s w1" "conn_state (cn w1 i) = conn_state (cn w i)" by blast
  have d: "during cb h cost elsewhere s0 t0 i v s w1" "i < length (conns w1)" using w1(2) by (simp_all add: at_event_def)
  from at_event_mark [OF w1(2) during_mark [OF d]] obtain st2 where
    "modify_ch i (\<lambda>ch. ch\<lparr>eventHandling := False\<rparr>) st1 = Inr st2"
    "at_event (during cb h cost elsewhere s0 t0 i v) i r st2 s (mark_channel i r False w1)" by blast
  with w1 d show thesis by (intro that [of st1 st2 "mark_channel i r False w1"]) (simp_all add: at_event_def)
qed

lemma event_steps:
  assumes S: "serves cb h cost elsewhere s0 t0 s w" and start: "data_inv s0" "net_inv (new_net t0)"
    and i: "i < length (conns w)" "watched (cn w i) = Some (True, e)" "owner i"
    and r: "hup_alone r" "read_ok cost valid rr i s w"
  shows "\<exists>s' w'. conn_event h cb rr so owner i r (s, w) = Inr (s', w') \<and> serves cb h cost elsewhere s0 t0 s' w' \<and>
    length (conns w') = length (conns w) \<and> (\<forall>j. j \<noteq> i \<longrightarrow> conns w' ! j = conns w ! j) \<and> \<not> eventHandling (chan (cn w' i)) \<and>
    (conn_state (cn w' i) = StateE.kDisconnected \<longleftrightarrow> ends r rr)"
proof -
  let ?S = "during cb h cost elsewhere s0 t0 i w" and ?w = "mark_channel i r True w" and ?run = "conn_run h cb rr so"
  let ?hup = "\<lambda>r. has r POLLHUP \<and> \<not> has r POLLIN" and ?in = "\<lambda>r. has r (POLLIN OR POLLPRI OR POLLRDHUP)"
  obtain st1 st2 st3 w2 where b: "modify_ch i (\<lambda>ch. ch\<lparr>eventHandling := True\<rparr>) \<lparr>heap = [i \<mapsto> (chan (cn w i))\<lparr>revents := r\<rparr>], \<dots> = (s, w)\<rparr> = Inr st1"
      "call_if ?run i CloseCB ?hup st1 = Inr st2" "call_if ?run i ErrorCB (\<lambda>r. has r (POLLERR OR POLLNVAL)) st2 = Inr st3"
      "at_event ?S i r st3 s w2"
      "if ?hup r then close_event cb i ?w = Inr w2 \<and> conn_state (cn w2 i) = StateE.kDisconnected else w2 = ?w"
    by (rule event_begins [OF S start i(1,2)])
  have inv: "data_inv s" "net_inv ?w" using serves_inv [OF _ start] S serves.marks [OF S i(1), of r True] by blast+
  have up: "watched (cn ?w i) = Some (True, e)" using i by simp
  have cbs: "callbacks (chan (cn w2 i)) = UNIV"
    using serves_all_set [OF _ start] b(4) by (auto simp: at_event_def all_set_def during_def)
  obtain st4 s4 w4 where st4: "call_if ?run i ReadCB ?in st3 = Inr st4" "at_event ?S i r st4 s4 w4"
      "if ends r rr then conn_state (cn w4 i) = StateE.kDisconnected
       else conn_state (cn w4 i) \<in> {StateE.kConnected, StateE.kDisconnecting}"
  proof (cases "?in r")
    case True
    then have hup: "\<not> ?hup r" using r(1) by (auto simp: hup_alone_def)
    then have w2: "w2 = ?w" using b(5) by simp
    have ok: "read_ok cost valid rr i s ?w" using r(2) by (simp add: mark_read_ok [OF i(1)])
    show thesis
      using call_read [where p = ?in and so = so, OF b(4) [unfolded w2] inv up True _ ok] cbs w2 hup True that
      unfolding ends_def by auto
  next
    case False
    have "conn_state (cn ?w i) \<in> {StateE.kConnected, StateE.kDisconnecting}"
      using active_up [OF net_inv_conn [OF inv(2)] up] i(1) by simp
    then show thesis
      using False b(5) call_skip [OF b(4), of ?in] b(4) by (intro that) (auto simp: ends_def split: if_splits)
  qed
  have "conn_state (cn w4 i) \<noteq> StateE.kConnecting" using st4(3) by (auto split: if_splits)
  from event_ends [OF st4(2) start this, of rr so] obtain st5 st6 w6 where
    e: "call_if ?run i WriteCB (\<lambda>r. has r POLLOUT) st4 = Inr st5" "modify_ch i (\<lambda>ch. ch\<lparr>eventHandling := False\<rparr>) st5 = Inr st6"
      "load i st6 = (s4, w6)" "?S s4 w6" "\<not> eventHandling (chan (cn w6 i))" "conn_state (cn w6 i) = conn_state (cn w4 i)" by blast
  have "conn_event h cb rr so owner i r (s, w) = Inr (s4, w6)"
    using i(3) b(1-3) st4(1) e(1-3) by (simp add: conn_event_def handleEvent_def handleEventWithGuard_def read_ch_Some)
  with e(4-6) st4(3) show ?thesis by (auto simp: during_def split: if_splits)
qed

text \<open>An active connection of a round, with a message that is valid whatever the other events of the round do to the data.\<close>

lemma round_steps:
  assumes S: "serves cb h cost elsewhere s0 t0 s w" and start: "data_inv s0" "net_inv (new_net t0)"
    and d: "distinct (map fst active)" and a: "\<forall>x \<in> set active. active_ok data_inv valid cost owner w x"
  shows "\<exists>s' w'. conn_round h cb owner active (s, w) = Inr (s', w') \<and> serves cb h cost elsewhere s0 t0 s' w' \<and>
    length (conns w') = length (conns w) \<and> (\<forall>j. j \<notin> fst ` set active \<longrightarrow> conns w' ! j = conns w ! j) \<and>
    (\<forall>(i, r, rr, so) \<in> set active. \<not> eventHandling (chan (cn w' i)) \<and> (conn_state (cn w' i) = StateE.kDisconnected \<longleftrightarrow> ends r rr))"
  using S d a
proof (induction active arbitrary: s w)
  case (Cons x active)
  obtain i r rr so where x: "x = (i, r, rr, so)" by (cases x)
  have ok: "active_ok data_inv valid cost owner w (i, r, rr, so)" using Cons.prems(3) x by simp
  have "data_inv s" using serves_inv [OF Cons.prems(1) start] by blast
  then have i: "i < length (conns w)" "owner i" "hup_alone r" "read_ok cost valid rr i s w"
    using ok by (auto simp: active_ok_def read_ok_def split: read_result.splits)
  obtain e where e: "watched (cn w i) = Some (True, e)" using ok by (auto simp: active_ok_def)
  obtain s1 w1 where w1: "conn_event h cb rr so owner i r (s, w) = Inr (s1, w1)" "serves cb h cost elsewhere s0 t0 s1 w1"
      "length (conns w1) = length (conns w)" "\<forall>j. j \<noteq> i \<longrightarrow> conns w1 ! j = conns w ! j" "\<not> eventHandling (chan (cn w1 i))"
      "conn_state (cn w1 i) = StateE.kDisconnected \<longleftrightarrow> ends r rr"
    using event_steps [where owner = owner and so = so, OF Cons.prems(1) start i(1) e i(2-4)] by blast
  have rest: "active_ok data_inv valid cost owner w1 y" if y: "y \<in> set active" for y
  proof -
    have "fst y \<noteq> i" using Cons.prems(2) x y by force
    then have "conns w1 ! fst y = conns w ! fst y" using w1(4) by blast
    moreover have "active_ok data_inv valid cost owner w y" using Cons.prems(3) y by simp
    ultimately show ?thesis using w1(3) by (auto simp: active_ok_def may_arrive_def arriving_def split: read_result.splits prod.splits)
  qed
  have dist: "distinct (map fst active)" "i \<notin> fst ` set active" using Cons.prems(2) x by auto
  obtain s' w' where w': "conn_round h cb owner active (s1, w1) = Inr (s', w')" "serves cb h cost elsewhere s0 t0 s' w'"
      "length (conns w') = length (conns w1)" "\<forall>j. j \<notin> fst ` set active \<longrightarrow> conns w' ! j = conns w1 ! j"
      "\<forall>(i, r, rr, so) \<in> set active. \<not> eventHandling (chan (cn w' i)) \<and> (conn_state (cn w' i) = StateE.kDisconnected \<longleftrightarrow> ends r rr)"
    using Cons.IH [OF w1(2) dist(1)] rest by blast
  have own: "conns w' ! i = conns w1 ! i" using w'(4) dist(2) by blast
  have "conn_round h cb owner (x # active) (s, w) = Inr (s', w')" using w1(1) w'(1) x by (simp add: conn_round_def)
  moreover have "\<forall>j. j \<notin> fst ` set (x # active) \<longrightarrow> conns w' ! j = conns w ! j" using w'(4) w1(4) x by auto
  ultimately show ?case using w' w1(3,5,6) own x by auto
qed (auto simp: conn_round_def)

end

interpretation directory_reactive: reactive_service onConnection
  "P2PServer_onStringMessage UserInfoSortCriterion reach conn_send conn_shutdown" P2PServer.server_inv server_valid 22 nowhere
  for reach
  by (intro reactive_service.intro directory_service.service_axioms printing_fd.keeps_descriptor_axioms)

interpretation peer_reactive: reactive_service onConnection
  "P2PCServer_onStringMessage conn_send" peer_inv "\<lambda>_ m. 6 \<le> length m" 11 by_client
  by (intro reactive_service.intro peer_service.service_axioms printing_fd.keeps_descriptor_axioms)


section \<open>Properties\<close>



text \<open>
  Reported together, a hang-up and urgent data would end the program: the dispatch runs \<^verbatim>\<open>handleClose\<close> for the hang-up and, when the
  read then finds the end of the stream, once more. The second close asks the server to remove a connection that it no
  longer lists.
\<close>

lemma close_unlisted:
  assumes "lp w i = 0" and "i < length (conns w)" and "\<forall>e \<in> set (connections (srv w)). fst e \<noteq> conn_name (cn w i)"
  shows "close_event onConnection i w = Inl AssertFail"
proof -
  have "filter (\<lambda>e. fst e = conn_name (cn w i)) (connections (srv w)) = []" using assms(3) by (simp add: filter_empty_conv)
  with assms show ?thesis
    by (cases "conns w ! i")
      (simp add: close_event_def handleClose_def lift_cb_def onConnection_def removeConnection_def run_in_loop_def
        removeConnectionInLoop_def put_conn_def Let_def)
qed

lemma close_unlists:
  assumes "close_event onConnection i w = Inr w'" and "lp w i = 0" and "i < length (conns w)"
  shows "lp w' i = 0" and "length (conns w') = length (conns w)" and "\<forall>e \<in> set (connections (srv w')). fst e \<noteq> conn_name (cn w' i)"
proof -
  obtain c where c: "conns w ! i = (0, c)" using assms(2) by (cases "conns w ! i") simp
  let ?w = "put_conn i (closed c) w"
  have "removeConnectionInLoop i ?w = Inr w'"
    using assms(1) c
    by (auto simp: close_event_def handleClose_def lift_cb_def onConnection_def removeConnection_def run_in_loop_def closed_def
        res_bind_eq_Inr Let_def)
  moreover have "conns ?w = (conns w)[i := (0, closed c)]" using c by (simp add: put_conn_def)
  ultimately show "lp w' i = 0" "length (conns w') = length (conns w)" "\<forall>e \<in> set (connections (srv w')). fst e \<noteq> conn_name (cn w' i)"
    using assms(3) by (auto simp: removeConnectionInLoop_def om_erase_def Let_def)
qed

theorem hangup_closes_twice:
  assumes "reactive_service onConnection h data_inv valid cost elsewhere" and "start_server icb threads port nm = Inr t0" and "data_inv s0"
    and "serves onConnection h cost elsewhere s0 t0 s w" and "i < length (conns w)" and "watched (snd (conns w ! i)) = Some (True, e)"
    and "fst (conns w ! i) = 0" and "owner i" and "\<not> hup_alone r"
  shows "conn_event h onConnection (ReadBytes []) so owner i r (s, w) = Inl AssertFail"
proof -
  let ?run = "conn_run h onConnection (ReadBytes []) so" and ?w = "mark_channel i r True w"
  have r: "has r POLLHUP \<and> \<not> has r POLLIN" "has r (POLLIN OR POLLPRI OR POLLRDHUP)" using assms(9) by (simp_all add: hup_alone_def)
  note start = assms(3) start_server_inv [OF assms(2)]
  from reactive_service.event_begins [OF assms(1,4) start assms(5,6), of r "ReadBytes []" so] r(1) obtain st1 st2 st3 w2 where
    b: "modify_ch i (\<lambda>ch. ch\<lparr>eventHandling := True\<rparr>) \<lparr>heap = [i \<mapsto> (chan (cn w i))\<lparr>revents := r\<rparr>], \<dots> = (s, w)\<rparr> = Inr st1"
      "call_if ?run i CloseCB (\<lambda>r. has r POLLHUP \<and> \<not> has r POLLIN) st1 = Inr st2"
      "call_if ?run i ErrorCB (\<lambda>r. has r (POLLERR OR POLLNVAL)) st2 = Inr st3"
      "at_event (during onConnection h cost elsewhere s0 t0 i w) i r st3 s w2" "close_event onConnection i ?w = Inr w2"
    by (metis (no_types, lifting))
  have w2: "load i st3 = (s, w2)" "heap st3 i = Some (chan (cn w2 i))" "revents (chan (cn w2 i)) = r" "i < length (conns w2)"
      "serves onConnection h cost elsewhere s0 t0 s w2" using b(4) by (simp_all add: at_event_def during_def)
  have srv: "service onConnection h data_inv valid cost elsewhere" using assms(1) by (rule reactive_service.axioms)
  have "buf_wf (inputBuffer (cn w2 i))"
    using net_inv_conn [of w2 i] service.serves_inv [OF srv w2(5) start] w2(4) by (simp add: conn_wf_def)
  note eof = read_eof [OF w2(4) this, of h onConnection s]
  have "fst (conns ?w ! i) = 0" "i < length (conns ?w)" using assms(5,7) by (simp_all add: mark_channel_def put_conn_def)
  note un = close_unlists [OF b(5) this]
  have "close_event onConnection i w2 = Inl AssertFail" using close_unlisted [OF un(1) w2(4) un(3)] .
  moreover have "ReadCB \<in> callbacks (chan (cn w2 i))"
    using reactive_service.serves_all_set [OF assms(1) w2(5) start] w2(4) by (simp add: all_set_def)
  ultimately have "call_if ?run i ReadCB (\<lambda>r. has r (POLLIN OR POLLPRI OR POLLRDHUP)) st3 = Inl AssertFail"
    using w2 r(2) eof by (simp add: call_if_def read_ch_Some conn_run_def)
  with b(1-3) assms(8) show ?thesis by (simp add: conn_event_def handleEvent_def handleEventWithGuard_def read_ch_Some)
qed

end
