(* ===== verification/Registration.thy ===== *)
theory Registration
  imports TcpConnection PollPoller
begin

text \<open>
  A connection over the poller. The model of a connection keeps what the poller is asked to watch in its field \<open>watched\<close>;
  here each change of its channel is carried out on the poller itself, through the calls of \<^verbatim>\<open>Channel\<close> that the code makes. The
  field agrees with the poller from the first registration to the removal.
\<close>

section \<open>The calls of a connection\<close>

text \<open>
  \<^verbatim>\<open>sendInLoop\<close> calls \<^verbatim>\<open>enableWriting\<close> when it leaves output behind and \<^verbatim>\<open>handleWrite\<close> calls \<^verbatim>\<open>disableWriting\<close> when it took the last of it:
  they call the channel exactly when the interest in writing changes.
\<close>

definition poller_calls :: "nat \<Rightarrow> TcpConnection \<Rightarrow> TcpConnection \<Rightarrow> 'z PollPoller_scheme \<Rightarrow> 'z PollPoller_scheme res" where
  "poller_calls a c c' s =
     (if \<not> isWriting (chan c) \<and> isWriting (chan c') then enableWriting updateChannel a s
      else if isWriting (chan c) \<and> \<not> isWriting (chan c') then disableWriting updateChannel a s
      else Inr s)"

definition follow :: "nat \<Rightarrow> conn_op \<Rightarrow> TcpConnection \<times> 'z PollPoller_scheme \<Rightarrow> (TcpConnection \<times> 'z PollPoller_scheme) res" where
  "follow a op st =
     (case st of (c, s) \<Rightarrow>
      res_bind (conn_step op c) (\<lambda>c'.
      res_bind (poller_calls a c c' s) (\<lambda>s. Inr (c', s))))"


section \<open>Agreement\<close>

text \<open>The events of a \<^verbatim>\<open>pollfd\<close> are a \<^verbatim>\<open>short\<close>.\<close>

definition narrow :: "bool \<times> int32 \<Rightarrow> bool \<times> 16 word" where
  "narrow x = (fst x, ucast (snd x))"

text \<open>The channel at \<open>a\<close> is that of the connection; \<open>v\<close> is what the poller watched before the connection came.\<close>

definition tracks :: "nat \<Rightarrow> (int \<Rightarrow> (bool \<times> 16 word) option) \<Rightarrow> TcpConnection \<Rightarrow> 'z PollPoller_scheme \<Rightarrow> bool" where
  "tracks a v c s \<longleftrightarrow>
     poller_inv s \<and> registered a s \<and>
     (\<exists>ch. heap s a = Some ch \<and> ch_fd ch = ch_fd (chan c) \<and> events ch = events (chan c)) \<and>
     watched c \<noteq> None \<and> watch s = v(ch_fd (chan c) := map_option narrow (watched c))"

lemma tracks_same:
  assumes "tracks a v c s" and "ch_fd (chan c') = ch_fd (chan c)" and "events (chan c') = events (chan c)" and "watched c' = watched c"
  shows "tracks a v c' s"
  using assms by (simp add: tracks_def)

lemma ch_events_fd: "ch_fd (chan (ch_events f c)) = ch_fd (chan c)"
  by (simp add: ch_events_def ch_update_def)

lemma tracks_events:
  fixes s :: "'z PollPoller_scheme"
  assumes "tracks a v c s"
  shows "\<exists>s'. set_events updateChannel f a s = Inr s' \<and> tracks a v (ch_events f c) s'"
proof -
  obtain ch where ch: "poller_inv s" "registered a s" "heap s a = Some ch" "ch_fd ch = ch_fd (chan c)" "events ch = events (chan c)"
    using assms by (auto simp: tracks_def)
  obtain act ev where w: "watched c = Some (act, ev)" using assms by (auto simp: tracks_def)
  have v: "watch s = v(ch_fd (chan c) \<mapsto> (act, ucast ev))" using assms w by (simp add: tracks_def narrow_def)
  then have "watch s (ch_fd ch) = Some (act, ucast ev)" using ch(4) by simp
  from pp.set_events_old [OF ch(1-3) this, of f] obtain s' where
    "set_events updateChannel f a s = Inr s'" "poller_inv s'" "registered a s'" "heap s' a = Some (ch\<lparr>events := f (events ch)\<rparr>)"
    "watch s' = (watch s)(ch_fd ch \<mapsto> (act \<and> f (events ch) \<noteq> kNoneEvent, ucast (f (events ch))))" by blast
  with ch(4,5) w v show ?thesis by (auto simp: tracks_def narrow_def ch_events_fd)
qed

text \<open>The first registration.\<close>

lemma tracks_new:
  fixes s :: "'z PollPoller_scheme"
  assumes "poller_inv s" and "heap s a = Some (chan c)" and "index (chan c) < 0" and "0 \<le> ch_fd (chan c)"
    and "watch s (ch_fd (chan c)) = None" and "watched c = None"
  shows "\<exists>s'. set_events updateChannel f a s = Inr s' \<and> tracks a (watch s) (ch_events f c) s'"
proof -
  let ?ch = "(chan c)\<lparr>events := f (events (chan c))\<rparr>"
  let ?s = "s\<lparr>heap := (heap s)(a \<mapsto> ?ch)\<rparr>"
  have inv: "poller_inv ?s" "watch ?s = watch s" using poller_inv_events [OF assms(1,2)] watch_events [OF assms(2)] by simp_all
  have free: "channels ?s (ch_fd ?ch) = None" using assms(5) watch_None [OF assms(1)] by simp
  note n = updateChannel_new [OF inv(1), of a ?ch]
  have "registered a (with_new a ?ch ?s)" by (simp add: registered_def)
  then have "tracks a (watch s) (ch_events f c) (with_new a ?ch ?s)"
    using n(2,3) free assms(3,4,6) inv(2) by (auto simp: tracks_def ch_events_def ch_update_def narrow_def)
  moreover have "set_events updateChannel f a s = Inr (with_new a ?ch ?s)"
    using n(1) free assms(2-4) by (simp add: set_events_def ch_simps)
  ultimately show ?thesis by blast
qed

text \<open>Sending, writing and shutting down.\<close>

lemma tracks_step:
  assumes t: "tracks a v c s" and wf: "conn_wf c" "conn_wf c'" and st: "conn_state c \<in> {kConnected, kDisconnecting}"
      "conn_state c' \<in> {kConnected, kDisconnecting}" and id: "identity c' = identity c"
  shows "\<exists>s'. poller_calls a c c' s = Inr s' \<and> tracks a v c' s'"
proof -
  have ev: "events (chan c) = events_of c" "watched c = Some (True, events_of c)" "events (chan c') = events_of c'"
      "watched c' = Some (True, events_of c')" using conn_wfD(4,5) [OF wf(1)] conn_wfD(4,5) [OF wf(2)] st by auto
  note w = isWriting_output [OF wf(1) st(1)] isWriting_output [OF wf(2) st(2)]
  note fd = identityD(2) [OF id]
  have ne: "events_of c' \<noteq> kNoneEvent" by (simp add: events_of_def kNoneEvent_def)
  have go: "\<exists>s'. set_events updateChannel f a s = Inr s' \<and> tracks a v c' s'"
    if "f (events_of c) = events_of c'" for f
  proof -
    obtain s' where "set_events updateChannel f a s = Inr s'" "tracks a v (ch_events f c) s'" using tracks_events [OF t] by blast
    then show ?thesis using tracks_same [of a v "ch_events f c" s' c'] ev that fd ne by (auto simp: ch_events_fd)
  qed
  show ?thesis
  proof (cases "isWriting (chan c) = isWriting (chan c')")
    case True
    then have "events_of c' = events_of c" using w by (auto simp: events_of_def)
    then have "tracks a v c' s" using tracks_same [OF t fd] ev by simp
    with True show ?thesis by (simp add: poller_calls_def)
  next
    case False
    then show ?thesis
      using go [of "\<lambda>e. e OR kWriteEvent"] go [of "\<lambda>e. e AND NOT kWriteEvent"] w ne
      by (cases "isWriting (chan c)") (auto simp: poller_calls_def enableWriting_def disableWriting_def events_of_def)
  qed
qed

lemma conn_steps_fd: "res_fold conn_step ops c = Inr c' \<Longrightarrow> ch_fd (chan c') = ch_fd (chan c)"
  by (induction ops arbitrary: c) (auto simp: res_bind_eq_Inr dest!: conn_step_identity identityD(2))

lemma accepted_prefix: "length (accepted ops) \<le> length (accepted (ops @ [op]))"
  by (induction ops rule: accepted.induct) auto

lemma tracks_run:
  assumes t: "tracks a v c s" and wf: "conn_wf c" "conn_state c = kConnected" and room: "length (accepted ops) \<le> conn_room c"
  shows "\<exists>c' s'. res_fold (follow a) ops (c, s) = Inr (c', s') \<and> res_fold conn_step ops c = Inr c' \<and> tracks a v c' s' \<and>
    conn_wf c' \<and> conn_state c' \<in> {kConnected, kDisconnecting}"
  using room
proof (induction ops rule: rev_induct)
  case Nil
  show ?case using t wf by simp
next
  case (snoc op ops)
  obtain c1 s1 where c1: "res_fold (follow a) ops (c, s) = Inr (c1, s1)" "res_fold conn_step ops c = Inr c1" "tracks a v c1 s1"
      "conn_wf c1" "conn_state c1 \<in> {kConnected, kDisconnecting}"
    using snoc accepted_prefix [of ops op] by (meson le_trans)
  obtain c2 where c2: "res_fold conn_step (ops @ [op]) c = Inr c2" "conn_wf c2" "conn_state c2 \<in> {kConnected, kDisconnecting}"
    using run_connected [OF wf snoc.prems] by (auto split: if_splits)
  then have step: "conn_step op c1 = Inr c2" using c1(2) by (simp add: res_fold_append res_bind_eq_Inr)
  obtain s2 where "poller_calls a c1 c2 s1 = Inr s2" "tracks a v c2 s2"
    using tracks_step [OF c1(3,4) c2(2) c1(5) c2(3) conn_step_identity [OF step]] by blast
  then have "follow a op (c1, s1) = Inr (c2, s2)" "tracks a v c2 s2" using step by (simp_all add: follow_def)
  then show ?case using c1(1) c2 by (simp add: res_fold_append)
qed


section \<open>Properties\<close>

text \<open>
  C24. The poller watches for a connection exactly what the connection says. When a new connection is established, sends, is
  written and shut down in any order, and is closed and removed, the calls it makes on its channel pass every
  assertion of the poller; after each of these phases the poller watches the descriptor just as the model of the connection has
  it, in the end not at all, and what it watches of other descriptors never changes.
\<close>

theorem poller_follows_connection:
  fixes s :: "'z PollPoller_scheme"
  assumes "c = new_TcpConnection nm fd kw" and "\<forall>t len n. kw t len = Some n \<longrightarrow> n \<le> len" and "length (accepted ops) \<le> conn_room c"
    and "poller_inv s" and "heap s a = Some (chan c)" and "0 \<le> fd" and "watch s fd = None"
  shows "\<exists>s1 c2 s2 s3 s4. enableReading updateChannel a s = Inr s1 \<and>
      watch s1 = (watch s)(fd := map_option narrow (watched (established c))) \<and>
    res_fold (follow a) ops (established c, s1) = Inr (c2, s2) \<and> res_fold conn_step ops (established c) = Inr c2 \<and>
      watch s2 = (watch s)(fd := map_option narrow (watched c2)) \<and>
    disableAll updateChannel a s2 = Inr s3 \<and> watch s3 = (watch s)(fd := map_option narrow (watched (closed c2))) \<and>
    remove_Channel removeChannel a s3 = Inr s4 \<and> ch_remove (closed c2) = Inr ((closed c2)\<lparr>watched := None\<rparr>) \<and>
      poller_inv s4 \<and> watch s4 = watch s"
proof -
  have c: "ch_fd (chan c) = fd" "index (chan c) < 0" "watched c = None" "conn_state c = kConnecting"
    by (simp_all add: assms(1) new_TcpConnection_def set_callback_def new_Channel_def)
  have wf: "conn_wf c" unfolding assms(1) by (rule new_conn_wf [OF assms(2)])
  note est = established_wf [OF wf c(4)]
  obtain s1 where s1: "enableReading updateChannel a s = Inr s1" "tracks a (watch s) (ch_events (\<lambda>e. e OR kReadEvent) c) s1"
    using tracks_new [OF assms(4,5)] c assms(6,7) by (auto simp: enableReading_def)
  have t1: "tracks a (watch s) (established c) s1"
    by (rule tracks_same [OF s1(2)]) (simp_all add: established_def ch_events_fd tie_def c(3))
  obtain c2 s2 where s2: "res_fold (follow a) ops (established c, s1) = Inr (c2, s2)" "res_fold conn_step ops (established c) = Inr c2"
      "tracks a (watch s) c2 s2" "conn_wf c2" "conn_state c2 \<in> {kConnected, kDisconnecting}"
    using tracks_run [OF t1 est(1,2), of ops] assms(3) est(4) by auto
  obtain s3 where s3: "disableAll updateChannel a s2 = Inr s3" "tracks a (watch s) (ch_events (\<lambda>_. kNoneEvent) c2) s3"
    using tracks_events [OF s2(3), of "\<lambda>_. kNoneEvent"] by (auto simp: disableAll_def)
  have t3: "tracks a (watch s) (closed c2) s3"
    by (rule tracks_same [OF s3(2)]) (simp_all add: closed_def ch_events_fd)
  note cl = closed_wf [OF s2(4,5)] and rem = closed_removes [OF s2(4,5)]
  have fd: "ch_fd (chan (established c)) = fd" by (simp add: established_def ch_events_fd tie_def c(1))
  have "ch_fd (chan c2) = ch_fd (chan (established c))"
    by (rule conn_steps_fd [OF s2(2)])
  with fd have fd2: "ch_fd (chan c2) = fd" "ch_fd (chan (closed c2)) = fd" by (simp_all add: closed_def ch_events_fd)
  obtain ch where ch: "poller_inv s3" "registered a s3" "heap s3 a = Some ch" "ch_fd ch = fd" "events ch = 0"
    using t3 cl(4) fd2(2) by (auto simp: tracks_def)
  have w3: "watch s3 = (watch s)(fd := map_option narrow (watched (closed c2)))" using t3 fd2(2) by (simp add: tracks_def)
  then have "watch s3 (ch_fd ch) = Some (False, 0)" using cl(3) ch(4) by (simp add: narrow_def)
  moreover have none: "isNoneEvent ch" using ch(5) by (simp add: isNoneEvent_def kNoneEvent_def)
  ultimately obtain s4 where s4: "removeChannel a s3 = Inr s4" "poller_inv s4" "watch s4 = (watch s3)(fd := None)"
    using pp.rem_law [OF ch(1-3)] ch(4) by auto
  have "watch s4 = watch s" using s4(3) w3 assms(7) by auto
  moreover have "remove_Channel removeChannel a s3 = Inr s4" using s4(1) ch(3) none by (simp add: remove_Channel_def read_ch_Some)
  ultimately show ?thesis
    using s1(1) t1 s2 s3(1) w3 s4(2) rem fd fd2 by (auto simp: tracks_def)
qed

text \<open>A connection to a peer that takes one byte at a time, beside two other channels.\<close>

definition trickle :: TcpConnection where
  "trickle = new_TcpConnection ''c'' 9 (\<lambda>_ len. Some (min 1 len))"

definition third_channel :: PollPoller where
  "third_channel = two_channels\<lparr>heap := (heap two_channels)(2 \<mapsto> chan trickle)\<rparr>"

theorem poller_follows_connection_witness:
  "\<exists>s1 c2 s2. enableReading updateChannel 2 third_channel = Inr s1 \<and>
     res_fold (follow 2) [Send ''ab'', Shutdown, Writable] (established trickle, s1) = Inr (c2, s2) \<and>
     watch s2 = (watch third_channel)(9 := map_option narrow (watched c2)) \<and> watch s2 7 = Some (True, 3)"
proof -
  have two: "heap two_channels 2 = None" "watch two_channels 9 = None" "watch two_channels 7 = Some (True, 3)"
    by (simp_all add: two_channels_def watch_def)
  note al = alloc_channel [OF two_channels_inv(1) two(1), of "chan trickle", folded third_channel_def]
  have "length (accepted [Send ''ab'', Shutdown, Writable]) \<le> conn_room trickle"
    by (simp add: trickle_def new_TcpConnection_def conn_room_def new_Buffer_def kCheapPrepend_def kInitialSize_def)
  from poller_follows_connection [OF trickle_def _ this al(1), of 2] al(2) two(2,3) show ?thesis
    by (auto simp: third_channel_def)
qed

end
