(* ===== verification/Probes.thy ===== *)
theory Probes
  imports Acceptor P2PServer P2PClient
begin

text \<open>
  Both programs find out whether a peer is up by connecting to it: \<^verbatim>\<open>UserCatalogue::isClientWorking\<close> and \<^verbatim>\<open>P2PClient::changeServer\<close> open
  a socket, connect it and close it again. Here the socket is a descriptor of the process. When the connection is
  refused both return without closing it.
\<close>

section \<open>Operations\<close>

text \<open>The socket, connect and close that both functions share; \<open>reach\<close> are the ports where something listens.\<close>

definition probe :: "(16 word \<Rightarrow> bool) \<Rightarrow> 16 word \<Rightarrow> kernel \<Rightarrow> bool \<times> kernel" where
  "probe reach port k =
     (case k_open k of (sockfd, k) \<Rightarrow>
      if 0 \<le> sockfd \<and> reach port then (True, k_close sockfd k) else (False, k))"

definition isClientWorking_fd :: "(16 word \<Rightarrow> bool) \<Rightarrow> string \<Rightarrow> UserCatalogue \<times> kernel \<Rightarrow> bool \<times> UserCatalogue \<times> kernel" where
  "isClientWorking_fd reach ip st =
     (case st of (c, k) \<Rightarrow>
      case probe reach (word_of_int (atoi ip)) k of (ok, k) \<Rightarrow>
      case isClientWorking (\<lambda>_. ok) ip c of (working, c) \<Rightarrow> (working, c, k))"

text \<open>\<^verbatim>\<open>insertUser\<close> makes a probe when a newcomer finds its group full, of the client at the front of the queue.\<close>

definition probed :: "string \<Rightarrow> UserCatalogue \<Rightarrow> string option" where
  "probed ip c =
     (case users c (processIP ip) of
        None \<Rightarrow> None
      | Some uset \<Rightarrow>
          if ip \<notin> userIP ` set uset \<and> MAXQUE \<le> length (que_at (processIP ip) c) then Some (hd (que_at (processIP ip) c)) else None)"

definition insertUser_fd ::
  "(UserInfo \<Rightarrow> UserInfo \<Rightarrow> bool) \<Rightarrow> (16 word \<Rightarrow> bool) \<Rightarrow> string \<Rightarrow> int \<Rightarrow> UserCatalogue \<times> kernel \<Rightarrow> (UserCatalogue \<times> kernel) res"
where
  "insertUser_fd lt reach ip file st =
     (case st of (c, k) \<Rightarrow>
      res_bind (insertUser lt (\<lambda>port. fst (probe reach port k)) ip file c) (\<lambda>c'.
      Inr (c', case probed ip c of Some firstIP \<Rightarrow> snd (snd (isClientWorking_fd reach firstIP (c, k))) | None \<Rightarrow> k)))"

definition changeServer_fd :: "probes \<Rightarrow> 16 word \<Rightarrow> 'c P2PClient \<times> kernel \<Rightarrow> bool \<times> 'c P2PClient \<times> kernel" where
  "changeServer_fd reach newAddr st =
     (case st of (p, k) \<Rightarrow>
      case probe (reach (attempts p)) newAddr k of (ok, k) \<Rightarrow>
      case changeServer (\<lambda>_ _. ok) newAddr p of (ok, p) \<Rightarrow> (ok, p, k))"

text \<open>The attempts of a search that finds nobody.\<close>

fun try_servers :: "probes \<Rightarrow> 16 word list \<Rightarrow> 'c P2PClient \<times> kernel \<Rightarrow> 'c P2PClient \<times> kernel" where
  "try_servers reach [] st = st"
| "try_servers reach (a # as) st = try_servers reach as (snd (changeServer_fd reach a st))"


section \<open>Lemmas\<close>

lemma kernel_count:
  assumes "kernel_wf k"
  shows "length (open_fds k) \<le> fd_limit k" and "free_fd k = None \<longleftrightarrow> length (open_fds k) = fd_limit k"
proof -
  have c: "card (set (open_fds k)) = length (open_fds k)" "set (open_fds k) \<subseteq> {0..<fd_limit k}"
    using assms by (auto simp: kernel_wf_def distinct_card)
  then show "length (open_fds k) \<le> fd_limit k" using card_mono [OF _ c(2)] by simp
  show "free_fd k = None \<longleftrightarrow> length (open_fds k) = fd_limit k"
  proof
    assume "free_fd k = None"
    then have "set (open_fds k) = {0..<fd_limit k}" by (rule kernel_full [OF assms])
    then show "length (open_fds k) = fd_limit k" using c(1) by simp
  next
    assume "length (open_fds k) = fd_limit k"
    then show "free_fd k = None" using c card_subset_eq [OF _ c(2)] by (simp add: free_fd_None)
  qed
qed

text \<open>A probe of a dead peer takes a descriptor, one of a living peer needs one; without any, all are taken for dead.\<close>

lemma probe_dead: "\<not> reach port \<Longrightarrow> probe reach port k = (False, snd (k_open k))"
  by (simp add: probe_def split: prod.split)

lemma probe_alive:
  assumes "reach port" and "free_fd k = Some n"
  shows "probe reach port k = (True, k)"
proof -
  have "filter (\<lambda>m. m \<noteq> n) (open_fds k) = open_fds k" using free_fd_Some [OF assms(2)] by (auto simp: filter_id_conv)
  with assms show ?thesis by (simp add: probe_def k_open_def k_close_def)
qed

lemma probe_full: "free_fd k = None \<Longrightarrow> probe reach port k = (False, k)"
  by (simp add: probe_def k_open_def)

lemma open_count:
  assumes "kernel_wf k"
  shows "kernel_wf (snd (k_open k))" and "fd_limit (snd (k_open k)) = fd_limit k"
    and "length (open_fds (snd (k_open k))) = min (fd_limit k) (Suc (length (open_fds k)))"
proof -
  have le: "length (open_fds k) \<le> fd_limit k" "free_fd k \<noteq> None \<Longrightarrow> length (open_fds k) < fd_limit k" using kernel_count [OF assms] by auto
  then show "kernel_wf (snd (k_open k))" "fd_limit (snd (k_open k)) = fd_limit k"
      "length (open_fds (snd (k_open k))) = min (fd_limit k) (Suc (length (open_fds k)))"
    using assms kernel_wf_new [OF assms, of _ "backlog k"] kernel_count(2) [OF assms]
    by (cases "free_fd k"; auto simp: k_open_def)+
qed

lemma accept_full: "free_fd k = None \<Longrightarrow> fst (accept_event oth e' (acc, k)) = None"
  by (auto simp: accept_event_def k_accept_def Socket_accept_def sockets_accept_def Let_def split: prod.split)

text \<open>A newcomer in a full group whose front client does not answer takes its place.\<close>

lemma front_replaced:
  assumes lt: "orders_by_ip lt" and wf: "cat_wf c" and q: "que_at (processIP ip) c = q" "ip \<notin> set q" "length q = MAXQUE"
    and dead: "\<not> fst (probe reach (word_of_int (atoi (hd q))) k)"
  shows "\<exists>c'. insertUser_fd lt reach ip f (c, k) = Inr (c', snd (probe reach (word_of_int (atoi (hd q))) k)) \<and> cat_wf c' \<and>
    que_at (processIP ip) c' = tl q @ [ip] \<and> members c' (processIP ip) = (members c (processIP ip))(hd q := None, ip \<mapsto> f)"
proof -
  let ?r = "\<lambda>port. fst (probe reach port k)" and ?k = "processIP ip"
  obtain c' where c': "insertUser lt ?r ip f c = Inr c'" "cat_wf c'" "group_of c' ?k = register ?r ip f (group_of c ?k)"
    using insertUser_spec [OF lt wf, of ?r ip f] by auto
  have g: "group_of c' ?k = ((members c ?k)(hd q := None, ip \<mapsto> f), tl q @ [ip])"
    using c'(3) q dead by (simp add: group_of_def [of c] register_def)
  have "?k \<in> dom (userQue c)" using q(1,3) by (auto simp: que_at_def MAXQUE_def split: option.splits)
  then have "userQue c ?k = Some q" using q(1) by (auto simp: que_at_def)
  then obtain s where s: "users c ?k = Some s" "group_wf ?k s q" by (rule cat_wf_queue [OF wf])
  then have "probed ip c = Some (hd q)" using q by (auto simp: probed_def group_wf_def)
  then have "insertUser_fd lt reach ip f (c, k) = Inr (c', snd (probe reach (word_of_int (atoi (hd q))) k))"
    using c'(1) by (simp add: insertUser_fd_def isClientWorking_fd_def split: prod.split)
  with c'(2) g show ?thesis by (auto simp: group_of_def)
qed

lemma dead_registrations:
  assumes lt: "orders_by_ip lt"
  shows "cat_wf c \<Longrightarrow> kernel_wf k \<Longrightarrow> que_at key c = q \<Longrightarrow> length q = MAXQUE \<Longrightarrow> distinct ips \<Longrightarrow> set ips \<inter> set q = {} \<Longrightarrow>
    \<forall>ip \<in> set ips. processIP ip = key \<Longrightarrow>
    \<exists>c' k' q'. res_fold (\<lambda>ip. insertUser_fd lt (\<lambda>_. False) ip f) ips (c, k) = Inr (c', k') \<and> cat_wf c' \<and> kernel_wf k' \<and>
      que_at key c' = q' \<and> length q' = MAXQUE \<and> set q' \<subseteq> set q \<union> set ips \<and> fd_limit k' = fd_limit k \<and>
      length (open_fds k') = min (fd_limit k) (length (open_fds k) + length ips)"
proof (induction ips arbitrary: c k q)
  case Nil
  then show ?case using kernel_count(1) [of k] by (simp add: min_def)
next
  case (Cons ip ips)
  have ip: "processIP ip = key" "ip \<notin> set q" using Cons.prems(6,7) by auto
  have "\<not> fst (probe (\<lambda>_. False) (word_of_int (atoi (hd q))) k)" by (simp add: probe_dead)
  from front_replaced [OF lt Cons.prems(1) _ ip(2) Cons.prems(4) this, of f] Cons.prems(3) ip(1) obtain c1 where
    c1: "insertUser_fd lt (\<lambda>_. False) ip f (c, k) = Inr (c1, snd (k_open k))" "cat_wf c1" "que_at key c1 = tl q @ [ip]"
    by (auto simp: probe_dead)
  note k1 = open_count [OF Cons.prems(2)]
  have q1: "length (tl q @ [ip]) = MAXQUE" "set (tl q @ [ip]) \<subseteq> set q \<union> {ip}"
    using Cons.prems(4) by (auto simp: MAXQUE_def intro: list.set_sel(2) [of q])
  have "set ips \<inter> set (tl q @ [ip]) = {}" using Cons.prems(5,6) q1(2) by auto
  from Cons.IH [OF c1(2) k1(1) c1(3) q1(1) _ this] Cons.prems(5,7) c1(1) k1 q1(2) show ?case by fastforce
qed


section \<open>Properties\<close>


text \<open>A process with one free descriptor and a full group of three.\<close>

definition full_group :: UserCatalogue where
  "full_group = set_group ''111'' [\<lparr>userIP = ''1113'', userFile = 3\<rparr>, \<lparr>userIP = ''1112'', userFile = 2\<rparr>, \<lparr>userIP = ''1111'', userFile = 100\<rparr>]
     [''1111'', ''1112'', ''1113''] first_catalogue"


text \<open>
  The same happens to a peer: a search that fails as often as the process has descriptors left ends every hope, since
  from then on \<^verbatim>\<open>changeServer\<close> fails whatever is listening, and the search loop that calls it until it succeeds does not end.
\<close>

lemma changeServer_dead:
  assumes "\<not> fst (probe (reach (attempts p)) a k)"
  shows "\<exists>p'. changeServer_fd reach a (p, k) = (False, p', snd (probe (reach (attempts p)) a k))"
  using assms by (auto simp: changeServer_fd_def changeServer_def Let_def split: prod.split)

theorem searches_exhaust:
  fixes p :: "'c P2PClient"
  assumes "kernel_wf k" and "fd_limit k \<le> length (open_fds k) + length as"
  shows "\<exists>p' k'. try_servers (\<lambda>_ _. False) as (p, k) = (p', k') \<and> (\<forall>reach a (q :: 'c P2PClient). \<exists>p''. changeServer_fd reach a (q, k') = (False, p'', k'))"
  using assms
proof (induction as arbitrary: p k)
  case Nil
  then have full: "free_fd k = None" using kernel_count [OF Nil(1)] by simp
  have "\<exists>p''. changeServer_fd reach a (p, k) = (False, p'', k)" for reach a and p :: "'c P2PClient"
    using changeServer_dead [of reach p a k] by (simp add: probe_full [OF full])
  then show ?case by simp
next
  case (Cons a as)
  obtain p1 where p1: "changeServer_fd (\<lambda>_ _. False) a (p, k) = (False, p1, snd (k_open k))"
    using changeServer_dead [of "\<lambda>_ _. False" p a k] by (auto simp: probe_dead)
  note k1 = open_count [OF Cons.prems(1)]
  have "fd_limit (snd (k_open k)) \<le> length (open_fds (snd (k_open k))) + length as" using k1(2,3) Cons.prems(2) by simp
  from Cons.IH [OF k1(1) this, of p1] p1 show ?case by simp
qed

end
