(* ===== verification/Timestamp.thy ===== *)
theory Timestamp
  imports Prelude "HOL-Library.Log_Nat"
begin

text \<open>
  \<^verbatim>\<open>base/inc/Timestamp.h\<close> and \<^verbatim>\<open>base/src/Timestamp.cpp\<close>. Times are microseconds in a signed 64-bit integer. Delays and
  differences are \<^verbatim>\<open>double\<close> numbers of seconds: a finite one is the rational number it stands for, and every operation
  rounds its exact result to the nearest number with 53 significant bits, ties to even. Results of \<open>2\<^sup>1\<^sup>0\<^sup>2\<^sup>4\<close> and more,
  which would be infinite, are not told apart, since the conversion to an integer is undefined for all of them.
\<close>

section \<open>Rounding\<close>

type_synonym double = rat

text \<open>The exponent of the leading bit, by the lengths of numerator and denominator.\<close>

definition leading :: "rat \<Rightarrow> int" where
  "leading x = (case quotient_of \<bar>x\<bar> of (p, q) \<Rightarrow>
     let k = bitlen p - bitlen q in if 2 powi k \<le> \<bar>x\<bar> then k else k - 1)"

definition nearest :: "rat \<Rightarrow> int" where
  "nearest y = (let n = \<lfloor>y\<rfloor>; f = y - of_int n in if f < 1 / 2 \<or> f = 1 / 2 \<and> even n then n else n + 1)"

definition fl :: "rat \<Rightarrow> double" where
  "fl x = (if x = 0 then 0 else
     let s = 2 powi (max (leading x - 52) (- 1074)) in of_int (nearest (x / s)) * s)"

lemma bitlen_bounds_rat:
  assumes "0 < p"
  shows "2 powi (bitlen p - 1) \<le> (of_int p :: rat)" and "(of_int p :: rat) < 2 powi (bitlen p)"
proof -
  have b: "2 ^ nat (bitlen p - 1) \<le> p" "p < 2 ^ nat (bitlen p)" using bitlen_bounds [OF assms] by auto
  have n: "0 \<le> bitlen p" "1 \<le> bitlen p" using assms bitlen_nonneg [of p] bitlen_eq_zero_iff [of p] by linarith+
  have "(of_int (2 ^ nat (bitlen p - 1)) :: rat) \<le> of_int p" "(of_int p :: rat) < of_int (2 ^ nat (bitlen p))"
    using b by (simp_all only: of_int_le_iff of_int_less_iff)
  with n show "2 powi (bitlen p - 1) \<le> (of_int p :: rat)" "(of_int p :: rat) < 2 powi (bitlen p)"
    by (simp_all add: power_int_def)
qed

lemma powi_less_iff: "(2 powi a :: rat) < 2 powi b \<longleftrightarrow> a < b"
  using power_int_strict_increasing [of a b "2 :: rat"] power_int_increasing [of b a "2 :: rat"] by linarith

lemma leading_bounds:
  assumes "x \<noteq> 0"
  shows "2 powi (leading x) \<le> \<bar>x\<bar>" and "\<bar>x\<bar> < 2 powi (leading x + 1)"
proof -
  obtain p q where pq: "quotient_of \<bar>x\<bar> = (p, q)" by fastforce
  let ?k = "bitlen p - bitlen q"
  have q: "0 < q" using quotient_of_denom_pos [OF pq] .
  have x: "\<bar>x\<bar> = of_int p / of_int q" using quotient_of_div [OF pq] .
  have "0 < of_int p / (of_int q :: rat)" using assms x by (simp flip: x)
  then have p: "0 < p" using q by (simp add: zero_less_divide_iff)
  note bp = bitlen_bounds_rat [OF p] and bq = bitlen_bounds_rat [OF q]
  have "2 powi (?k - 1) = (2 powi (bitlen p - 1) / 2 powi (bitlen q) :: rat)" by (simp add: power_int_diff)
  also have "\<dots> \<le> \<bar>x\<bar>" unfolding x using bp bq p q by (intro frac_le) auto
  finally have lo: "2 powi (?k - 1) \<le> \<bar>x\<bar>" .
  have "\<bar>x\<bar> < 2 powi (bitlen p) / 2 powi (bitlen q - 1)"
    unfolding x using bp bq q p by (intro frac_less) auto
  also have "\<dots> = 2 powi (?k + 1)" by (simp add: power_int_diff power_int_add)
  finally have hi: "\<bar>x\<bar> < 2 powi (?k + 1)" .
  show "2 powi (leading x) \<le> \<bar>x\<bar>" "\<bar>x\<bar> < 2 powi (leading x + 1)"
    using lo hi pq by (auto simp: leading_def Let_def)
qed

lemma nearest_error: "\<bar>of_int (nearest y) - y\<bar> \<le> 1 / 2"
proof -
  have "of_int \<lfloor>y\<rfloor> \<le> y" "y < of_int \<lfloor>y\<rfloor> + 1" by linarith+
  then show ?thesis by (simp add: nearest_def Let_def abs_if) linarith
qed

lemma nearest_int [simp]: "nearest (of_int n) = n"
  by (simp add: nearest_def)

text \<open>Half a unit in the last place, and the unit roundoff \<open>2\<^sup>-\<^sup>5\<^sup>3\<close>.\<close>

lemma fl_half_unit: "\<bar>fl x - x\<bar> \<le> 2 powi (max (leading x - 52) (- 1074)) / 2"
proof (cases "x = 0")
  case False
  let ?s = "2 powi (max (leading x - 52) (- 1074)) :: rat"
  have pos: "0 < ?s" by simp
  have "fl x - x = (of_int (nearest (x / ?s)) - x / ?s) * ?s" using False pos by (simp add: fl_def Let_def algebra_simps)
  then show ?thesis using nearest_error [of "x / ?s"] pos mult_right_mono [of "\<bar>of_int (nearest (x / ?s)) - x / ?s\<bar>" "1 / 2" ?s]
    by (simp add: abs_mult)
qed (simp add: fl_def)

lemma leading_less: "x \<noteq> 0 \<Longrightarrow> \<bar>x\<bar> < 2 powi k \<Longrightarrow> leading x < k"
  using leading_bounds(1) [of x] powi_less_iff [of "leading x" k] by linarith

lemma leading_ge: "x \<noteq> 0 \<Longrightarrow> 2 powi k \<le> \<bar>x\<bar> \<Longrightarrow> k \<le> leading x"
  using leading_bounds(2) [of x] powi_less_iff [of k "leading x + 1"] by linarith

lemma fl_error:
  assumes "2 powi (- 1022) \<le> \<bar>x\<bar>"
  shows "\<bar>fl x - x\<bar> \<le> \<bar>x\<bar> / 2 ^ 53"
proof -
  have x: "x \<noteq> 0" using assms by (auto simp: power_int_def)
  then have "max (leading x - 52) (- 1074) = leading x - 52" using leading_ge [OF x assms] by simp
  then have "\<bar>fl x - x\<bar> \<le> 2 powi (leading x) / 2 ^ 53" using fl_half_unit [of x] by (simp add: power_int_diff)
  also have "\<dots> \<le> \<bar>x\<bar> / 2 ^ 53" using leading_bounds(1) [OF x] by (simp add: divide_right_mono)
  finally show ?thesis .
qed

lemma fl_abs_error:
  assumes "\<bar>x\<bar> < 2 powi k" and "- 1022 < k"
  shows "\<bar>fl x - x\<bar> \<le> 2 powi (k - 54)"
proof (cases "x = 0")
  case False
  have "max (leading x - 52) (- 1074) \<le> k - 53" using leading_less [OF False assms(1)] assms(2) by simp
  then have "(2 powi (max (leading x - 52) (- 1074)) :: rat) \<le> 2 powi (k - 53)" by (intro power_int_increasing) simp_all
  also have "\<dots> = 2 powi (k - 54) * 2" by (simp add: power_int_diff)
  finally show ?thesis using fl_half_unit [of x] by linarith
qed (simp add: fl_def)

lemma fl_int:
  assumes "\<bar>n\<bar> < 2 ^ 53"
  shows "fl (of_int n) = of_int n"
proof (cases "n = 0")
  case False
  then have x: "(of_int n :: rat) \<noteq> 0" by simp
  let ?e = "leading (of_int n)"
  have "(of_int \<bar>n\<bar> :: rat) < of_int (2 ^ 53)" using assms by (simp only: of_int_less_iff)
  then have e: "?e < 53" by (intro leading_less [OF x]) (simp add: power_int_def)
  have "1 \<le> (of_int \<bar>n\<bar> :: rat)" using False by (simp flip: of_int_abs)
  then have "0 \<le> ?e" by (intro leading_ge [OF x]) simp
  with e obtain m where m: "52 - ?e = int m" using nonneg_int_cases [of "52 - ?e"] by auto
  then have s: "max (?e - 52) (- 1074) = - int m" using \<open>0 \<le> ?e\<close> by simp
  have "of_int n / 2 powi (- int m) = (of_int (n * 2 ^ m) :: rat)" by (simp add: power_int_minus divide_inverse)
  then have "nearest (of_int n / 2 powi (- int m)) = n * 2 ^ m" by (metis nearest_int)
  then show ?thesis using x unfolding fl_def Let_def s by (simp add: power_int_minus)
qed (simp add: fl_def)


section \<open>Timestamp\<close>

type_synonym Timestamp = "64 word"

definition kMicroSecondsPerSecond :: int where
  "kMicroSecondsPerSecond = 1000 * 1000"

definition invalid :: Timestamp where
  "invalid = 0"

definition valid :: "Timestamp \<Rightarrow> bool" where
  "valid t \<longleftrightarrow> 0 < sint t"

definition ts_less :: "Timestamp \<Rightarrow> Timestamp \<Rightarrow> bool" where
  "ts_less a b \<longleftrightarrow> sint a < sint b"

definition ts_eq :: "Timestamp \<Rightarrow> Timestamp \<Rightarrow> bool" where
  "ts_eq a b \<longleftrightarrow> sint a = sint b"

text \<open>\<open>tv_sec\<close> and \<open>tv_usec\<close> are what \<^verbatim>\<open>gettimeofday\<close> returns.\<close>

definition now :: "int \<Rightarrow> int \<Rightarrow> Timestamp" where
  "now tv_sec tv_usec = word_of_int (tv_sec * kMicroSecondsPerSecond + tv_usec)"

text \<open>The conversion of a \<^verbatim>\<open>double\<close> to an integer drops the fraction.\<close>

definition trunc :: "double \<Rightarrow> int" where
  "trunc x = (if x < 0 then \<lceil>x\<rceil> else \<lfloor>x\<rfloor>)"

definition int64_range :: "int \<Rightarrow> bool" where
  "int64_range n \<longleftrightarrow> - (2 ^ 63) \<le> n \<and> n < 2 ^ 63"

definition timeDifference :: "Timestamp \<Rightarrow> Timestamp \<Rightarrow> double res" where
  "timeDifference high low =
     (let diff = sint high - sint low in
      if int64_range diff then Inr (fl (fl (of_int diff) / of_int kMicroSecondsPerSecond)) else Inl UndefinedBehaviour)"

definition addTime :: "Timestamp \<Rightarrow> double \<Rightarrow> Timestamp res" where
  "addTime timestamp seconds =
     (let delta = trunc (fl (seconds * of_int kMicroSecondsPerSecond)) in
      if int64_range delta \<and> int64_range (sint timestamp + delta) then Inr (word_of_int (sint timestamp + delta))
      else Inl UndefinedBehaviour)"

text \<open>Division and remainder of C round towards zero.\<close>

definition c_div :: "int \<Rightarrow> int \<Rightarrow> int" where
  "c_div a b = (if a < 0 then - ((- a) div b) else a div b)"

definition c_mod :: "int \<Rightarrow> int \<Rightarrow> int" where
  "c_mod a b = a - b * c_div a b"

definition secondsSinceEpoch :: "Timestamp \<Rightarrow> int" where
  "secondsSinceEpoch t = c_div (sint t) kMicroSecondsPerSecond"

definition pad0 :: "nat \<Rightarrow> string \<Rightarrow> string" where
  "pad0 n s = replicate (n - length s) CHR ''0'' @ s"

text \<open>The conversions \<^verbatim>\<open>%0wd\<close> and \<^verbatim>\<open>%wd\<close>.\<close>

definition fmt_0d :: "nat \<Rightarrow> int \<Rightarrow> string" where
  "fmt_0d w n = (if n < 0 then ''-'' @ pad0 (w - 1) (show_nat (nat (- n))) else pad0 w (show_nat (nat n)))"

definition fmt_d :: "nat \<Rightarrow> int \<Rightarrow> string" where
  "fmt_d w n = (let s = show_int n in replicate (w - length s) CHR '' '' @ s)"

definition ts_toString :: "Timestamp \<Rightarrow> string" where
  "ts_toString t =
     snprintf 31 (show_int (c_div (sint t) kMicroSecondsPerSecond) @ ''.'' @ fmt_0d 6 (c_mod (sint t) kMicroSecondsPerSecond))"

text \<open>\<open>localtime_r\<close> is the conversion of the C library, which depends on the time zone.\<close>

record tm =
  tm_year :: int
  tm_mon :: int
  tm_mday :: int
  tm_hour :: int
  tm_min :: int
  tm_sec :: int

definition toFormattedString :: "(int \<Rightarrow> tm) \<Rightarrow> Timestamp \<Rightarrow> string" where
  "toFormattedString localtime_r t =
     (let seconds = c_div (sint t) kMicroSecondsPerSecond;
          microseconds = c_mod (sint t) kMicroSecondsPerSecond;
          tm_time = localtime_r seconds
      in snprintf 32 (fmt_d 4 (tm_year tm_time + 1900) @ fmt_0d 2 (tm_mon tm_time + 1) @ fmt_0d 2 (tm_mday tm_time) @ '' '' @
           fmt_0d 2 (tm_hour tm_time) @ '':'' @ fmt_0d 2 (tm_min tm_time) @ '':'' @ fmt_0d 2 (tm_sec tm_time) @ ''.'' @
           fmt_0d 6 microseconds))"


section \<open>Conversions between seconds and microseconds\<close>

lemma abs_via: "\<bar>a - c\<bar> \<le> \<bar>a - b\<bar> + \<bar>b - c\<bar>" for a b c :: rat
  using abs_triangle_ineq [of "a - b" "b - c"] by simp

lemma abs_near: "\<bar>a\<bar> \<le> \<bar>b\<bar> + \<bar>a - b\<bar>" for a b :: rat
  using abs_triangle_ineq [of b "a - b"] by simp

lemma trunc_error: "\<bar>of_int (trunc x) - x\<bar> < 1"
  by (simp add: trunc_def abs_if) linarith

lemma trunc_int [simp]: "trunc (of_int n) = n"
  by (simp add: trunc_def)

lemma trunc_near:
  assumes "\<bar>x - of_int d\<bar> < 1"
  shows "trunc x = d \<or> trunc x = d - sgn d"
proof (cases "d = 0")
  case True
  with assms show ?thesis by (auto simp: trunc_def abs_if floor_eq_iff ceiling_eq_iff split: if_splits)
next
  case False
  then consider "0 < d" "1 \<le> d" | "d < 0" "d \<le> -1" by linarith
  then show ?thesis
  proof cases
    case 1
    then have "(1::rat) \<le> of_int d" by simp
    with assms have "0 \<le> x" "of_int (d - 1) \<le> x" "x < of_int (d + 1)" by (simp_all add: abs_if split: if_splits)
    then have "d - 1 \<le> \<lfloor>x\<rfloor>" "\<lfloor>x\<rfloor> < d + 1" by (simp_all only: le_floor_iff floor_less_iff)
    with 1 \<open>0 \<le> x\<close> show ?thesis by (auto simp: trunc_def)
  next
    case 2
    then have "of_int d \<le> (-1::rat)" by simp
    with assms have "x < 1" "x \<le> 0" "of_int (d - 1) < x" "x \<le> of_int (d + 1)" by (simp_all add: abs_if split: if_splits)
    then have "d - 1 < \<lceil>x\<rceil>" "\<lceil>x\<rceil> \<le> d + 1" by (simp_all only: less_ceiling_iff ceiling_le_iff)
    with 2 \<open>x \<le> 0\<close> show ?thesis by (cases "x = 0") (auto simp: trunc_def)
  qed
qed

text \<open>In the range of the calendar additions do not overflow.\<close>

lemma addTime_delta:
  assumes "\<bar>sint t\<bar> \<le> 2 ^ 62" and "\<bar>delta\<bar> \<le> 2 ^ 52" and "trunc (fl (s * of_int kMicroSecondsPerSecond)) = delta"
  shows "\<exists>t'. addTime t s = Inr t' \<and> sint t' = sint t + delta"
proof -
  have r: "int64_range delta" "int64_range (sint t + delta)" using assms(1,2) by (simp_all add: int64_range_def abs_if split: if_splits)
  then have "sint (word_of_int (sint t + delta) :: Timestamp) = sint t + delta"
    by (intro signed_take_bit_int_eq_self [THEN trans [OF sint_sbintrunc']]) (simp_all add: int64_range_def)
  with r assms(3) show ?thesis by (simp add: addTime_def Let_def)
qed


text \<open>
  Adding seconds to a time is accurate to one and a half microseconds, for delays of up to 142 years: the
  multiplication rounds by half a microsecond at most and the conversion drops less than one. When the
  delay is a whole number of microseconds, nothing is lost.
\<close>

lemma addTime_accurate:
  assumes "\<bar>sint t\<bar> \<le> 2 ^ 62" and "\<bar>s * 1000000\<bar> < 2 ^ 52 - 2"
  shows "\<exists>t'. addTime t s = Inr t' \<and> \<bar>of_int (sint t') - (of_int (sint t) + s * 1000000)\<bar> < 3 / 2 \<and>
    (s * 1000000 = of_int n \<longrightarrow> sint t' = sint t + n)"
proof -
  let ?x = "s * 1000000" and ?d = "trunc (fl (s * 1000000))"
  have "\<bar>fl ?x - ?x\<bar> \<le> 2 powi (53 - 54)" by (rule fl_abs_error) (use assms(2) in \<open>simp_all add: power_int_def\<close>)
  then have err: "\<bar>of_int ?d - ?x\<bar> < 3 / 2"
    using trunc_error [of "fl ?x"] abs_via [of "of_int ?d" ?x "fl ?x"] by (simp add: power_int_minus)
  then have "(of_int \<bar>?d\<bar> :: rat) < of_int (2 ^ 52)" using assms(2) abs_near [of "of_int ?d" ?x] by simp
  then have "\<bar>?d\<bar> \<le> 2 ^ 52" by (simp only: of_int_less_iff)
  from addTime_delta [OF assms(1) this, of s] obtain t' where t': "addTime t s = Inr t'" "sint t' = sint t + ?d"
    by (auto simp: kMicroSecondsPerSecond_def)
  have "\<bar>of_int (sint t') - (of_int (sint t) + ?x)\<bar> < 3 / 2" unfolding t'(2) using err by simp
  moreover have "sint t' = sint t + n" if n: "?x = of_int n"
  proof -
    have "(of_int \<bar>n\<bar> :: rat) < of_int (2 ^ 53)" using assms(2) n by simp
    then have "\<bar>n\<bar> < 2 ^ 53" by (simp only: of_int_less_iff)
    then show ?thesis unfolding t'(2) n by (simp add: fl_int)
  qed
  ultimately show ?thesis using t'(1) by blast
qed


section \<open>Properties\<close>

text \<open>
  The difference of two times, in seconds, does not always lead back: adding it to the earlier time gives the later
  one or misses it by a microsecond, towards the earlier. The difference of 249 microseconds is such a case.
\<close>

theorem difference_roundtrip:
  assumes "\<bar>sint low\<bar> \<le> 2 ^ 62" and "sint high - sint low = d" and "\<bar>d\<bar> \<le> 2 ^ 50"
  shows "\<exists>s t'. timeDifference high low = Inr s \<and> addTime low s = Inr t' \<and>
    (sint t' = sint high \<or> sint t' = sint high - sgn d)"
proof -
  let ?s = "fl (of_int d / 1000000)" and ?y = "fl (fl (of_int d / 1000000) * 1000000)"
  have "timeDifference high low = Inr ?s"
    using assms(2,3) fl_int [of d] by (simp add: timeDifference_def int64_range_def kMicroSecondsPerSecond_def abs_if Let_def split: if_splits)
  moreover have near: "\<bar>?y - of_int d\<bar> < 1"
  proof (cases "d = 0")
    case False
    have d: "(1::rat) \<le> of_int \<bar>d\<bar>" "(of_int \<bar>d\<bar> :: rat) \<le> of_int (2 ^ 50)" using False assms(3) by (simp flip: of_int_abs, simp only: of_int_le_iff)
    have "2 powi (- 1022) \<le> (2 powi (- 20) :: rat)" by (rule power_int_increasing) simp_all
    also have "\<dots> \<le> \<bar>of_int d / 1000000\<bar>" using d(1) by (simp add: power_int_def power_divide)
    finally have "\<bar>?s - of_int d / 1000000\<bar> \<le> \<bar>of_int d / 1000000\<bar> / 2 ^ 53" by (rule fl_error)
    then have x: "\<bar>?s * 1000000 - of_int d\<bar> \<le> of_int \<bar>d\<bar> / 2 ^ 53" by (simp add: abs_if field_simps split: if_splits)
    also have "\<dots> \<le> 1 / 8" using d(2) by simp
    finally have x: "\<bar>?s * 1000000 - of_int d\<bar> \<le> 1 / 8" .
    then have "\<bar>?s * 1000000\<bar> < 2 ^ 51" using d(2) abs_near [of "?s * 1000000" "of_int d"] by simp
    then have "\<bar>?y - ?s * 1000000\<bar> \<le> 2 powi (51 - 54)" by (intro fl_abs_error) (simp_all add: power_int_def)
    with x abs_via [of ?y "of_int d" "?s * 1000000"] show ?thesis by (simp add: power_int_def power_divide)
  qed (simp add: fl_def)
  then have "trunc ?y = d \<or> trunc ?y = d - sgn d" by (rule trunc_near)
  moreover have "\<bar>trunc ?y\<bar> \<le> 2 ^ 52" using calculation(2) assms(3) by (auto simp: sgn_if abs_if split: if_splits)
  ultimately show ?thesis
    using addTime_delta [OF assms(1), of "trunc ?y" ?s] assms(2) by (auto simp: kMicroSecondsPerSecond_def)
qed

theorem difference_roundtrip_witness:
  "\<exists>s t'. timeDifference 1000249 1000000 = Inr s \<and> addTime 1000000 s = Inr t' \<and> (sint t' = 1000249 \<or> sint t' = 1000248)"
  using difference_roundtrip [of 1000000 1000249 249] by simp

text \<open>The case that misses: the product is slightly less than 249.\<close>

lemma difference_loses: "addTime 1000000 (fl (249 / 1000000)) = Inr 1000248"
  by code_simp

end
