(* ===== verification/Connector.thy ===== *)
theory Connector
  imports Sockets Timestamp "HOL-Library.Multiset"
begin

text \<open>
  \<^verbatim>\<open>base/src/Connector.cpp\<close>: the state machine that opens one outgoing connection. Arguments of the
  operations are what the kernel answers: the descriptor of a new socket, the error of \<^verbatim>\<open>connect(2)\<close>, the
  socket error and whether the socket is connected to itself. \<open>opened\<close>, \<open>closed\<close> and \<open>handed\<close> record the
  sockets made, closed and handed to the new-connection callback; \<open>timers\<close> the delays given to
  \<^verbatim>\<open>EventLoop::runAfter\<close> in seconds; \<open>resets\<close> the queued calls of \<^verbatim>\<open>resetChannel\<close>.
\<close>

section \<open>State\<close>

datatype States = kDisconnected | kConnecting | kConnected

definition kMaxRetryDelayMs :: int where
  "kMaxRetryDelayMs = 30*1000"

definition kInitRetryDelayMs :: int where
  "kInitRetryDelayMs = 500"

text \<open>\<open>channel\<close> is the descriptor of the channel object and whether the loop still has it registered.\<close>

record Connector =
  connect_flag :: bool
  cn_state :: States
  channel :: "(int \<times> bool) option"
  retryDelayMs :: int
  opened :: "int list"
  closed :: "int list"
  handed :: "int list"
  timers :: "double list"
  resets :: nat

definition new_Connector :: Connector where
  "new_Connector = \<lparr>connect_flag = False, cn_state = kDisconnected, channel = None, retryDelayMs = kInitRetryDelayMs,
     opened = [], closed = [], handed = [], timers = [], resets = 0\<rparr>"


section \<open>Operations\<close>

definition destroy_Connector :: "Connector \<Rightarrow> Connector res" where
  "destroy_Connector c = cassert (channel c = None) (Inr c)"

definition close_sock :: "int \<Rightarrow> Connector \<Rightarrow> Connector" where
  "close_sock fd c = c\<lparr>closed := closed c @ [fd]\<rparr>"

definition retry :: "int \<Rightarrow> Connector \<Rightarrow> Connector" where
  "retry sockfd c =
     (let c = (close_sock sockfd c)\<lparr>cn_state := kDisconnected\<rparr> in
      if connect_flag c then
        c\<lparr>timers := timers c @ [fl (of_int (retryDelayMs c) / 1000)], retryDelayMs := min (retryDelayMs c * 2) kMaxRetryDelayMs\<rparr>
      else c)"

definition connecting :: "int \<Rightarrow> Connector \<Rightarrow> Connector res" where
  "connecting sockfd c =
     (let c = c\<lparr>cn_state := kConnecting\<rparr> in
      cassert (channel c = None) (Inr (c\<lparr>channel := Some (sockfd, True)\<rparr>)))"

definition connect :: "int \<Rightarrow> errno \<Rightarrow> Connector \<Rightarrow> Connector res" where
  "connect sockfd savedErrno c =
     (let c = c\<lparr>opened := opened c @ [sockfd]\<rparr> in
      if savedErrno \<in> {E_OK, EINPROGRESS, EINTR, EISCONN} then connecting sockfd c
      else if savedErrno \<in> {EAGAIN, EADDRINUSE, EADDRNOTAVAIL, ECONNREFUSED, ENETUNREACH} then Inr (retry sockfd c)
      else Inr (close_sock sockfd c))"

definition startInLoop :: "int \<Rightarrow> errno \<Rightarrow> Connector \<Rightarrow> Connector res" where
  "startInLoop sockfd en c =
     cassert (cn_state c = kDisconnected) (if connect_flag c then connect sockfd en c else Inr c)"

definition start :: "int \<Rightarrow> errno \<Rightarrow> Connector \<Rightarrow> Connector res" where
  "start sockfd en c = startInLoop sockfd en (c\<lparr>connect_flag := True\<rparr>)"

text \<open>The assertions of \<^verbatim>\<open>Channel::remove\<close> and \<^verbatim>\<open>PollPoller::removeChannel\<close> fail on a channel that is gone.\<close>

definition removeAndResetChannel :: "Connector \<Rightarrow> (int \<times> Connector) res" where
  "removeAndResetChannel c =
     (case channel c of
        None \<Rightarrow> Inl UndefinedBehaviour
      | Some (fd, registered) \<Rightarrow>
          cassert registered (Inr (fd, c\<lparr>channel := Some (fd, False), resets := Suc (resets c)\<rparr>)))"

definition resetChannel :: "Connector \<Rightarrow> Connector" where
  "resetChannel c = c\<lparr>channel := None\<rparr>"

definition stopInLoop :: "Connector \<Rightarrow> Connector res" where
  "stopInLoop c =
     (if cn_state c = kConnecting then
        res_bind (removeAndResetChannel (c\<lparr>cn_state := kDisconnected\<rparr>)) (\<lambda>(sockfd, c). Inr (retry sockfd c))
      else Inr c)"

definition stop :: "Connector \<Rightarrow> Connector res" where
  "stop c = stopInLoop (c\<lparr>connect_flag := False\<rparr>)"

definition restart :: "int \<Rightarrow> errno \<Rightarrow> Connector \<Rightarrow> Connector res" where
  "restart sockfd en c =
     startInLoop sockfd en (c\<lparr>cn_state := kDisconnected, retryDelayMs := kInitRetryDelayMs, connect_flag := True\<rparr>)"

definition handleWrite :: "int \<Rightarrow> bool \<Rightarrow> Connector \<Rightarrow> Connector res" where
  "handleWrite err selfConnect c =
     (if cn_state c = kConnecting then
        res_bind (removeAndResetChannel c) (\<lambda>(sockfd, c).
        if err \<noteq> 0 then Inr (retry sockfd c)
        else if selfConnect then Inr (retry sockfd c)
        else
          let c = c\<lparr>cn_state := kConnected\<rparr> in
          if connect_flag c then Inr (c\<lparr>handed := handed c @ [sockfd]\<rparr>) else Inr (close_sock sockfd c))
      else cassert (cn_state c = kDisconnected) (Inr c))"

definition handleError :: "Connector \<Rightarrow> Connector res" where
  "handleError c =
     cassert (cn_state c = kConnecting)
       (res_bind (removeAndResetChannel c) (\<lambda>(sockfd, c). Inr (retry sockfd c)))"


section \<open>Runs\<close>

text \<open>
  What can happen to a connector: its owner starts or stops it, the loop reports its channel writable or in
  error while the channel is registered, or runs a queued \<^verbatim>\<open>resetChannel\<close>. A start while a channel object is
  still there is left to \<open>restart_too_early_aborts\<close>.
\<close>

inductive cstep :: "Connector \<Rightarrow> Connector \<Rightarrow> bool" where
  start: "cn_state c = kDisconnected \<Longrightarrow> channel c = None \<Longrightarrow> start fd en c = Inr c' \<Longrightarrow> cstep c c'"
| restart: "cn_state c \<noteq> kConnecting \<Longrightarrow> channel c = None \<Longrightarrow> restart fd en c = Inr c' \<Longrightarrow> cstep c c'"
| stop: "stop c = Inr c' \<Longrightarrow> cstep c c'"
| writable: "channel c = Some (fd, True) \<Longrightarrow> handleWrite err self c = Inr c' \<Longrightarrow> cstep c c'"
| error: "channel c = Some (fd, True) \<Longrightarrow> handleError c = Inr c' \<Longrightarrow> cstep c c'"
| reset: "resets c = Suc n \<Longrightarrow> cstep c (resetChannel (c\<lparr>resets := n\<rparr>))"

inductive creach :: "Connector \<Rightarrow> bool" where
  init: "creach new_Connector"
| step: "creach c \<Longrightarrow> cstep c c' \<Longrightarrow> creach c'"

text \<open>Sockets that are open and still the connector's own.\<close>

definition current :: "Connector \<Rightarrow> int multiset" where
  "current c = (case channel c of Some (fd, True) \<Rightarrow> {#fd#} | _ \<Rightarrow> {#})"

text \<open>The delays in milliseconds; each of them is a number of seconds that a \<^verbatim>\<open>double\<close> represents exactly.\<close>

definition retry_steps :: "int set" where
  "retry_steps = {500, 1000, 2000, 4000, 8000, 16000, 30000}"

lemma retry_steps_simps:
  shows "kInitRetryDelayMs \<in> retry_steps" and "m \<in> retry_steps \<Longrightarrow> min (m * 2) kMaxRetryDelayMs \<in> retry_steps"
  and "m \<in> retry_steps \<Longrightarrow> fl (of_int m / 1000) = of_int m / 1000"
proof -
  have "fl (of_int 500 / 1000) = of_int 500 / 1000" by code_simp
  then show "m \<in> retry_steps \<Longrightarrow> fl (of_int m / 1000) = of_int m / 1000"
    using fl_int [of 1] fl_int [of 2] fl_int [of 4] fl_int [of 8] fl_int [of 16] fl_int [of 30] by (auto simp: retry_steps_def)
qed (auto simp: retry_steps_def kInitRetryDelayMs_def kMaxRetryDelayMs_def)

definition connector_inv :: "Connector \<Rightarrow> bool" where
  [inv_simps]: "connector_inv c \<longleftrightarrow>
     (cn_state c = kConnecting \<longleftrightarrow> (\<exists>fd. channel c = Some (fd, True))) \<and>
     ((\<exists>fd. channel c = Some (fd, False)) \<longleftrightarrow> resets c = 1) \<and> resets c \<le> 1 \<and>
     mset (opened c) = mset (closed c) + mset (handed c) + current c \<and>
     retryDelayMs c \<in> retry_steps \<and> (\<forall>d \<in> set (timers c). \<exists>m \<in> retry_steps. d = of_int m / 1000)"

lemma delay_step:
  assumes "connector_inv c"
  shows "min (retryDelayMs c * 2) kMaxRetryDelayMs \<in> retry_steps" "\<exists>m \<in> retry_steps. fl (of_int (retryDelayMs c) / 1000) = of_int m / 1000"
proof -
  have "retryDelayMs c \<in> retry_steps" using assms by (simp add: connector_inv_def)
  then show "min (retryDelayMs c * 2) kMaxRetryDelayMs \<in> retry_steps" "\<exists>m \<in> retry_steps. fl (of_int (retryDelayMs c) / 1000) = of_int m / 1000"
    using retry_steps_simps(2,3) by blast+
qed

lemmas connector_defs = connecting_def connect_def startInLoop_def start_def restart_def removeAndResetChannel_def
  resetChannel_def stopInLoop_def stop_def handleWrite_def handleError_def close_sock_def retry_def Let_def

lemma inv_new: "connector_inv new_Connector"
  by (simp add: connector_inv_def new_Connector_def current_def retry_steps_simps)

text \<open>Closing the current socket and going back to \<open>kDisconnected\<close>.\<close>

lemma retry_inv:
  assumes "connector_inv c" and "channel c = Some (fd, True)"
  shows "connector_inv (retry fd (c\<lparr>channel := Some (fd, False), resets := Suc (resets c)\<rparr>))"
  using assms delay_step [OF assms(1)]
  by (auto simp: connector_inv_def retry_def close_sock_def current_def Let_def)

lemma connect_inv:
  assumes "connector_inv c" and "channel c = None" and "cn_state c = kDisconnected" and "connect fd en c = Inr c'"
  shows "connector_inv c'"
proof -
  consider "en \<in> {E_OK, EINPROGRESS, EINTR, EISCONN}"
    | "en \<notin> {E_OK, EINPROGRESS, EINTR, EISCONN}" "en \<in> {EAGAIN, EADDRINUSE, EADDRNOTAVAIL, ECONNREFUSED, ENETUNREACH}"
    | "en \<notin> {E_OK, EINPROGRESS, EINTR, EISCONN}" "en \<notin> {EAGAIN, EADDRINUSE, EADDRNOTAVAIL, ECONNREFUSED, ENETUNREACH}"
    by blast
  then show ?thesis
  proof cases
    case 1
    then have "c' = c\<lparr>opened := opened c @ [fd], cn_state := kConnecting, channel := Some (fd, True)\<rparr>"
      using assms by (simp only: connect_def connecting_def Let_def if_True) simp
    with assms show ?thesis by (simp add: connector_inv_def current_def)
  next
    case 2
    then have "c' = retry fd (c\<lparr>opened := opened c @ [fd]\<rparr>)"
      using assms(4) by (simp only: connect_def Let_def if_True if_False) simp
    with assms delay_step [OF assms(1)] show ?thesis
      by (auto simp: connector_inv_def retry_def close_sock_def current_def Let_def)
  next
    case 3
    then have "c' = close_sock fd (c\<lparr>opened := opened c @ [fd]\<rparr>)"
      using assms(4) by (simp only: connect_def Let_def if_False) simp
    with assms show ?thesis by (auto simp: connector_inv_def close_sock_def current_def)
  qed
qed

lemma inv_flag: "connector_inv c \<Longrightarrow> connector_inv (c\<lparr>connect_flag := b\<rparr>)"
  by (simp add: connector_inv_def current_def)

lemma cstep_inv: "cstep c c' \<Longrightarrow> connector_inv c \<Longrightarrow> connector_inv c'"
proof (induction rule: cstep.induct)
  case (start c fd en c')
  then show ?case
    using connect_inv [OF inv_flag [OF start(4), of True], of fd en c'] by (simp add: start_def startInLoop_def)
next
  case (restart c fd en c')
  let ?c = "c\<lparr>cn_state := kDisconnected, retryDelayMs := kInitRetryDelayMs, connect_flag := True\<rparr>"
  have "connector_inv ?c"
    using restart(1,2,4) by (simp add: connector_inv_def current_def retry_steps_simps)
  with restart(2,3) show ?case
    using connect_inv [of ?c fd en c'] by (simp add: restart_def startInLoop_def)
next
  case (stop c c')
  show ?case
  proof (cases "cn_state c = kConnecting")
    case True
    then obtain fd where fd: "channel c = Some (fd, True)" using stop(2) by (auto simp: connector_inv_def)
    with True stop(1) have "c' = retry fd ((c\<lparr>connect_flag := False\<rparr>)\<lparr>channel := Some (fd, False), resets := Suc (resets c)\<rparr>)"
      by (auto simp: stop_def stopInLoop_def removeAndResetChannel_def retry_def close_sock_def Let_def)
    with retry_inv [OF inv_flag [OF stop(2), of False]] fd show ?thesis by simp
  next
    case False
    with stop show ?thesis by (auto simp: stop_def stopInLoop_def inv_flag)
  qed
next
  case (writable c fd err self c')
  have st: "cn_state c = kConnecting" using writable(1,3) by (auto simp: connector_inv_def)
  let ?c = "c\<lparr>channel := Some (fd, False), resets := Suc (resets c)\<rparr>"
  show ?case
  proof (cases "err \<noteq> 0 \<or> self")
    case True
    then have "c' = retry fd ?c" using writable(1,2) st by (auto simp: handleWrite_def removeAndResetChannel_def split: if_splits)
    with retry_inv [OF writable(3,1)] show ?thesis by simp
  next
    case False
    then show ?thesis
      using writable st
      by (auto simp: handleWrite_def removeAndResetChannel_def connector_inv_def close_sock_def current_def Let_def split: if_splits)
  qed
next
  case (error c fd c')
  then have "c' = retry fd (c\<lparr>channel := Some (fd, False), resets := Suc (resets c)\<rparr>)"
    by (simp add: handleError_def removeAndResetChannel_def)
  with retry_inv [OF error(3,1)] show ?case by simp
next
  case (reset c n)
  then show ?case by (auto simp: connector_inv_def resetChannel_def current_def)
qed

lemma creach_inv: "creach c \<Longrightarrow> connector_inv c"
  by (induction rule: creach.induct) (auto intro: inv_new cstep_inv)

text \<open>Every step that can be taken goes through without a failed assertion.\<close>

lemma steps_succeed:
  assumes "connector_inv c"
  shows "\<exists>c'. stop c = Inr c'"
    and "channel c = Some (fd, True) \<Longrightarrow> \<exists>c'. handleWrite err self c = Inr c'"
    and "channel c = Some (fd, True) \<Longrightarrow> \<exists>c'. handleError c = Inr c'"
    and "channel c = None \<Longrightarrow> cn_state c = kDisconnected \<Longrightarrow> \<exists>c'. start s en c = Inr c'"
  using assms by (auto simp: connector_inv_def connector_defs)


text \<open>Refused attempts one after another, as a timer would make them.\<close>

fun refused :: "int list \<Rightarrow> Connector \<Rightarrow> Connector res" where
  "refused [] c = Inr c"
| "refused (fd # fds) c = res_bind (startInLoop fd ECONNREFUSED c) (refused fds)"

definition backoff :: "nat \<Rightarrow> int" where
  "backoff k = min (500 * 2 ^ k) 30000"

lemma backoff_step: "backoff k \<in> retry_steps"
proof (cases "k < 6")
  case True
  then have "k \<in> {0, 1, 2, 3, 4, 5}" by auto
  then show ?thesis by (auto simp: backoff_def retry_steps_def)
next
  case False
  then have "(2::int) ^ 6 \<le> 2 ^ k" by (intro power_increasing) simp_all
  then show ?thesis by (simp add: backoff_def retry_steps_def)
qed

lemma backoff_Suc: "min (backoff k * 2) 30000 = backoff (Suc k)"
  by (auto simp: backoff_def min_def)

lemma refused_spec:
  assumes "connect_flag c" and "cn_state c = kDisconnected" and "retryDelayMs c = backoff k"
  shows "\<exists>c'. refused fds c = Inr c' \<and> timers c' = timers c @ map (\<lambda>i. of_int (backoff (k + i)) / 1000) [0..<length fds] \<and>
           cn_state c' = kDisconnected \<and> closed c' = closed c @ fds"
  using assms
proof (induction fds arbitrary: c k)
  case (Cons fd fds)
  let ?c = "retry fd (c\<lparr>opened := opened c @ [fd]\<rparr>)"
  have step: "startInLoop fd ECONNREFUSED c = Inr ?c"
    using Cons.prems by (simp add: startInLoop_def connect_def Let_def)
  have "connect_flag ?c" "cn_state ?c = kDisconnected" "retryDelayMs ?c = backoff (Suc k)"
    using Cons.prems by (simp_all add: retry_def close_sock_def Let_def backoff_Suc kMaxRetryDelayMs_def)
  from Cons.IH [OF this] Cons.prems obtain c' where c': "refused fds ?c = Inr c'"
      "timers c' = timers ?c @ map (\<lambda>i. of_int (backoff (Suc k + i)) / 1000) [0..<length fds]" "cn_state c' = kDisconnected"
      "closed c' = closed ?c @ fds" by blast
  have "timers ?c = timers c @ [of_int (backoff k) / 1000]" "closed ?c = closed c @ [fd]"
    using Cons.prems retry_steps_simps(3) [OF backoff_step] by (simp_all add: retry_def close_sock_def Let_def)
  moreover have "map (\<lambda>i. of_int (backoff (k + i)) / (1000 :: double)) [0..<length (fd # fds)] =
      of_int (backoff k) / 1000 # map (\<lambda>i. of_int (backoff (Suc k + i)) / 1000) [0..<length fds]"
    by (simp add: upt_conv_Cons map_Suc_upt [symmetric] comp_def del: upt_Suc)
  ultimately show ?case using step c' by simp
qed simp


section \<open>Properties\<close>

text \<open>
  C25. No socket leaks and none is closed or handed over twice: in every reachable state the sockets opened
  so far are those closed, those handed to the new-connection callback and, exactly in state
  \<open>kConnecting\<close>, the one whose channel is registered; and every event the loop can deliver then is handled
  without a failed assertion.
\<close>

theorem connector_owns_sockets:
  assumes "creach c"
  shows "mset (opened c) = mset (closed c) + mset (handed c) + current c \<and>
         (cn_state c = kConnecting \<longleftrightarrow> current c \<noteq> {#}) \<and> (\<exists>c'. stop c = Inr c') \<and>
         (cn_state c = kConnecting \<longrightarrow> (\<exists>c'. handleWrite err self c = Inr c') \<and> (\<exists>c'. handleError c = Inr c'))"
proof -
  have inv: "connector_inv c" using creach_inv [OF assms] .
  then have "cn_state c = kConnecting \<longleftrightarrow> current c \<noteq> {#}"
    by (auto simp: connector_inv_def current_def split: option.splits bool.splits)
  moreover have "mset (opened c) = mset (closed c) + mset (handed c) + current c" using inv by (simp add: connector_inv_def)
  moreover have "\<exists>fd. channel c = Some (fd, True)" if "cn_state c = kConnecting" using inv that by (simp add: connector_inv_def)
  ultimately show ?thesis using steps_succeed [OF inv] by metis
qed

theorem connector_owns_sockets_witness:
  "\<exists>c. start 5 EINPROGRESS new_Connector = Inr c \<and> mset (opened c) = current c + mset (closed c) \<and> (\<exists>c'. stop c = Inr c')"
proof -
  obtain c where c: "start 5 EINPROGRESS new_Connector = Inr c" "handed c = []"
    by (simp add: connector_defs new_Connector_def)
  have "creach c"
    using creach.step [OF creach.init cstep.start [OF _ _ c(1)]] by (simp add: new_Connector_def)
  from connector_owns_sockets [OF this] c show ?thesis by auto
qed

text \<open>
  The delays of consecutive refused attempts double from half a second up to the limit of 30 s, and stay there; each
  attempt closes its socket. The conversions from milliseconds to seconds and on to a time in microseconds lose
  nothing.
\<close>

theorem retry_backs_off:
  assumes "connect_flag c" and "cn_state c = kDisconnected" and "retryDelayMs c = kInitRetryDelayMs"
  shows "\<exists>c'. refused fds c = Inr c' \<and> closed c' = closed c @ fds \<and>
           timers c' = timers c @ map (\<lambda>i. of_int (min (500 * 2 ^ i) 30000) / 1000) [0..<length fds]"
    and "\<bar>sint t\<bar> \<le> 2 ^ 62 \<Longrightarrow> \<exists>t'. addTime t (of_int (min (500 * 2 ^ i) 30000) / 1000) = Inr t' \<and>
           sint t' = sint t + min (500 * 2 ^ i) 30000 * 1000"
proof -
  show "\<exists>c'. refused fds c = Inr c' \<and> closed c' = closed c @ fds \<and>
           timers c' = timers c @ map (\<lambda>i. of_int (min (500 * 2 ^ i) 30000) / 1000) [0..<length fds]"
    using refused_spec [OF assms(1,2), of 0 fds] assms(3) by (auto simp: backoff_def kInitRetryDelayMs_def)
  let ?m = "min (500 * 2 ^ i) 30000 :: int"
  assume t: "\<bar>sint t\<bar> \<le> 2 ^ 62"
  have "0 \<le> ?m" "?m \<le> 30000" by (simp_all add: min_def)
  then have "0 \<le> (of_int ?m :: rat)" "(of_int ?m :: rat) \<le> 30000" by (simp_all only: of_int_0_le_iff of_int_le_numeral_iff)
  then have "\<bar>of_int ?m / 1000 * 1000000\<bar> < (2 ^ 52 - 2 :: rat)" "of_int ?m / 1000 * 1000000 = (of_int (?m * 1000) :: rat)" by simp_all
  with addTime_accurate [OF t this(1), of "?m * 1000"] show
    "\<exists>t'. addTime t (of_int ?m / 1000) = Inr t' \<and> sint t' = sint t + ?m * 1000" by blast
qed

theorem retry_backs_off_witness:
  "\<exists>c'. refused [3, 3, 3, 3, 3, 3, 3, 3] (new_Connector\<lparr>connect_flag := True\<rparr>) = Inr c' \<and>
        timers c' = [1 / 2, 1, 2, 4, 8, 16, 30, 30]"
  using retry_backs_off(1) [of "new_Connector\<lparr>connect_flag := True\<rparr>" "[3, 3, 3, 3, 3, 3, 3, 3]"]
  by (auto simp: new_Connector_def upt_rec)

text \<open>
  Starting a connector again in the same round of the loop in which it was stopped while connecting
  aborts the program: \<open>channel_\<close> is reset only by a queued functor, and \<open>connecting\<close> asserts that it is gone.
\<close>

theorem restart_too_early_aborts:
  assumes "connector_inv c" and "cn_state c = kConnecting" and "en \<in> {E_OK, EINPROGRESS, EINTR, EISCONN}"
  shows "res_bind (stop c) (start fd en) = Inl AssertFail"
proof -
  obtain fd' where "channel c = Some (fd', True)" using assms(1,2) by (auto simp: connector_inv_def)
  then have "stop c = Inr (c\<lparr>connect_flag := False, cn_state := kDisconnected, channel := Some (fd', False),
      resets := Suc (resets c), closed := closed c @ [fd']\<rparr>)"
    using assms(2) by (simp add: stop_def stopInLoop_def removeAndResetChannel_def retry_def close_sock_def Let_def)
  with assms(3) show ?thesis
    by (auto simp: start_def startInLoop_def connect_def connecting_def Let_def)
qed

theorem restart_too_early_aborts_witness:
  "res_bind (start 5 EINPROGRESS new_Connector) (\<lambda>c. res_bind (stop c) (start 6 EINPROGRESS)) = Inl AssertFail"
proof -
  obtain c where c: "start 5 EINPROGRESS new_Connector = Inr c" "cn_state c = kConnecting"
    by (simp add: connector_defs new_Connector_def)
  have "connector_inv c"
    using cstep_inv [OF cstep.start [OF _ _ c(1)] inv_new] by (simp add: new_Connector_def)
  from restart_too_early_aborts [OF this c(2), of EINPROGRESS 6] c(1) show ?thesis by simp
qed

end
