(* ===== verification/TcpClient.thy ===== *)
theory TcpClient
  imports Connector TcpConnection
begin

text \<open>
  \<^verbatim>\<open>base/src/TcpClient.cpp\<close>: one outgoing connection on top of a \<^verbatim>\<open>Connector\<close>, in one loop. The connection
  objects are kept in \<open>cconns\<close>, each with the close callback it has: \<open>True\<close> is \<^verbatim>\<open>TcpClient::removeConnection\<close>, \<open>False\<close>
  the free function \<^verbatim>\<open>detail::removeConnection\<close> that the destructor puts in its place. \<open>cqueue\<close> are the queued calls
  of \<^verbatim>\<open>connectDestroyed\<close>; the queued \<^verbatim>\<open>resetChannel\<close> is counted in the connector. \<open>client\<close> is \<open>None\<close> once the client
  has been deleted.
\<close>

section \<open>State\<close>

record TcpClient =
  connector :: Connector
  tcl_name :: string
  tcl_retry :: bool
  tcl_connect :: bool
  tcl_nextConnId :: int
  tcl_connection :: "nat option"

record client_net =
  client :: "TcpClient option"
  cconns :: "(TcpConnection \<times> bool) list"
  cqueue :: "nat list"

definition new_TcpClient :: "string \<Rightarrow> TcpClient" where
  "new_TcpClient nm = \<lparr>connector = new_Connector, tcl_name = nm, tcl_retry = False, tcl_connect = True,
     tcl_nextConnId = 1, tcl_connection = None\<rparr>"

definition enableRetry :: "TcpClient \<Rightarrow> TcpClient" where
  "enableRetry c = c\<lparr>tcl_retry := True\<rparr>"

definition client_world :: "TcpClient \<Rightarrow> client_net" where
  "client_world c = \<lparr>client = Some c, cconns = [], cqueue = []\<rparr>"


section \<open>Operations\<close>

text \<open>A use of the client after it was deleted is undefined.\<close>

definition with_client :: "(TcpClient \<Rightarrow> client_net \<Rightarrow> client_net res) \<Rightarrow> client_net \<Rightarrow> client_net res" where
  "with_client f w = (case client w of Some c \<Rightarrow> f c w | None \<Rightarrow> Inl UndefinedBehaviour)"

definition put_client :: "TcpClient \<Rightarrow> client_net \<Rightarrow> client_net" where
  "put_client c w = w\<lparr>client := Some c\<rparr>"

definition put_cconn :: "nat \<Rightarrow> TcpConnection \<Rightarrow> client_net \<Rightarrow> client_net" where
  "put_cconn i c w = w\<lparr>cconns := (cconns w)[i := (c, snd (cconns w ! i))]\<rparr>"

text \<open>The answers of the kernel to \<^verbatim>\<open>socket\<close> and \<^verbatim>\<open>connect\<close> are \<open>sockfd\<close> and \<open>en\<close>.\<close>

definition client_connect :: "int \<Rightarrow> errno \<Rightarrow> client_net \<Rightarrow> client_net res" where
  "client_connect sockfd en =
     with_client (\<lambda>c w.
       let c = c\<lparr>tcl_connect := True\<rparr> in
       res_bind (start sockfd en (connector c)) (\<lambda>k. Inr (put_client (c\<lparr>connector := k\<rparr>) w)))"

definition client_disconnect :: "client_net \<Rightarrow> client_net res" where
  "client_disconnect =
     with_client (\<lambda>c w.
       let w = put_client (c\<lparr>tcl_connect := False\<rparr>) w in
       Inr (case tcl_connection c of Some i \<Rightarrow> put_cconn i (shutdown True (fst (cconns w ! i))) w | None \<Rightarrow> w))"

definition client_stop :: "client_net \<Rightarrow> client_net res" where
  "client_stop =
     with_client (\<lambda>c w.
       let c = c\<lparr>tcl_connect := False\<rparr> in
       res_bind (stop (connector c)) (\<lambda>k. Inr (put_client (c\<lparr>connector := k\<rparr>) w)))"

text \<open>
  The connection callback \<open>cb\<close> of the user acts on everything, since it may delete the client. \<open>peer\<close> is the
  printed peer address.
\<close>

definition client_newConnection ::
  "(nat \<Rightarrow> client_net \<Rightarrow> client_net res) \<Rightarrow> string \<Rightarrow> (nat \<Rightarrow> nat \<Rightarrow> nat option) \<Rightarrow> int \<Rightarrow> client_net \<Rightarrow> client_net res"
where
  "client_newConnection cb peer kw sockfd =
     with_client (\<lambda>c w.
       if tcl_nextConnId c \<ge> 2 ^ 31 - 1 then Inl UndefinedBehaviour
       else
         let connName = tcl_name c @ snprintf 32 ('':'' @ peer @ ''#'' @ show_int (tcl_nextConnId c));
             i = length (cconns w);
             c = c\<lparr>tcl_nextConnId := tcl_nextConnId c + 1, tcl_connection := Some i\<rparr>;
             w = (put_client c w)\<lparr>cconns := cconns w @ [(new_TcpConnection connName sockfd kw, True)]\<rparr>
         in res_bind (connectEstablished (\<lambda>(w, k). Inr (put_cconn i k w, k)) (w, fst (cconns w ! i))) (\<lambda>(w, _).
            cb i w))"

text \<open>A writable or failed event of the connector's channel.\<close>

definition client_writable ::
  "(nat \<Rightarrow> client_net \<Rightarrow> client_net res) \<Rightarrow> string \<Rightarrow> (nat \<Rightarrow> nat \<Rightarrow> nat option) \<Rightarrow> int \<Rightarrow> bool \<Rightarrow> client_net \<Rightarrow> client_net res"
where
  "client_writable cb peer kw err self =
     with_client (\<lambda>c w.
       res_bind (Connector.handleWrite err self (connector c)) (\<lambda>k.
       let w = put_client (c\<lparr>connector := k\<rparr>) w in
       if length (handed k) > length (handed (connector c)) then client_newConnection cb peer kw (last (handed k)) w
       else Inr w))"

definition client_failed :: "client_net \<Rightarrow> client_net res" where
  "client_failed =
     with_client (\<lambda>c w. res_bind (handleError (connector c)) (\<lambda>k. Inr (put_client (c\<lparr>connector := k\<rparr>) w)))"

definition client_reset :: "client_net \<Rightarrow> client_net res" where
  "client_reset =
     with_client (\<lambda>c w.
       let k = connector c in Inr (put_client (c\<lparr>connector := resetChannel (k\<lparr>resets := resets k - 1\<rparr>)\<rparr>) w))"

definition detail_removeConnection :: "nat \<Rightarrow> client_net \<Rightarrow> client_net" where
  "detail_removeConnection i w = w\<lparr>cqueue := cqueue w @ [i]\<rparr>"

definition client_removeConnection :: "int \<Rightarrow> errno \<Rightarrow> nat \<Rightarrow> client_net \<Rightarrow> client_net res" where
  "client_removeConnection sockfd en i =
     with_client (\<lambda>c w.
       cassert (tcl_connection c = Some i)
         (let c = c\<lparr>tcl_connection := None\<rparr>;
              w = (put_client c w)\<lparr>cqueue := cqueue w @ [i]\<rparr>
          in if tcl_retry c \<and> tcl_connect c
             then res_bind (restart sockfd en (connector c)) (\<lambda>k. Inr (put_client (c\<lparr>connector := k\<rparr>) w))
             else Inr w))"

text \<open>The peer closes connection \<open>i\<close>: \<open>handleClose\<close> runs the user's callback and then the close callback of that moment.\<close>

definition client_close ::
  "(nat \<Rightarrow> client_net \<Rightarrow> client_net res) \<Rightarrow> int \<Rightarrow> errno \<Rightarrow> nat \<Rightarrow> client_net \<Rightarrow> client_net res"
where
  "client_close cb sockfd en i w =
     res_bind
       (handleClose
          (\<lambda>(w, k). res_bind (cb i (put_cconn i k w)) (\<lambda>w. Inr (w, fst (cconns w ! i))))
          (\<lambda>(w, k).
             res_bind (if snd (cconns w ! i) then client_removeConnection sockfd en i w else Inr (detail_removeConnection i w)) (\<lambda>w.
             Inr (w, k)))
          (w, fst (cconns w ! i)))
       (\<lambda>(w, _). Inr w)"

text \<open>The next queued \<open>connectDestroyed\<close>; the connection is disconnected by then, so no callback runs.\<close>

definition client_destroyed :: "client_net \<Rightarrow> client_net res" where
  "client_destroyed w =
     (case cqueue w of
        [] \<Rightarrow> Inr w
      | i # q \<Rightarrow>
          res_bind (connectDestroyed Inr (w\<lparr>cqueue := q\<rparr>, fst (cconns w ! i))) (\<lambda>(w, k).
          Inr (put_cconn i k w)))"

text \<open>
  The destructor. With a connection its close callback is replaced and the connector goes with the client;
  without one the connector is stopped and kept alive by a timer.
\<close>

definition destroy_TcpClient :: "client_net \<Rightarrow> client_net res" where
  "destroy_TcpClient =
     with_client (\<lambda>c w.
       case tcl_connection c of
         Some i \<Rightarrow>
           res_bind (destroy_Connector (connector c)) (\<lambda>_.
           Inr (w\<lparr>client := None, cconns := (cconns w)[i := (fst (cconns w ! i), False)]\<rparr>))
       | None \<Rightarrow> res_bind (stop (connector c)) (\<lambda>_. Inr (w\<lparr>client := None\<rparr>)))"


section \<open>Invariant\<close>

definition up :: "TcpConnection \<Rightarrow> bool" where
  "up k \<longleftrightarrow> conn_state k \<in> {StateE.kConnected, StateE.kDisconnecting}"

text \<open>At most the client's connection is up; the queue holds the others that are not yet unregistered.\<close>

definition conns_ok :: "(TcpConnection \<times> bool) list \<Rightarrow> nat list \<Rightarrow> nat option \<Rightarrow> bool" where
  [inv_simps]: "conns_ok cs q x \<longleftrightarrow>
     (\<forall>i < length cs. conn_wf (fst (cs ! i)) \<and> snd (cs ! i) \<and> (up (fst (cs ! i)) \<longleftrightarrow> x = Some i) \<and>
        (\<not> up (fst (cs ! i)) \<longrightarrow> conn_state (fst (cs ! i)) = StateE.kDisconnected) \<and>
        (i \<in> set q \<longleftrightarrow> \<not> up (fst (cs ! i)) \<and> watched (fst (cs ! i)) \<noteq> None)) \<and>
     set q \<subseteq> {..<length cs} \<and> distinct q \<and> (\<forall>i. x = Some i \<longrightarrow> i < length cs)"

definition client_inv :: "TcpClient \<Rightarrow> client_net \<Rightarrow> bool" where
  [inv_simps]: "client_inv c w \<longleftrightarrow>
     client w = Some c \<and> connector_inv (connector c) \<and> conns_ok (cconns w) (cqueue w) (tcl_connection c) \<and>
     tcl_nextConnId c = int (length (cconns w)) + 1 \<and> tcl_nextConnId c < 2 ^ 31 \<and>
     (tcl_connection c \<noteq> None \<longrightarrow> cn_state (connector c) = States.kConnected)"

lemma conns_okD:
  assumes "conns_ok cs q x" and "i < length cs"
  shows "conn_wf (fst (cs ! i))" and "snd (cs ! i)" and "up (fst (cs ! i)) \<longleftrightarrow> x = Some i"
    and "\<not> up (fst (cs ! i)) \<Longrightarrow> conn_state (fst (cs ! i)) = StateE.kDisconnected"
    and "i \<in> set q \<longleftrightarrow> \<not> up (fst (cs ! i)) \<and> watched (fst (cs ! i)) \<noteq> None"
  using assms unfolding conns_ok_def by blast+

lemma conns_append:
  assumes "conns_ok cs q None" and "conn_wf k" and "up k"
  shows "conns_ok (cs @ [(k, True)]) q (Some (length cs))"
  using assms by (auto simp: conns_ok_def nth_append less_Suc_eq)

lemma conns_up:
  assumes "conns_ok cs q (Some i)" and "conn_wf k" and "up k"
  shows "conns_ok (cs[i := (k, True)]) q (Some i)"
proof -
  have i: "i < length cs" using assms(1) by (auto simp: conns_ok_def)
  have "i \<notin> set q" using conns_okD(3,5) [OF assms(1) i] by blast
  with assms i show ?thesis by (auto simp: conns_ok_def nth_list_update)
qed

lemma conns_close:
  assumes "conns_ok cs q (Some i)" and "conn_wf k" and "conn_state k = StateE.kDisconnected" and "watched k \<noteq> None"
  shows "conns_ok (cs[i := (k, True)]) (q @ [i]) None"
proof -
  have i: "i < length cs" using assms(1) by (auto simp: conns_ok_def)
  have "i \<notin> set q" using conns_okD(3,5) [OF assms(1) i] by blast
  moreover have "\<not> up k" using assms(3) by (simp add: up_def)
  ultimately show ?thesis using assms i by (auto simp: conns_ok_def nth_list_update)
qed

lemma conns_destroy:
  assumes "conns_ok cs (i # q) x" and "conn_wf k" and "conn_state k = StateE.kDisconnected" and "watched k = None"
  shows "conns_ok (cs[i := (k, True)]) q x"
proof -
  have i: "i < length cs" using assms(1) by (auto simp: conns_ok_def)
  have "\<not> up k" using assms(3) by (simp add: up_def)
  moreover have "x \<noteq> Some i" using conns_okD(3,5) [OF assms(1) i] by simp
  ultimately show ?thesis using assms i by (auto simp: conns_ok_def nth_list_update)
qed

lemma client_world_inv: "client_inv (new_TcpClient nm) (client_world (new_TcpClient nm))"
  by (simp add: client_inv_def client_world_def new_TcpClient_def inv_new conns_ok_def)

lemma client_world_retry_inv: "client_inv (enableRetry (new_TcpClient nm)) (client_world (enableRetry (new_TcpClient nm)))"
  by (simp add: client_inv_def client_world_def new_TcpClient_def enableRetry_def inv_new conns_ok_def)

text \<open>What a step leaves: a client and a world that satisfy the invariant again.\<close>

definition keeps :: "client_net res \<Rightarrow> bool" where
  "keeps r \<longleftrightarrow> (\<exists>w c. r = Inr w \<and> client_inv c w)"


section \<open>Steps\<close>

lemma cl_connect_ok:
  assumes inv: "client_inv c w" and st: "cn_state (connector c) = States.kDisconnected" "channel (connector c) = None"
  shows "keeps (client_connect fd en w)"
proof -
  have k: "connector_inv (connector c)" and x: "tcl_connection c = None" using inv st by (auto simp: client_inv_def)
  obtain k' where k': "start fd en (connector c) = Inr k'" using steps_succeed(4) [OF k st(2,1)] by blast
  have "connector_inv k'" using cstep_inv [OF cstep.start [OF st k'] k] .
  with x k' inv show ?thesis
    by (auto simp: keeps_def client_connect_def with_client_def put_client_def client_inv_def Let_def)
qed

lemma stop_keeps_connected: "cn_state k = States.kConnected \<Longrightarrow> stop k = Inr (k\<lparr>connect_flag := False\<rparr>)"
  by (simp add: stop_def stopInLoop_def)

lemma cl_stop_ok:
  assumes inv: "client_inv c w"
  shows "keeps (client_stop w)"
proof -
  have k: "connector_inv (connector c)" using inv by (simp add: client_inv_def)
  obtain k' where k': "stop (connector c) = Inr k'" using steps_succeed(1) [OF k] by blast
  have "connector_inv k'" using cstep_inv [OF cstep.stop [OF k'] k] .
  moreover have "tcl_connection c \<noteq> None \<longrightarrow> cn_state k' = States.kConnected"
    using inv k' by (auto simp: client_inv_def stop_keeps_connected)
  ultimately show ?thesis
    using k' inv by (auto simp: keeps_def client_stop_def with_client_def put_client_def client_inv_def Let_def)
qed

lemma cl_disconnect_ok:
  assumes inv: "client_inv c w"
  shows "keeps (client_disconnect w)"
proof (cases "tcl_connection c")
  case None
  with inv show ?thesis
    by (auto simp: keeps_def client_disconnect_def with_client_def put_client_def client_inv_def Let_def)
next
  case (Some i)
  have ok: "conns_ok (cconns w) (cqueue w) (Some i)" using inv Some by (simp add: client_inv_def)
  then have i: "i < length (cconns w)" by (simp add: conns_ok_def)
  let ?k = "fst (cconns w ! i)"
  have wf: "conn_wf ?k" and u: "up ?k" and cl: "snd (cconns w ! i)" using conns_okD(1,2,3) [OF ok i] by simp_all
  have "up (shutdown True ?k)" using u shutdown_spec(5) [OF wf] by (auto simp: up_def)
  from conns_up [OF ok shutdown_spec(1) [OF wf] this] Some inv cl show ?thesis
    by (auto simp: keeps_def client_disconnect_def with_client_def put_client_def put_cconn_def client_inv_def Let_def)
qed

lemma cl_failed_ok:
  assumes inv: "client_inv c w" and ch: "channel (connector c) = Some (fd, True)"
  shows "keeps (client_failed w)"
proof -
  have k: "connector_inv (connector c)" using inv by (simp add: client_inv_def)
  have x: "tcl_connection c = None" using inv ch by (auto simp: client_inv_def connector_inv_def)
  obtain k' where k': "handleError (connector c) = Inr k'" using steps_succeed(3) [OF k ch] by blast
  have "connector_inv k'" using cstep_inv [OF cstep.error [OF ch k'] k] .
  with x k' inv show ?thesis
    by (auto simp: keeps_def client_failed_def with_client_def put_client_def client_inv_def)
qed

lemma cl_reset_ok:
  assumes inv: "client_inv c w" and r: "resets (connector c) = Suc n"
  shows "keeps (client_reset w)"
proof -
  have "connector_inv (resetChannel ((connector c)\<lparr>resets := n\<rparr>))"
    using cstep_inv [OF cstep.reset [OF r]] inv by (simp add: client_inv_def)
  with inv r show ?thesis
    by (auto simp: keeps_def client_reset_def with_client_def put_client_def client_inv_def resetChannel_def Let_def)
qed


text \<open>A writable connector either hands its socket over, and is connected then, or does not.\<close>

lemma handleWrite_cases:
  assumes "connector_inv k" and "channel k = Some (fd, True)" and "Connector.handleWrite err self k = Inr k'"
  shows "handed k' = handed k \<or> handed k' = handed k @ [fd] \<and> cn_state k' = States.kConnected"
  using assms
  by (auto simp: Connector.handleWrite_def removeAndResetChannel_def connector_inv_def retry_def close_sock_def Let_def split: if_splits)

abbreviation quiet :: "nat \<Rightarrow> client_net \<Rightarrow> client_net res" where
  "quiet \<equiv> \<lambda>_. Inr"

lemma cl_newConnection_ok:
  assumes inv: "client_inv c w" and x: "tcl_connection c = None" and st: "cn_state (connector c) = States.kConnected"
    and room: "tcl_nextConnId c < 2 ^ 31 - 1" and kw: "\<forall>t len n. kw t len = Some n \<longrightarrow> n \<le> len"
  shows "keeps (client_newConnection quiet peer kw fd w)"
proof -
  let ?nm = "tcl_name c @ snprintf 32 ('':'' @ peer @ ''#'' @ show_int (tcl_nextConnId c))"
  let ?k = "new_TcpConnection ?nm fd kw"
  have k: "conn_wf ?k" "conn_state ?k = StateE.kConnecting" using new_conn_wf [OF kw] by (simp_all add: new_TcpConnection_def)
  let ?c = "c\<lparr>tcl_nextConnId := tcl_nextConnId c + 1, tcl_connection := Some (length (cconns w))\<rparr>"
  have "client_newConnection quiet peer kw fd w = Inr ((put_client ?c w)\<lparr>cconns := cconns w @ [(established ?k, True)]\<rparr>)"
    using inv room k(2)
    by (simp add: client_newConnection_def with_client_def client_inv_def connectEstablished_def put_client_def put_cconn_def
        established_def [symmetric] Let_def)
  moreover have "conns_ok (cconns w @ [(established ?k, True)]) (cqueue w) (Some (length (cconns w)))"
    using inv x established_wf(1,2) [OF k] by (intro conns_append) (simp_all add: client_inv_def up_def)
  ultimately show ?thesis using inv room st by (auto simp: keeps_def client_inv_def put_client_def)
qed

lemma cl_writable_ok:
  assumes inv: "client_inv c w" and ch: "channel (connector c) = Some (fd, True)"
    and room: "tcl_nextConnId c < 2 ^ 31 - 1" and kw: "\<forall>t len n. kw t len = Some n \<longrightarrow> n \<le> len"
  shows "keeps (client_writable quiet peer kw err self w)"
proof -
  have k: "connector_inv (connector c)" using inv by (simp add: client_inv_def)
  have x: "tcl_connection c = None" using inv ch by (auto simp: client_inv_def connector_inv_def)
  obtain k' where k': "Connector.handleWrite err self (connector c) = Inr k'" using steps_succeed(2) [OF k ch] by blast
  let ?c = "c\<lparr>connector := k'\<rparr>"
  have "connector_inv k'" using cstep_inv [OF cstep.writable [OF ch k'] k] .
  then have inv': "client_inv ?c (put_client ?c w)" using inv x by (simp add: client_inv_def put_client_def)
  from handleWrite_cases [OF k ch k'] show ?thesis
  proof
    assume "handed k' = handed (connector c)"
    with inv inv' k' show ?thesis
      by (auto simp: keeps_def client_writable_def with_client_def client_inv_def [of c] Let_def)
  next
    assume h: "handed k' = handed (connector c) @ [fd] \<and> cn_state k' = States.kConnected"
    with cl_newConnection_ok [OF inv', of kw peer fd] x room kw have "keeps (client_newConnection quiet peer kw fd (put_client ?c w))" by simp
    with h inv k' show ?thesis by (simp add: client_writable_def with_client_def client_inv_def [of c] Let_def)
  qed
qed

lemma restart_succeeds: "channel k = None \<Longrightarrow> \<exists>k'. restart fd en k = Inr k'"
  by (auto simp: restart_def startInLoop_def connect_def connecting_def Let_def)

lemma connected_idle: "connector_inv k \<Longrightarrow> cn_state k = States.kConnected \<Longrightarrow> resets k = 0 \<Longrightarrow> channel k = None"
  by (cases "channel k") (auto simp: connector_inv_def)

lemma cl_removeConnection_ok:
  assumes inv: "client_inv c w" and x: "tcl_connection c = Some i" and idle: "resets (connector c) = 0"
    and k: "conn_wf k" "conn_state k = StateE.kDisconnected" "watched k \<noteq> None"
  shows "keeps (client_removeConnection fd en i (put_cconn i k w))"
proof -
  have ok: "conns_ok (cconns w) (cqueue w) (Some i)" and cn: "connector_inv (connector c)" "cn_state (connector c) = States.kConnected"
    using inv x by (simp_all add: client_inv_def)
  then have i: "i < length (cconns w)" by (simp add: conns_ok_def)
  have "snd (cconns w ! i)" using conns_okD(2) [OF ok i] .
  then have cl: "conns_ok ((cconns w)[i := (k, snd (cconns w ! i))]) (cqueue w @ [i]) None" using conns_close [OF ok k] by simp
  have ch: "channel (connector c) = None" using connected_idle [OF cn idle] .
  obtain k' where k': "restart fd en (connector c) = Inr k'" using restart_succeeds [OF ch] by blast
  have "connector_inv k'" using cstep_inv [OF cstep.restart [OF _ ch k'] cn(1)] cn(2) by simp
  with inv x cl k' show ?thesis
    by (auto simp: keeps_def client_removeConnection_def with_client_def client_inv_def put_client_def put_cconn_def Let_def)
qed

lemma cl_close_ok:
  assumes inv: "client_inv c w" and x: "tcl_connection c = Some i" and idle: "resets (connector c) = 0"
  shows "keeps (client_close quiet fd en i w)"
proof -
  have ok: "conns_ok (cconns w) (cqueue w) (Some i)" using inv x by (simp add: client_inv_def)
  then have i: "i < length (cconns w)" by (simp add: conns_ok_def)
  let ?k = "fst (cconns w ! i)"
  have wf: "conn_wf ?k" and u: "conn_state ?k \<in> {StateE.kConnected, StateE.kDisconnecting}" and cl: "snd (cconns w ! i)"
    using conns_okD(1,2,3) [OF ok i] by (simp_all add: up_def)
  note k = closed_wf(1-3) [OF wf u]
  have "keeps (client_removeConnection fd en i (put_cconn i (TcpConnection.closed ?k) w))"
    using cl_removeConnection_ok [OF inv x idle k(1,2)] k(3) by simp
  then obtain w' c' where w': "client_removeConnection fd en i (put_cconn i (TcpConnection.closed ?k) w) = Inr w'" "client_inv c' w'"
    by (auto simp: keeps_def)
  have "client_close quiet fd en i w = Inr w'"
    using w'(1) i cl by (simp add: client_close_def handleClose_def TcpConnection.closed_def [symmetric] put_cconn_def Let_def)
  with w'(2) show ?thesis by (auto simp: keeps_def)
qed

lemma destroyed_keeps:
  assumes inv: "client_inv c w" and q: "cqueue w = i # q"
  shows "keeps (client_destroyed w)"
proof -
  have ok: "conns_ok (cconns w) (i # q) (tcl_connection c)" using inv q by (simp add: client_inv_def)
  then have i: "i < length (cconns w)" by (simp add: conns_ok_def)
  let ?k = "fst (cconns w ! i)"
  have wf: "conn_wf ?k" and st: "conn_state ?k = StateE.kDisconnected" "watched ?k \<noteq> None" and cl: "snd (cconns w ! i)"
    using conns_okD [OF ok i] by simp_all
  then have ev: "events (chan ?k) = 0" "watched ?k = Some (False, 0)" by (auto simp: conn_wf_def)
  let ?k' = "?k\<lparr>watched := None\<rparr>"
  have k': "conn_wf ?k'" using wf st by (simp add: conn_wf_def)
  have "client_destroyed w = Inr (put_cconn i ?k' (w\<lparr>cqueue := q\<rparr>))"
    using q st ev by (simp add: client_destroyed_def connectDestroyed_def ch_remove_def isNoneEvent_def kNoneEvent_def)
  moreover have "conns_ok ((cconns w)[i := (?k', snd (cconns w ! i))]) q (tcl_connection c)"
    using conns_destroy [OF ok k'] st cl by simp
  ultimately show ?thesis using inv by (auto simp: keeps_def client_inv_def put_cconn_def)
qed


lemma cl_activity_ok:
  assumes inv: "client_inv c w" and i: "i < length (cconns w)" and act: "watched (fst (cconns w ! i)) = Some (True, e)"
    and room: "length (accepted [op]) \<le> conn_room (fst (cconns w ! i))" and step: "conn_step op (fst (cconns w ! i)) = Inr k"
  shows "client_inv c (put_cconn i k w)"
proof -
  have ok: "conns_ok (cconns w) (cqueue w) (tcl_connection c)" using inv by (simp add: client_inv_def)
  let ?k = "fst (cconns w ! i)"
  have wf: "conn_wf ?k" and cl: "snd (cconns w ! i)" using conns_okD(1,2) [OF ok i] by simp_all
  have u: "conn_state ?k \<in> {StateE.kConnected, StateE.kDisconnecting}" using active_up [OF wf act] .
  then have x: "tcl_connection c = Some i" using conns_okD(3) [OF ok i] by (simp add: up_def)
  have "conns_ok ((cconns w)[i := (k, True)]) (cqueue w) (Some i)"
    using conn_step_up [OF wf u room step] ok x by (intro conns_up) (simp_all add: up_def)
  with inv x cl show ?thesis by (simp add: client_inv_def put_cconn_def)
qed


section \<open>Executions\<close>

text \<open>
  What happens to a client: its owner connects it (only when the connector is idle), disconnects or stops it; the
  loop reports the connector's channel as writable or failed, a connection as closed by the peer, or runs a queued
  functor; a connection is written to. A connection is polled from the round after the one that made it, so the
  functors of that round, with the connector's \<open>resetChannel\<close>, have run when it is closed.
\<close>

inductive clreach :: "TcpClient \<Rightarrow> client_net \<Rightarrow> bool" for c0 where
  init: "clreach c0 (client_world c0)"
| connect: "clreach c0 w \<Longrightarrow> client w = Some c \<Longrightarrow> cn_state (connector c) = States.kDisconnected \<Longrightarrow> channel (connector c) = None \<Longrightarrow>
     client_connect fd en w = Inr w' \<Longrightarrow> clreach c0 w'"
| disconnect: "clreach c0 w \<Longrightarrow> client_disconnect w = Inr w' \<Longrightarrow> clreach c0 w'"
| stop: "clreach c0 w \<Longrightarrow> client_stop w = Inr w' \<Longrightarrow> clreach c0 w'"
| writable: "clreach c0 w \<Longrightarrow> client w = Some c \<Longrightarrow> channel (connector c) = Some (fd, True) \<Longrightarrow> tcl_nextConnId c < 2 ^ 31 - 1 \<Longrightarrow>
     \<forall>t len n. kw t len = Some n \<longrightarrow> n \<le> len \<Longrightarrow> client_writable quiet peer kw err self w = Inr w' \<Longrightarrow> clreach c0 w'"
| failed: "clreach c0 w \<Longrightarrow> client w = Some c \<Longrightarrow> channel (connector c) = Some (fd, True) \<Longrightarrow> client_failed w = Inr w' \<Longrightarrow> clreach c0 w'"
| reset: "clreach c0 w \<Longrightarrow> client w = Some c \<Longrightarrow> resets (connector c) = Suc n \<Longrightarrow> client_reset w = Inr w' \<Longrightarrow> clreach c0 w'"
| close: "clreach c0 w \<Longrightarrow> client w = Some c \<Longrightarrow> resets (connector c) = 0 \<Longrightarrow> i < length (cconns w) \<Longrightarrow>
     watched (fst (cconns w ! i)) = Some (True, e) \<Longrightarrow> client_close quiet fd en i w = Inr w' \<Longrightarrow> clreach c0 w'"
| activity: "clreach c0 w \<Longrightarrow> i < length (cconns w) \<Longrightarrow> watched (fst (cconns w ! i)) = Some (True, e) \<Longrightarrow>
     length (accepted [op]) \<le> conn_room (fst (cconns w ! i)) \<Longrightarrow> conn_step op (fst (cconns w ! i)) = Inr k \<Longrightarrow> clreach c0 (put_cconn i k w)"
| destroyed: "clreach c0 w \<Longrightarrow> cqueue w = i # q \<Longrightarrow> client_destroyed w = Inr w' \<Longrightarrow> clreach c0 w'"

lemma keepsD: "keeps (Inr w) \<Longrightarrow> \<exists>c. client_inv c w"
  by (auto simp: keeps_def)

lemma client_inv_of: "\<exists>c. client_inv c w \<Longrightarrow> client w = Some c \<Longrightarrow> client_inv c w"
  by (auto simp: client_inv_def)

lemma watched_connection:
  assumes "client_inv c w" and "i < length (cconns w)" and "watched (fst (cconns w ! i)) = Some (True, e)"
  shows "tcl_connection c = Some i"
proof -
  have ok: "conns_ok (cconns w) (cqueue w) (tcl_connection c)" using assms(1) by (simp add: client_inv_def)
  from active_up [OF conns_okD(1) [OF ok assms(2)] assms(3)] conns_okD(3) [OF ok assms(2)] show ?thesis by (simp add: up_def)
qed

lemma clreach_inv:
  assumes "clreach c0 w" and "client_inv c0 (client_world c0)"
  shows "\<exists>c. client_inv c w"
  using assms(1)
proof induction
  case init
  show ?case using assms(2) by blast
next
  case (connect w c fd en w')
  then show ?case using cl_connect_ok [OF client_inv_of [of w c], of fd en] by (auto dest: keepsD)
next
  case (disconnect w w')
  then show ?case using cl_disconnect_ok keepsD by metis
next
  case (stop w w')
  then show ?case using cl_stop_ok keepsD by metis
next
  case (writable w c fd kw peer err self w')
  then show ?case using cl_writable_ok [OF client_inv_of [of w c], of fd kw peer err self] by (auto dest: keepsD)
next
  case (failed w c fd w')
  then show ?case using cl_failed_ok [OF client_inv_of [of w c], of fd] by (auto dest: keepsD)
next
  case (reset w c n w')
  then show ?case using cl_reset_ok [OF client_inv_of [of w c], of n] by (auto dest: keepsD)
next
  case (close w c i e fd en w')
  have inv: "client_inv c w" using client_inv_of [OF close.IH close(2)] .
  from cl_close_ok [OF inv watched_connection [OF inv close(4,5)] close(3), of fd en] close(6) show ?case by (auto dest: keepsD)
next
  case (activity w i e op k)
  then show ?case using cl_activity_ok by blast
next
  case (destroyed w i q w')
  then show ?case using destroyed_keeps keepsD by metis
qed



section \<open>Properties\<close>



text \<open>
  A client may be stopped and deleted in its own connection callback, as \<open>P2PClient::changeServer\<close> does when
  the connection goes down: the destructor replaces the close callback before \<open>handleClose\<close> calls it, so the deleted
  client is not used, and the connection is still unregistered afterwards.
\<close>

theorem delete_in_callback_safe:
  assumes "client_inv c w" and "tcl_connection c = Some i" and "resets (connector c) = 0" and "cqueue w = []"
  shows "\<exists>w' w''. client_close (\<lambda>_ w. res_bind (client_stop w) destroy_TcpClient) fd en i w = Inr w' \<and> client w' = None \<and>
           client_destroyed w' = Inr w'' \<and> cqueue w'' = [] \<and> watched (fst (cconns w'' ! i)) = None"
proof -
  have ok: "conns_ok (cconns w) (cqueue w) (Some i)" and cl: "client w = Some c" and k: "connector_inv (connector c)"
      "cn_state (connector c) = States.kConnected" using assms(1,2) by (simp_all add: client_inv_def)
  then have i: "i < length (cconns w)" by (simp add: conns_ok_def)
  let ?k = "fst (cconns w ! i)"
  have wf: "conn_wf ?k" and u: "conn_state ?k \<in> {StateE.kConnected, StateE.kDisconnecting}"
    using conns_okD(1,3) [OF ok i] by (simp_all add: up_def)
  have ch: "channel (connector c) = None" using connected_idle [OF k assms(3)] .
  let ?w = "w\<lparr>client := None, cconns := (cconns w)[i := (TcpConnection.closed ?k, False)], cqueue := [i]\<rparr>"
  have "client_close (\<lambda>_ w. res_bind (client_stop w) destroy_TcpClient) fd en i w = Inr ?w"
    using i cl assms(2,4) ch stop_keeps_connected [OF k(2)]
    by (simp add: client_close_def handleClose_def TcpConnection.closed_def [symmetric] put_cconn_def client_stop_def
        with_client_def put_client_def destroy_TcpClient_def destroy_Connector_def detail_removeConnection_def Let_def)
  moreover have "client_destroyed ?w = Inr (?w\<lparr>cqueue := [], cconns := (cconns w)[i := ((TcpConnection.closed ?k)\<lparr>watched := None\<rparr>, False)]\<rparr>)"
    using i closed_wf(2) [OF wf u] closed_removes [OF wf u]
    by (simp add: client_destroyed_def connectDestroyed_def put_cconn_def)
  ultimately show ?thesis using i by simp
qed

text \<open>A client with a connection whose kernel takes two bytes at a time.\<close>

definition connected_client :: TcpClient where
  "connected_client = (new_TcpClient ''P2PClient'')\<lparr>
     connector := new_Connector\<lparr>connect_flag := True, cn_state := States.kConnected, opened := [5], handed := [5]\<rparr>,
     tcl_nextConnId := 2, tcl_connection := Some 0\<rparr>"

definition connected_world :: client_net where
  "connected_world = \<lparr>client = Some connected_client, cconns = [(slow_conn, True)], cqueue = []\<rparr>"

lemma connected_world_inv: "client_inv connected_client connected_world"
  using slow_conn_wf(1,2)
  by (simp add: client_inv_def connected_world_def connected_client_def new_TcpClient_def connector_inv_def new_Connector_def
      current_def conns_ok_def up_def retry_steps_simps)

theorem delete_in_callback_safe_witness:
  "\<exists>w'. client_close (\<lambda>_ w. res_bind (client_stop w) destroy_TcpClient) 6 E_OK 0 connected_world = Inr w' \<and> client w' = None"
  using delete_in_callback_safe [OF connected_world_inv, of 0 6 E_OK]
  by (auto simp: connected_client_def connected_world_def new_TcpClient_def new_Connector_def)

text \<open>
  A client without retry cannot be connected again once it has lost its connection: the connector stays in the
  state \<open>kConnected\<close>, and \<open>startInLoop\<close> asserts that it is disconnected.
\<close>

theorem reconnect_aborts:
  assumes "client_inv c w" and "tcl_connection c = None" and "cn_state (connector c) = States.kConnected"
  shows "client_connect fd en w = Inl AssertFail"
  using assms by (simp add: client_inv_def client_connect_def with_client_def start_def startInLoop_def Let_def)

end
