(* ===== verification/PeerClient.thy ===== *)
theory PeerClient
  imports P2PClient TcpClient
begin

text \<open>
  The client of a peer over the \<^verbatim>\<open>TcpClient\<close> of the library. \<^verbatim>\<open>P2PClient::changeServer\<close> disconnects, stops, deletes and replaces
  its \<^verbatim>\<open>TcpClient\<close> from inside a callback of one of that client's connections. The theory of \<open>P2PClient\<close> records these
  calls in their order; here they are carried out. The connections of a client that has been deleted stay in the
  loop until their peer closes them: \<open>past\<close> holds what is left of the earlier clients.
\<close>

section \<open>Carrying out the calls\<close>

record peer_net =
  cur :: client_net
  past :: "client_net list"

definition on_cur :: "(client_net \<Rightarrow> client_net res) \<Rightarrow> peer_net \<Rightarrow> peer_net res" where
  "on_cur f n = res_bind (f (cur n)) (\<lambda>w. Inr (n\<lparr>cur := w\<rparr>))"

text \<open>\<open>fd\<close> and \<open>en\<close> are the answers of the kernel to the socket and the connection attempt of \<open>connect\<close>.\<close>

fun exec_cmd :: "int \<Rightarrow> errno \<Rightarrow> client_cmd \<Rightarrow> peer_net \<Rightarrow> peer_net res" where
  "exec_cmd fd en CmdDisconnect n = on_cur client_disconnect n"
| "exec_cmd fd en CmdStop n = on_cur client_stop n"
| "exec_cmd fd en CmdDelete n = on_cur destroy_TcpClient n"
| "exec_cmd fd en (CmdNew port) n =
     Inr (n\<lparr>cur := client_world (enableRetry (new_TcpClient ''P2PClient'')), past := past n @ [cur n]\<rparr>)"
| "exec_cmd fd en CmdConnect n = on_cur (client_connect fd en) n"

text \<open>One attempt of a search, and the calls after the attempt that succeeds.\<close>

definition attempt :: "bool \<Rightarrow> client_cmd list" where
  "attempt b = (if b then [CmdDisconnect] else []) @ [CmdStop]"

definition take_over :: "16 word \<Rightarrow> client_cmd list" where
  "take_over a = [CmdDelete, CmdNew a, CmdConnect]"

lemma changeServer_commands:
  assumes "changeServer reach a p = (ok, p')"
  shows "commands p' = commands p @ attempt (connection p \<noteq> None) @ (if ok then take_over a else [])"
  using assms by (auto simp: changeServer_def attempt_def take_over_def Let_def split: if_splits)

lemma search_commands:
  assumes "search_next reach level (g, p) = Some (g', p')"
  shows "\<exists>n. commands p' = commands p @ concat (replicate (Suc n) (attempt (connection p \<noteq> None))) @ take_over (port_of (peerIP p'))"
proof -
  have "\<exists>n. commands (snd st') = commands (snd st) @ concat (replicate (Suc n) (attempt (connection (snd st) \<noteq> None))) @
      take_over (port_of (peerIP (snd st')))" if "search_next reach level st = Some st'" for st st' :: "'c peer"
    using that
  proof (induction rule: search_next.raw_induct [rotated, consumes 1, case_names 1])
    case (1 search reach level st st')
    obtain g p where st: "st = (g, p)" by (cases st)
    let ?ip = "findNeiIP level g"
    obtain ok p1 where c: "changeServer reach (port_of ?ip) (p\<lparr>peerIP := ?ip\<rparr>) = (ok, p1)" by fastforce
    note c' = changeServer_simps [OF c] and cmds = changeServer_commands [OF c]
    show ?case
    proof (cases ok)
      case True
      with 1(2) c c'(4) cmds show ?thesis by (intro exI [of _ 0]) (auto simp: st Let_def)
    next
      case False
      with 1(2) c c'(4) have "search reach level (removeNeiIP ?ip g, p1) = Some st'" by (simp add: st Let_def)
      from 1(1) [OF this] obtain n where
        "commands (snd st') = commands p1 @ concat (replicate (Suc n) (attempt (connection p1 \<noteq> None))) @ take_over (port_of (peerIP (snd st')))"
        by auto
      with cmds c'(5) False show ?thesis by (intro exI [of _ "Suc n"]) (simp add: st)
    qed
  qed
  from this [OF assms] show ?thesis by simp
qed


section \<open>Attempts\<close>

text \<open>What the attempts of a search keep: the client with its connection, which is shut down if the peer knows it.\<close>

definition ready :: "nat option \<Rightarrow> nat \<Rightarrow> client_net \<Rightarrow> bool" where
  "ready x len w \<longleftrightarrow> (\<exists>c. client_inv c w \<and> tcl_connection c = x \<and> (x \<noteq> None \<longrightarrow> resets (connector c) = 0)) \<and>
     cqueue w = [] \<and> length (cconns w) = len"

definition half_closed :: "nat option \<Rightarrow> client_net \<Rightarrow> bool" where
  "half_closed x w \<longleftrightarrow> (\<forall>i. x = Some i \<longrightarrow> conn_state (fst (cconns w ! i)) = StateE.kDisconnecting)"

lemma disconnect_ready:
  assumes "ready x len w"
  shows "\<exists>w'. client_disconnect w = Inr w' \<and> ready x len w' \<and> half_closed x w'"
proof -
  obtain c where c: "client_inv c w" "tcl_connection c = x" "x \<noteq> None \<longrightarrow> resets (connector c) = 0"
    and q: "cqueue w = []" "length (cconns w) = len" using assms by (auto simp: ready_def)
  obtain w' c' where w': "client_disconnect w = Inr w'" "client_inv c' w'" using cl_disconnect_ok [OF c(1)] by (auto simp: keeps_def)
  have cl: "client w = Some c" and ok: "conns_ok (cconns w) (cqueue w) x" using c by (auto simp: client_inv_def)
  have "connector c' = connector c \<and> tcl_connection c' = x \<and> cqueue w' = cqueue w \<and> length (cconns w') = length (cconns w)"
    using w' cl c(2)
    by (auto simp: client_disconnect_def with_client_def put_client_def put_cconn_def client_inv_def Let_def split: option.splits)
  moreover have "half_closed x w'" unfolding half_closed_def
  proof (intro allI impI)
    fix i assume x: "x = Some i"
    have i: "i < length (cconns w)" using ok x by (simp add: conns_ok_def)
    have "conn_wf (fst (cconns w ! i))" "up (fst (cconns w ! i))" using conns_okD(1,3) [OF ok i] x by simp_all
    with w'(1) cl c(2) x i shutdown_spec(5) show "conn_state (fst (cconns w' ! i)) = StateE.kDisconnecting"
      by (auto simp: client_disconnect_def with_client_def put_client_def put_cconn_def up_def Let_def)
  qed
  ultimately show ?thesis using w' c(3) q by (auto simp: ready_def)
qed

lemma stop_ready:
  assumes "ready x len w"
  shows "\<exists>w'. client_stop w = Inr w' \<and> ready x len w' \<and> cconns w' = cconns w"
proof -
  obtain c where c: "client_inv c w" "tcl_connection c = x" "x \<noteq> None \<longrightarrow> resets (connector c) = 0"
    and q: "cqueue w = []" "length (cconns w) = len" using assms by (auto simp: ready_def)
  obtain w' c' where w': "client_stop w = Inr w'" "client_inv c' w'" using cl_stop_ok [OF c(1)] by (auto simp: keeps_def)
  have cl: "client w = Some c" "client w' = Some c'" and st: "x \<noteq> None \<longrightarrow> cn_state (connector c) = States.kConnected"
    using c w'(2) by (auto simp: client_inv_def)
  have "x \<noteq> None \<longrightarrow> resets (connector c') = 0"
    using w'(1) cl st c(3) stop_keeps_connected [of "connector c"]
    by (auto simp: client_stop_def with_client_def put_client_def Let_def)
  moreover have "tcl_connection c' = x \<and> cqueue w' = cqueue w \<and> cconns w' = cconns w"
    using w'(1) cl c(2) by (auto simp: client_stop_def with_client_def put_client_def res_bind_eq_Inr Let_def)
  ultimately show ?thesis using w' q by (auto simp: ready_def)
qed

lemma attempt_ready:
  assumes "ready x len (cur n)"
  shows "\<exists>w'. res_fold (exec_cmd fd en) (attempt b) n = Inr (n\<lparr>cur := w'\<rparr>) \<and> ready x len w' \<and> (b \<longrightarrow> half_closed x w')"
proof (cases b)
  case True
  obtain w1 where w1: "client_disconnect (cur n) = Inr w1" "ready x len w1" "half_closed x w1" using disconnect_ready [OF assms] by blast
  obtain w2 where w2: "client_stop w1 = Inr w2" "ready x len w2" "cconns w2 = cconns w1" using stop_ready [OF w1(2)] by blast
  from w1 w2 True show ?thesis by (auto simp: attempt_def on_cur_def half_closed_def)
next
  case False
  then show ?thesis using stop_ready [OF assms] by (auto simp: attempt_def on_cur_def)
qed

lemma attempts_ready:
  assumes "ready x len (cur n)"
  shows "\<exists>w'. res_fold (exec_cmd fd en) (concat (replicate (Suc k) (attempt b))) n = Inr (n\<lparr>cur := w'\<rparr>) \<and>
     ready x len w' \<and> (b \<longrightarrow> half_closed x w')"
  using assms
proof (induction k arbitrary: n)
  case 0
  then show ?case using attempt_ready [of x len n fd en b] by simp
next
  case (Suc k)
  obtain w1 where w1: "res_fold (exec_cmd fd en) (attempt b) n = Inr (n\<lparr>cur := w1\<rparr>)" "ready x len w1"
    using attempt_ready [OF Suc.prems, of fd en b] by blast
  have "ready x len (cur (n\<lparr>cur := w1\<rparr>))" using w1(2) by simp
  from Suc.IH [OF this] w1(1) show ?case by (auto simp: res_fold_append)
qed

text \<open>The client is replaced; what is left of the old one can still be closed and unregistered.\<close>

definition left_over :: "nat option \<Rightarrow> client_net \<Rightarrow> bool" where
  "left_over x w \<longleftrightarrow> client w = None \<and>
     (\<forall>i. x = Some i \<longrightarrow> (\<forall>fd en. \<exists>w' w''. client_close quiet fd en i w = Inr w' \<and> client_destroyed w' = Inr w'' \<and>
        cqueue w'' = [] \<and> watched (fst (cconns w'' ! i)) = None))"

lemma delete_ready:
  assumes "ready x len w"
  shows "\<exists>w'. destroy_TcpClient w = Inr w' \<and> left_over x w' \<and> map fst (cconns w') = map fst (cconns w)"
proof -
  obtain c where c: "client_inv c w" "tcl_connection c = x" "x \<noteq> None \<longrightarrow> resets (connector c) = 0"
    and q: "cqueue w = []" using assms by (auto simp: ready_def)
  have cl: "client w = Some c" and ok: "conns_ok (cconns w) (cqueue w) x" and k: "connector_inv (connector c)"
    using c by (auto simp: client_inv_def)
  show ?thesis
  proof (cases x)
    case None
    obtain k' where "stop (connector c) = Inr k'" using steps_succeed(1) [OF k] by blast
    with None cl c(2) show ?thesis by (simp add: destroy_TcpClient_def with_client_def left_over_def)
  next
    case (Some i)
    have i: "i < length (cconns w)" using ok Some by (simp add: conns_ok_def)
    let ?k = "fst (cconns w ! i)" and ?w = "w\<lparr>client := None, cconns := (cconns w)[i := (fst (cconns w ! i), False)]\<rparr>"
    have wf: "conn_wf ?k" and u: "conn_state ?k \<in> {StateE.kConnected, StateE.kDisconnecting}"
      using conns_okD(1,3) [OF ok i] Some by (simp_all add: up_def)
    have "channel (connector c) = None" using connected_idle [OF k] c Some by (simp add: client_inv_def)
    then have "destroy_TcpClient w = Inr ?w" using cl c(2) Some by (simp add: destroy_TcpClient_def with_client_def destroy_Connector_def)
    moreover have "client_close quiet fd en i ?w =
        Inr (?w\<lparr>cconns := (cconns w)[i := (TcpConnection.closed ?k, False)], cqueue := [i]\<rparr>)" for fd en
      using i q by (simp add: client_close_def handleClose_def TcpConnection.closed_def [symmetric] put_cconn_def detail_removeConnection_def Let_def)
    moreover have "client_destroyed (?w\<lparr>cconns := (cconns w)[i := (TcpConnection.closed ?k, False)], cqueue := [i]\<rparr>) =
        Inr (?w\<lparr>cconns := (cconns w)[i := ((TcpConnection.closed ?k)\<lparr>watched := None\<rparr>, False)], cqueue := []\<rparr>)"
      using i closed_wf(2) [OF wf u] closed_removes [OF wf u] by (simp add: client_destroyed_def connectDestroyed_def put_cconn_def)
    ultimately show ?thesis using i Some by (simp add: left_over_def map_update list_update_same_conv)
  qed
qed

lemma connect_new:
  "\<exists>c' w'. client_connect fd en (client_world (enableRetry (new_TcpClient nm))) = Inr w' \<and> client_inv c' w' \<and> tcl_retry c' \<and>
     opened (connector c') = [fd] \<and> cconns w' = []"
proof -
  let ?c = "enableRetry (new_TcpClient nm)"
  have st: "cn_state (connector ?c) = States.kDisconnected" "channel (connector ?c) = None" "opened (connector ?c) = []"
    by (simp_all add: enableRetry_def new_TcpClient_def new_Connector_def)
  obtain w' c' where w': "client_connect fd en (client_world ?c) = Inr w'" "client_inv c' w'"
    using cl_connect_ok [OF client_world_retry_inv st(1,2), of fd en] by (auto simp: keeps_def)
  then obtain k where k: "start fd en (connector ?c) = Inr k" "c' = ?c\<lparr>tcl_connect := True, connector := k\<rparr>" "cconns w' = []"
    by (auto simp: client_connect_def with_client_def client_world_def put_client_def client_inv_def res_bind_eq_Inr Let_def)
  have "opened k = [fd]"
    using k(1) st by (auto simp: start_def startInLoop_def connect_def connecting_def retry_def close_sock_def Let_def split: if_splits)
  with w' k show ?thesis by (auto simp: enableRetry_def)
qed


section \<open>Properties\<close>

text \<open>
  C9. Changing the server is safe from inside a callback of the connection that is given up: all the calls that a search
  makes on the \<open>TcpClient\<close> of the peer, however many attempts it takes, pass without a failed assertion or a use of a
  deleted object. They leave a new client that is connecting with a socket of its own. The old connection, if there
  was one, is shut down when the peer knew it; the deleted client is not needed when the other side closes that
  connection later, and it is unregistered then.
\<close>

theorem server_change_safe:
  assumes "search_next reach level (g, p) = Some (g', p')" and "client_inv c (cur n)" and "cqueue (cur n) = []"
    and "tcl_connection c \<noteq> None \<longrightarrow> resets (connector c) = 0"
  shows "\<exists>n' w'. res_fold (exec_cmd fd en) (drop (length (commands p)) (commands p')) n = Inr n' \<and> past n' = past n @ [w'] \<and>
    left_over (tcl_connection c) w' \<and> (connection p \<noteq> None \<longrightarrow> half_closed (tcl_connection c) w') \<and>
    (\<exists>c'. client_inv c' (cur n') \<and> tcl_retry c' \<and> opened (connector c') = [fd] \<and> cconns (cur n') = [])"
proof -
  let ?x = "tcl_connection c" and ?b = "connection p \<noteq> None"
  obtain k where k: "commands p' = commands p @ concat (replicate (Suc k) (attempt ?b)) @ take_over (port_of (peerIP p'))"
    using search_commands [OF assms(1)] by blast
  have "ready ?x (length (cconns (cur n))) (cur n)" using assms(2-4) by (auto simp: ready_def)
  from attempts_ready [OF this, of fd en k ?b] obtain w1 where
    w1: "res_fold (exec_cmd fd en) (concat (replicate (Suc k) (attempt ?b))) n = Inr (n\<lparr>cur := w1\<rparr>)"
      "ready ?x (length (cconns (cur n))) w1" "?b \<longrightarrow> half_closed ?x w1" by blast
  obtain w2 where w2: "destroy_TcpClient w1 = Inr w2" "left_over ?x w2" "map fst (cconns w2) = map fst (cconns w1)"
    using delete_ready [OF w1(2)] by blast
  have len: "length (cconns w2) = length (cconns w1)" using w2(3) by (metis length_map)
  have "i < length (cconns w1)" if "?x = Some i" for i
    using w1(2) that by (auto simp: ready_def client_inv_def conns_ok_def)
  with w1(3) w2(3) len have half: "?b \<longrightarrow> half_closed ?x w2" unfolding half_closed_def by (metis nth_map)
  obtain c' w3 where w3: "client_connect fd en (client_world (enableRetry (new_TcpClient ''P2PClient''))) = Inr w3"
      "client_inv c' w3" "tcl_retry c'" "opened (connector c') = [fd]" "cconns w3 = []" using connect_new by blast
  have "res_fold (exec_cmd fd en) (take_over a) (n\<lparr>cur := w1\<rparr>) = Inr (n\<lparr>cur := w3, past := past n @ [w2]\<rparr>)" for a
    using w2(1) w3(1) by (simp add: take_over_def on_cur_def)
  moreover have "drop (length (commands p)) (commands p') = concat (replicate (Suc k) (attempt ?b)) @ take_over (port_of (peerIP p'))"
    unfolding k by (rule append_eq_conv_conj [THEN iffD1, THEN conjunct2, symmetric]) (rule refl)
  ultimately have "res_fold (exec_cmd fd en) (drop (length (commands p)) (commands p')) n = Inr (n\<lparr>cur := w3, past := past n @ [w2]\<rparr>)"
    unfolding res_fold_append using w1(1) by (simp only: res_fold_append res_bind.simps)
  with w2(2) half w3(2-5) show ?thesis by (intro exI [of _ "n\<lparr>cur := w3, past := past n @ [w2]\<rparr>"] exI [of _ w2]) auto
qed

theorem server_change_safe_witness:
  "\<exists>g' p' n'. search_next (\<lambda>_ _. True) 1 (\<lparr>neiIP = [(''1113'', 5)], updateFile = 1, selfIP = ''1112''\<rparr>,
       (new_P2PClient ConnState.kConnected 1111 :: TcpConnection P2PClient)\<lparr>connection := Some slow_conn\<rparr>) = Some (g', p') \<and>
     res_fold (exec_cmd 6 EINPROGRESS) (drop 1 (commands p')) \<lparr>cur = connected_world, past = []\<rparr> = Inr n' \<and> length (past n') = 1"
proof -
  let ?g = "\<lparr>neiIP = [(''1113'', 5)], updateFile = 1, selfIP = ''1112''\<rparr>"
    and ?p = "(new_P2PClient ConnState.kConnected 1111 :: TcpConnection P2PClient)\<lparr>connection := Some slow_conn\<rparr>"
  obtain g' p' where s: "search_next (\<lambda>_ _. True) 1 (?g, ?p) = Some (g', p')"
    using search_terminates [of ?p "\<lambda>_ _. True" 1 ?g] by auto
  have c: "client_inv connected_client (cur \<lparr>cur = connected_world, past = []\<rparr>)" using connected_world_inv by simp
  have "length (commands ?p) = 1" by (simp add: new_P2PClient_def)
  with server_change_safe [OF s c, of 6 EINPROGRESS] s show ?thesis
    by (auto simp: connected_world_def connected_client_def new_TcpClient_def new_Connector_def)
qed

end
