(* ===== verification/WaterMarks.thy ===== *)
theory WaterMarks
  imports TcpConnection
begin

text \<open>
  When a connection calls back: the functors for the write-complete and the high-water-mark callback that
  \<^verbatim>\<open>TcpConnection::sendInLoop\<close> and \<^verbatim>\<open>handleWrite\<close> hand to the loop, in terms of the bytes that wait before and after.
\<close>

section \<open>Bytes that wait\<close>

abbreviation waiting :: "TcpConnection \<Rightarrow> nat" where
  "waiting c \<equiv> length (content (outputBuffer c))"

definition crosses :: "TcpConnection \<Rightarrow> TcpConnection \<Rightarrow> bool" where
  "crosses c c' \<longleftrightarrow> highWaterMarkCB c \<and> waiting c < unat (highWaterMark c) \<and> unat (highWaterMark c) \<le> waiting c'"

lemma functors_ch_events [simp]: "functors (ch_events f c) = functors c"
  by (simp add: ch_events_def ch_update_def)

lemma functors_pushed [simp]: "functors (pushed b c) = functors c" "outputBuffer (pushed b c) = b" "sent (pushed b c) = sent c"
  by (simp_all add: pushed_def Let_def)

lemma send_rest_nothing: "send_rest d n 0 c = Inr c"
  by (simp add: send_rest_def)

lemma send_rest_functors:
  assumes "send_rest d n r c = Inr c'" and "0 < r" and "buf_wf (outputBuffer c)" and "buf_wf (outputBuffer c')"
    and "stream c' = stream c @ drop n d" and "length (drop n d) = unat r"
  shows "functors c' = functors c @ (if crosses c c' then [HighWaterMark (word_of_nat (waiting c'))] else [])"
    and "waiting c' = waiting c + unat r"
proof -
  let ?o = "readableBytes (outputBuffer c)"
  obtain b where b: "c' = pushed b (if ?o + r \<ge> highWaterMark c \<and> ?o < highWaterMark c \<and> highWaterMarkCB c
      then queueInLoop (HighWaterMark (?o + r)) c else c)"
    using assms(1,2) by (auto simp: send_rest_def res_bind_eq_Inr Let_def)
  then have "sent c' = sent c" by simp
  with assms(5,6) show w: "waiting c' = waiting c + unat r" by (simp add: stream_def)
  have o: "unat ?o = waiting c" using unat_readableBytes [OF assms(3)] .
  have "unat (readableBytes (outputBuffer c')) < 2 ^ LENGTH(64)" by (rule unsigned_less)
  then have "waiting c' < 2 ^ 64" using unat_readableBytes [OF assms(4)] by simp
  then have s: "unat (?o + r) = waiting c'" using o w by (simp add: unat_word_ariths)
  moreover have "unat (word_of_nat (waiting c') :: size_t) = waiting c'" using \<open>waiting c' < 2 ^ 64\<close> by simp
  ultimately have "?o + r = word_of_nat (waiting c')" by (simp add: word_unat_eq_iff)
  moreover have "functors c' = functors c @ (if ?o + r \<ge> highWaterMark c \<and> ?o < highWaterMark c \<and> highWaterMarkCB c
      then [HighWaterMark (?o + r)] else [])" by (subst b) (simp add: queueInLoop_def)
  moreover have "(?o + r \<ge> highWaterMark c \<and> ?o < highWaterMark c \<and> highWaterMarkCB c) = crosses c c'"
    using o s by (auto simp: crosses_def word_le_nat_alt word_less_nat_alt)
  ultimately show "functors c' = functors c @ (if crosses c c' then [HighWaterMark (word_of_nat (waiting c'))] else [])" by simp
qed

text \<open>The write that empties the buffer, and the direct write that needs none.\<close>

definition notified :: "TcpConnection \<Rightarrow> conn_functor list" where
  "notified c = (if writeCompleteCB c then [WriteComplete] else [])"

lemma send_left:
  assumes "send_rest data n r c1 = Inr c'" and "0 < r" and "buf_wf (outputBuffer c1)" and "buf_wf (outputBuffer c')"
    and "stream c' = stream c1 @ drop n data" and "length (drop n data) = unat r"
  shows "functors c' = functors c1 @ (if crosses c1 c' then [HighWaterMark (word_of_nat (waiting c'))] else [])"
    and "content (outputBuffer c') \<noteq> []"
proof -
  note f = send_rest_functors [OF assms]
  show "functors c' = functors c1 @ (if crosses c1 c' then [HighWaterMark (word_of_nat (waiting c'))] else [])" by (rule f(1))
  have "0 < waiting c'" using f(2) assms(2) by (simp add: word_less_nat_alt)
  then show "content (outputBuffer c') \<noteq> []" by auto
qed

text \<open>The kernel took the first \<open>n\<close> bytes of a message that found nothing waiting.\<close>

lemma send_taken:
  assumes wf: "conn_wf c" and st: "conn_state c = kConnected" and len: "unat len = length data" and s: "sendInLoop data len c = Inr c'"
    and e: "content (outputBuffer c) = []" and k: "kwrite c (kcalls c) (length data) = Some n"
    and b': "buf_wf (outputBuffer c')" and sp: "stream c' = stream c @ data"
  shows "functors c' = functors c @
    (if content (outputBuffer c') = [] then notified c
     else if crosses c c' then [HighWaterMark (word_of_nat (waiting c'))] else [])"
proof -
  let ?c0 = "c\<lparr>kcalls := Suc (kcalls c), sent := sent c @ take n data\<rparr>" and ?r = "len - word_of_nat n"
  let ?c1 = "if ?r = 0 \<and> writeCompleteCB ?c0 then queueInLoop WriteComplete ?c0 else ?c0"
  have n: "n \<le> unat len" using conn_wfD(3) [OF wf k] len by simp
  have r: "unat ?r = length data - n" using unat_minus_nat [OF n] unat_diff_len [OF n] len by simp
  have "?r \<le> len" using r len by (simp add: word_le_nat_alt)
  moreover have "\<not> isWriting (chan c)" "readableBytes (outputBuffer c) = 0" "string_at data len = Inr data"
    using isWriting_output [OF wf] st e readableBytes_eq_0 [OF conn_wfD(2) [OF wf]] len by (simp_all add: string_at_def)
  ultimately have "sendInLoop data len c = send_rest data n ?r ?c1"
    using k by (simp add: sendInLoop_def send_rest_def pushed_def Let_def sock_write_def cong: if_cong)
  with s have rest: "send_rest data n ?r ?c1 = Inr c'" by simp
  show ?thesis
  proof (cases "n = length data")
    case True
    then have "?r = 0" using r by (simp add: word_unat_eq_iff)
    then have "c' = (if writeCompleteCB ?c0 then queueInLoop WriteComplete ?c0 else ?c0)"
      using rest by (simp add: send_rest_nothing)
    with e show ?thesis by (simp add: notified_def queueInLoop_def)
  next
    case False
    then have pos: "0 < ?r" using r n len by (simp add: word_less_nat_alt)
    then have "?c1 = ?c0" by (auto simp: word_neq_0_conv)
    with rest have "send_rest data n ?r ?c0 = Inr c'" by simp
    moreover have "stream c' = stream ?c0 @ drop n data" using sp e by (simp add: stream_def)
    ultimately show ?thesis
      using send_left [of data n ?r ?c0 c'] pos conn_wfD(2) [OF wf] b' r by (simp add: crosses_def)
  qed
qed

lemma send_functors:
  assumes wf: "conn_wf c" and st: "conn_state c = kConnected" and d: "data \<noteq> []" and room: "length data \<le> conn_room c"
    and len: "unat len = length data" and s: "sendInLoop data len c = Inr c'"
  shows "functors c' = functors c @
    (if content (outputBuffer c') = [] then notified c
     else if crosses c c' then [HighWaterMark (word_of_nat (waiting c'))] else [])"
proof -
  have pos: "0 < len" using d len by (simp add: word_less_nat_alt)
  have bytes: "string_at data len = Inr data" using len by (simp add: string_at_def)
  have w: "isWriting (chan c) \<longleftrightarrow> content (outputBuffer c) \<noteq> []" using isWriting_output [OF wf] st by simp
  have b: "buf_wf (outputBuffer c)" "readableBytes (outputBuffer c) = 0 \<longleftrightarrow> content (outputBuffer c) = []"
    using conn_wfD(2) [OF wf] readableBytes_eq_0 by blast+
  have sp: "conn_wf c'" "stream c' = stream c @ data"
    using sendInLoop_spec [OF wf st, of len data] s room len by auto
  note b' = conn_wfD(2) [OF sp(1)]
  consider (behind) "content (outputBuffer c) \<noteq> []" | (refused) "content (outputBuffer c) = []" "kwrite c (kcalls c) (length data) = None"
    | (taken) n where "content (outputBuffer c) = []" "kwrite c (kcalls c) (length data) = Some n" by fastforce
  then show ?thesis
  proof cases
    case behind
    have "sendInLoop data len c = send_rest data 0 len c"
      using bytes w b(2) behind by (simp add: sendInLoop_def send_rest_def pushed_def Let_def cong: if_cong)
    with s send_left [of data 0 len c c'] pos b(1) b' sp(2) len show ?thesis by simp
  next
    case refused
    let ?c1 = "c\<lparr>kcalls := Suc (kcalls c), sent := sent c @ []\<rparr>"
    have "sendInLoop data len c = send_rest data 0 len ?c1"
      using bytes w b(2) refused by (simp add: sendInLoop_def send_rest_def pushed_def Let_def sock_write_def cong: if_cong)
    with s send_left [of data 0 len ?c1 c'] pos b(1) b' sp(2) len show ?thesis by (simp add: stream_def crosses_def)
  next
    case (taken n)
    show ?thesis by (rule send_taken [OF wf st len s taken b' sp(2)])
  qed
qed

lemma write_functors:
  assumes wf: "conn_wf c" and st: "conn_state c \<in> {kConnected, kDisconnecting}" and h: "handleWrite c = Inr c'"
  shows "functors c' = functors c @ (if content (outputBuffer c) \<noteq> [] \<and> content (outputBuffer c') = [] then notified c else [])"
proof (cases "content (outputBuffer c) = []")
  case True
  then have "\<not> isWriting (chan c)" using isWriting_output [OF wf st] by simp
  with h True show ?thesis by (auto simp: handleWrite_def)
next
  case False
  let ?b = "outputBuffer c"
  have bwf: "buf_wf ?b" using conn_wfD(2) [OF wf] .
  have w: "isWriting (chan c)" using isWriting_output [OF wf st] False by simp
  have bytes: "string_at (peek ?b) (readableBytes ?b) = Inr (content ?b)"
    using string_at_peek [OF bwf, of "readableBytes ?b"] unat_readableBytes [OF bwf] by simp
  have wf': "conn_wf c'" using handleWrite_spec [OF wf st] h by auto
  then have r0: "readableBytes (outputBuffer c') = 0 \<longleftrightarrow> content (outputBuffer c') = []"
    using readableBytes_eq_0 conn_wfD(2) by blast
  show ?thesis
  proof (cases "kwrite c (kcalls c) (waiting c)")
    case None
    with h w bytes False have "functors c' = functors c" "outputBuffer c' = ?b" by (auto simp: handleWrite_def sock_write_def)
    with False show ?thesis by simp
  next
    case (Some n)
    show ?thesis
    proof (cases "n = 0")
      case True
      with h w bytes False Some have "functors c' = functors c" "outputBuffer c' = ?b" by (auto simp: handleWrite_def sock_write_def)
      with False show ?thesis by simp
    next
      case n: False
      let ?c = "c\<lparr>kcalls := Suc (kcalls c), sent := sent c @ take n (content ?b)\<rparr>"
      obtain b where b: "retrieve (word_of_nat n) ?b = Inr b" "c' = (let c = ?c\<lparr>outputBuffer := b\<rparr> in
          if readableBytes b = 0 then
            let c = ch_events (\<lambda>e. e AND NOT kWriteEvent) c; c = (if writeCompleteCB c then queueInLoop WriteComplete c else c)
            in if conn_state c = kDisconnecting then shutdownInLoop c else c
          else c)"
        using h w bytes Some n
        by (cases "retrieve (word_of_nat n) ?b") (auto simp: handleWrite_def sock_write_def Let_def split: if_splits)
      then have out: "outputBuffer c' = b" by (simp add: shutdownInLoop_def Let_def)
      have "functors c' = functors c @ (if readableBytes b = 0 then notified c else [])"
        unfolding b(2) by (simp add: shutdownInLoop_def notified_def queueInLoop_def Let_def)
      with r0 out False show ?thesis by simp
    qed
  qed
qed


section \<open>Properties\<close>

text \<open>
  C11. A connection calls back exactly when it should. A message that is sent notifies of its completion if the kernel took
  all of it at once, and otherwise reports the number of waiting bytes exactly if it took them from below the
  high-water mark to the mark or above it; a writable event notifies of completion exactly if it emptied the
  buffer. Nothing else is handed to the loop, and nothing is reported twice on the way up.
\<close>

theorem callbacks_exact:
  assumes "conn_wf c"
  shows "(conn_state c = kConnected \<and> data \<noteq> [] \<and> length data \<le> conn_room c \<longrightarrow>
      (\<exists>c'. send_string True data c = Inr c' \<and>
         functors c' = functors c @
           (if content (outputBuffer c') = [] then (if writeCompleteCB c then [WriteComplete] else [])
            else if highWaterMarkCB c \<and> length (content (outputBuffer c)) < unat (highWaterMark c) \<and>
                    unat (highWaterMark c) \<le> length (content (outputBuffer c'))
            then [HighWaterMark (word_of_nat (length (content (outputBuffer c'))))] else []))) \<and>
    (conn_state c \<in> {kConnected, kDisconnecting} \<longrightarrow>
      (\<exists>c'. handleWrite c = Inr c' \<and>
         functors c' = functors c @
           (if content (outputBuffer c) \<noteq> [] \<and> content (outputBuffer c') = [] \<and> writeCompleteCB c then [WriteComplete] else [])))"
proof (intro conjI impI)
  assume up: "conn_state c \<in> {kConnected, kDisconnecting}"
  obtain c' where "handleWrite c = Inr c'" using handleWrite_spec [OF assms up] by blast
  with write_functors [OF assms up this] show "\<exists>c'. handleWrite c = Inr c' \<and>
         functors c' = functors c @
           (if content (outputBuffer c) \<noteq> [] \<and> content (outputBuffer c') = [] \<and> writeCompleteCB c then [WriteComplete] else [])"
    by (auto simp: notified_def)
next
  assume h: "conn_state c = kConnected \<and> data \<noteq> [] \<and> length data \<le> conn_room c"
  then have "length data < 2 ^ 64" by (auto simp: conn_room_def)
  then have "unat (word_of_nat (length data) :: size_t) = length data" by simp
  then obtain c' where c': "sendInLoop data (word_of_nat (length data)) c = Inr c'"
    using sendInLoop_spec [OF assms, of "word_of_nat (length data)" data] h by auto
  from send_functors [OF assms _ _ _ _ c'] h c' \<open>unat (word_of_nat (length data) :: size_t) = length data\<close> show "\<exists>c'. send_string True data c = Inr c' \<and>
         functors c' = functors c @
           (if content (outputBuffer c') = [] then (if writeCompleteCB c then [WriteComplete] else [])
            else if highWaterMarkCB c \<and> length (content (outputBuffer c)) < unat (highWaterMark c) \<and>
                    unat (highWaterMark c) \<le> length (content (outputBuffer c'))
            then [HighWaterMark (word_of_nat (length (content (outputBuffer c'))))] else [])"
    by (intro exI [of _ c']) (simp add: send_string_def notified_def crosses_def)
qed

theorem callbacks_exact_witness:
  "\<exists>c'. send_string True ''abcdef'' (setHighWaterMarkCallback 3 slow_conn) = Inr c' \<and>
     functors c' = (if content (outputBuffer c') = [] then [] else if 3 \<le> length (content (outputBuffer c'))
       then [HighWaterMark (word_of_nat (length (content (outputBuffer c'))))] else [])"
proof -
  let ?c = "setHighWaterMarkCallback 3 slow_conn"
  have same: "same_conn slow_conn ?c" by (simp add: same_conn_def setHighWaterMarkCallback_def)
  have c: "conn_wf ?c" "conn_state ?c = kConnected" "6 \<le> conn_room ?c"
    using same same_conn_wf [OF same] same_conn_room [OF same] slow_conn_wf by (simp_all add: same_conn_def)
  have "functors ?c = []" "writeCompleteCB ?c = False" "content (outputBuffer ?c) = []" "highWaterMarkCB ?c" "unat (highWaterMark ?c) = 3"
    using slow_conn_wf(3) by (simp_all add: setHighWaterMarkCallback_def stream_def slow_conn_def established_def new_TcpConnection_def)
  with callbacks_exact [OF c(1), of "''abcdef''"] c(2,3) show ?thesis by auto
qed

end
