(* ===== verification/FdFlags.thy ===== *)
theory FdFlags
  imports Sockets
begin

unbundle bit_operations_syntax

text \<open>
  The flags of descriptors. \<^verbatim>\<open>base/src/SocketsOps.cpp\<close> makes sockets in two ways, chosen when it is compiled: with the flags
  in the system call itself, or (\<^verbatim>\<open>VALGRIND\<close>) with \<^verbatim>\<open>setNonBlockAndCloseOnExec\<close> and \<^verbatim>\<open>setCloseOnExec\<close> afterwards. The
  state is the table of open descriptors with their status and descriptor flags, and \<^verbatim>\<open>errno\<close>; what the kernel answers
  to \<^verbatim>\<open>socket\<close> and \<^verbatim>\<open>accept\<close> is an argument. Values of the constants are those of Linux.
\<close>

section \<open>The table of descriptors\<close>

record fd_entry =
  status_flags :: "32 word"
  descr_flags :: "32 word"

record sys =
  fds :: "int \<rightharpoonup> fd_entry"
  errno_var :: errno

definition O_RDWR :: "32 word" where "O_RDWR = 2"
definition O_NONBLOCK :: "32 word" where "O_NONBLOCK = 2048"
definition FD_CLOEXEC :: "32 word" where "FD_CLOEXEC = 1"

text \<open>The status flags that \<^verbatim>\<open>F_SETFL\<close> can change: append, nonblocking, asynchronous, direct, no access time.\<close>

definition SETFL_MASK :: "32 word" where
  "SETFL_MASK = 1024 OR O_NONBLOCK OR 8192 OR 16384 OR 262144"

definition F_GETFL :: "int \<Rightarrow> sys \<Rightarrow> 32 word \<times> sys" where
  "F_GETFL fd s = (case fds s fd of Some e \<Rightarrow> (status_flags e, s) | None \<Rightarrow> (- 1, s\<lparr>errno_var := EBADF\<rparr>))"

definition F_SETFL :: "int \<Rightarrow> 32 word \<Rightarrow> sys \<Rightarrow> 32 word \<times> sys" where
  "F_SETFL fd v s = (case fds s fd of
      Some e \<Rightarrow> (0, s\<lparr>fds := (fds s)(fd \<mapsto> e\<lparr>status_flags := (status_flags e AND NOT SETFL_MASK) OR (v AND SETFL_MASK)\<rparr>)\<rparr>)
    | None \<Rightarrow> (- 1, s\<lparr>errno_var := EBADF\<rparr>))"

definition F_GETFD :: "int \<Rightarrow> sys \<Rightarrow> 32 word \<times> sys" where
  "F_GETFD fd s = (case fds s fd of Some e \<Rightarrow> (descr_flags e, s) | None \<Rightarrow> (- 1, s\<lparr>errno_var := EBADF\<rparr>))"

definition F_SETFD :: "int \<Rightarrow> 32 word \<Rightarrow> sys \<Rightarrow> 32 word \<times> sys" where
  "F_SETFD fd v s = (case fds s fd of
      Some e \<Rightarrow> (0, s\<lparr>fds := (fds s)(fd \<mapsto> e\<lparr>descr_flags := v AND FD_CLOEXEC\<rparr>)\<rparr>)
    | None \<Rightarrow> (- 1, s\<lparr>errno_var := EBADF\<rparr>))"

text \<open>A call that makes a descriptor, with its flags; \<open>Inl\<close> is its error.\<close>

definition sys_new :: "errno + int \<Rightarrow> bool \<Rightarrow> bool \<Rightarrow> sys \<Rightarrow> int \<times> sys" where
  "sys_new answer nonblock cloexec s = (case answer of
      Inr fd \<Rightarrow> (fd, s\<lparr>fds := (fds s)(fd \<mapsto>
        \<lparr>status_flags = O_RDWR OR (if nonblock then O_NONBLOCK else 0), descr_flags = (if cloexec then FD_CLOEXEC else 0)\<rparr>)\<rparr>)
    | Inl e \<Rightarrow> (- 1, s\<lparr>errno_var := e\<rparr>))"


section \<open>Setting the flags\<close>

definition setNonBlockAndCloseOnExec :: "int \<Rightarrow> sys \<Rightarrow> sys" where
  "setNonBlockAndCloseOnExec sockfd s =
     (case F_GETFL sockfd s of (flags, s) \<Rightarrow>
      let flags = flags OR O_NONBLOCK in
      case F_SETFL sockfd flags s of (_, s) \<Rightarrow>
      case F_GETFD sockfd s of (flags, s) \<Rightarrow>
      let flags = flags OR FD_CLOEXEC in
      case F_SETFD sockfd flags s of (_, s) \<Rightarrow> s)"

definition setCloseOnExec :: "int \<Rightarrow> sys \<Rightarrow> sys" where
  "setCloseOnExec sockfd s =
     (case F_GETFL sockfd s of (flags, s) \<Rightarrow>
      case F_SETFL sockfd flags s of (_, s) \<Rightarrow>
      case F_GETFD sockfd s of (flags, s) \<Rightarrow>
      let flags = flags OR FD_CLOEXEC in
      case F_SETFD sockfd flags s of (_, s) \<Rightarrow> s)"

text \<open>The functions that make descriptors; \<open>valgrind\<close> is the macro.\<close>

definition create_nonblocking :: "bool \<Rightarrow> errno + int \<Rightarrow> sys \<Rightarrow> int \<times> sys" where
  "create_nonblocking valgrind answer s =
     (if valgrind then case sys_new answer False False s of (sockfd, s) \<Rightarrow> (sockfd, setNonBlockAndCloseOnExec sockfd s)
      else sys_new answer True True s)"

definition create_blocking :: "bool \<Rightarrow> errno + int \<Rightarrow> sys \<Rightarrow> int \<times> sys" where
  "create_blocking valgrind answer s =
     (if valgrind then case sys_new answer False False s of (sockfd, s) \<Rightarrow> (sockfd, setCloseOnExec sockfd s)
      else sys_new answer False True s)"

definition accept_flags :: "bool \<Rightarrow> errno + int \<Rightarrow> sys \<Rightarrow> int \<times> sys" where
  "accept_flags valgrind answer s =
     (if valgrind then case sys_new answer False False s of (connfd, s) \<Rightarrow> (connfd, setNonBlockAndCloseOnExec connfd s)
      else sys_new answer True True s)"


section \<open>What they do\<close>

lemmas fcntl_defs = F_GETFL_def F_SETFL_def F_GETFD_def F_SETFD_def

text \<open>Writing flags back with some bits added keeps all the other bits, also those that cannot be changed.\<close>

lemma setfl_keeps: "(f AND NOT m) OR ((f OR b) AND m) = f OR (b AND m)" for f b m :: "32 word"
  by (rule bit_word_eqI) (auto simp: bit_or_iff bit_and_iff bit_not_iff)

lemma mask_nonblock: "O_NONBLOCK AND SETFL_MASK = O_NONBLOCK"
  by (simp add: O_NONBLOCK_def SETFL_MASK_def)

lemma set_flags_open:
  assumes "fds s fd = Some e"
  shows "setNonBlockAndCloseOnExec fd s = s\<lparr>fds := (fds s)(fd \<mapsto>
      e\<lparr>status_flags := status_flags e OR O_NONBLOCK, descr_flags := (descr_flags e OR FD_CLOEXEC) AND FD_CLOEXEC\<rparr>)\<rparr>"
    and "setCloseOnExec fd s = s\<lparr>fds := (fds s)(fd \<mapsto> e\<lparr>descr_flags := (descr_flags e OR FD_CLOEXEC) AND FD_CLOEXEC\<rparr>)\<rparr>"
proof -
  have "(f AND NOT SETFL_MASK) OR (f AND SETFL_MASK) = f" for f using setfl_keeps [of f SETFL_MASK 0] by simp
  with assms show "setCloseOnExec fd s = s\<lparr>fds := (fds s)(fd \<mapsto> e\<lparr>descr_flags := (descr_flags e OR FD_CLOEXEC) AND FD_CLOEXEC\<rparr>)\<rparr>"
    by (simp add: setCloseOnExec_def fcntl_defs Let_def)
  show "setNonBlockAndCloseOnExec fd s = s\<lparr>fds := (fds s)(fd \<mapsto>
      e\<lparr>status_flags := status_flags e OR O_NONBLOCK, descr_flags := (descr_flags e OR FD_CLOEXEC) AND FD_CLOEXEC\<rparr>)\<rparr>"
    using assms setfl_keeps [of _ SETFL_MASK O_NONBLOCK]
    by (simp add: setNonBlockAndCloseOnExec_def fcntl_defs mask_nonblock Let_def)
qed

lemma set_flags_bad:
  assumes "fds s fd = None"
  shows "setNonBlockAndCloseOnExec fd s = s\<lparr>errno_var := EBADF\<rparr>" and "setCloseOnExec fd s = s\<lparr>errno_var := EBADF\<rparr>"
  using assms by (simp_all add: setNonBlockAndCloseOnExec_def setCloseOnExec_def fcntl_defs Let_def)


section \<open>Properties\<close>

text \<open>
  Both ways of compiling make the same descriptors: whatever descriptor the kernel gives, the two calls for each of a
  nonblocking socket, a blocking socket and an accepted connection leave the same table, and every other descriptor
  and \<open>errno\<close> as they were. When the kernel gives none, both return \<open>-1\<close> and change no descriptor, but they differ in the
  error: the flags are set on descriptor \<open>-1\<close> before \<open>errno\<close> is looked at, which leaves \<open>EBADF\<close> there instead of the
  error of the call.
\<close>

theorem builds_agree:
  "create_nonblocking True (Inr fd) s = create_nonblocking False (Inr fd) s \<and>
   create_blocking True (Inr fd) s = create_blocking False (Inr fd) s \<and>
   accept_flags True (Inr fd) s = accept_flags False (Inr fd) s \<and>
   (fds s (- 1) = None \<longrightarrow>
      accept_flags False (Inl e) s = (- 1, s\<lparr>errno_var := e\<rparr>) \<and> accept_flags True (Inl e) s = (- 1, s\<lparr>errno_var := EBADF\<rparr>))"
  by (auto simp: create_nonblocking_def create_blocking_def accept_flags_def sys_new_def set_flags_open set_flags_bad FD_CLOEXEC_def)

theorem builds_agree_witness:
  "accept_flags True (Inl EMFILE) \<lparr>fds = Map.empty, errno_var = E_OK\<rparr> = (- 1, \<lparr>fds = Map.empty, errno_var = EBADF\<rparr>)"
  using builds_agree [of 5 "\<lparr>fds = Map.empty, errno_var = E_OK\<rparr>" EMFILE] by simp

end
