(* ===== verification/Threads.thy ===== *)
theory Threads
  imports Prelude
begin

text \<open>
  The threading primitives of \<^verbatim>\<open>base\<close>: \<^verbatim>\<open>Atomic.h\<close>, \<^verbatim>\<open>CurrentThread.h\<close> and \<^verbatim>\<open>Thread.cpp\<close>, \<^verbatim>\<open>Mutex.h\<close> and
  \<^verbatim>\<open>Condition.h\<close>. A call that would block has the value \<open>None\<close>; the scheduler takes it again later. The
  thread number that the kernel gives a thread is an argument.
\<close>

section \<open>Atomic integers\<close>

text \<open>
  \<open>AtomicIntegerT\<close> at any width: each operation is one indivisible step on the value and returns its result
  with the new value. The builtins wrap around.
\<close>

definition atomic_get :: "'a::len word \<Rightarrow> 'a word \<times> 'a word" where
  "atomic_get v = (v, if v = 0 then 0 else v)"

definition getAndAddT :: "'a::len word \<Rightarrow> 'a word \<Rightarrow> 'a word \<times> 'a word" where
  "getAndAddT x v = (v, v + x)"

definition addAndGet :: "'a::len word \<Rightarrow> 'a word \<Rightarrow> 'a word \<times> 'a word" where
  "addAndGet x v = (v + x, v + x)"

definition incrementAndGet :: "'a::len word \<Rightarrow> 'a word \<times> 'a word" where
  "incrementAndGet v = (v + 1, v + 1)"

definition decrementAndGet :: "'a::len word \<Rightarrow> 'a word \<times> 'a word" where
  "decrementAndGet v = (v - 1, v - 1)"

definition atomic_add :: "'a::len word \<Rightarrow> 'a word \<Rightarrow> 'a word" where
  "atomic_add x v = v + x"

definition atomic_increment :: "'a::len word \<Rightarrow> 'a word" where
  "atomic_increment v = v + 1"

definition atomic_decrement :: "'a::len word \<Rightarrow> 'a word" where
  "atomic_decrement v = v - 1"

definition getAndSet :: "'a::len word \<Rightarrow> 'a word \<Rightarrow> 'a word \<times> 'a word" where
  "getAndSet newValue v = (v, newValue)"

text \<open>The answers to \<open>n\<close> calls of \<open>incrementAndGet\<close>, whichever threads make them.\<close>

fun increments :: "nat \<Rightarrow> 'a::len word \<Rightarrow> 'a word list" where
  "increments 0 v = []"
| "increments (Suc n) v = (case incrementAndGet v of (r, v) \<Rightarrow> r # increments n v)"

lemma increments_eq: "increments n v = map (\<lambda>k. v + word_of_nat (Suc k)) [0..<n]"
proof (induction n arbitrary: v)
  case (Suc n)
  have "[0..<Suc n] = 0 # map Suc [0..<n]" by (simp add: map_Suc_upt upt_conv_Cons del: upt_Suc)
  with Suc show ?case by (simp add: incrementAndGet_def algebra_simps del: upt_Suc)
qed simp

lemma length_increments [simp]: "length (increments n v) = n"
  by (simp add: increments_eq)


section \<open>CurrentThread\<close>

text \<open>The thread-local variables.\<close>

record tls =
  cachedTid :: int
  tidString :: string
  threadName :: string

definition new_tls :: tls where
  "new_tls = \<lparr>cachedTid = 0, tidString = [], threadName = ''unknown''\<rparr>"

text \<open>The conversion \<^verbatim>\<open>"%5d "\<close>.\<close>

definition show_5d :: "int \<Rightarrow> string" where
  "show_5d n = replicate (5 - length (show_int n)) CHR '' '' @ show_int n @ '' ''"

definition cacheTid :: "int \<Rightarrow> tls \<Rightarrow> tls res" where
  "cacheTid ktid t =
     (if cachedTid t = 0 then
        let t = t\<lparr>cachedTid := ktid\<rparr>;
            n = length (show_5d (cachedTid t));
            t = t\<lparr>tidString := snprintf 32 (show_5d (cachedTid t))\<rparr>
        in cassert (n = 6) (Inr t)
      else Inr t)"

definition tid :: "int \<Rightarrow> tls \<Rightarrow> (int \<times> tls) res" where
  "tid ktid t =
     res_bind (if cachedTid t = 0 then cacheTid ktid t else Inr t) (\<lambda>t. Inr (cachedTid t, t))"

definition isMainThread :: "int \<Rightarrow> int \<Rightarrow> tls \<Rightarrow> (bool \<times> tls) res" where
  "isMainThread pid ktid t = res_bind (tid ktid t) (\<lambda>(n, t). Inr (n = pid, t))"

text \<open>What runs before \<^verbatim>\<open>main\<close>, and in the child of a \<^verbatim>\<open>fork\<close>.\<close>

definition ThreadNameInitializer :: "int \<Rightarrow> tls \<Rightarrow> tls res" where
  "ThreadNameInitializer ktid t = res_bind (tid ktid (t\<lparr>threadName := ''main''\<rparr>)) (\<lambda>(_, t). Inr t)"

definition afterFork :: "int \<Rightarrow> tls \<Rightarrow> tls res" where
  "afterFork ktid t = res_bind (tid ktid (t\<lparr>cachedTid := 0, threadName := ''main''\<rparr>)) (\<lambda>(_, t). Inr t)"

lemma length_show_nat_iff: "length (show_nat n) \<le> Suc k \<longleftrightarrow> n < 10 ^ Suc k"
proof (induction k arbitrary: n)
  case 0
  have "length (show_nat (n div 10)) \<noteq> 0" by simp
  then show ?case by (auto simp: show_nat.simps [of n])
next
  case (Suc k)
  show ?case
  proof (cases "n < 10")
    case True
    have "(10::nat) \<le> 10 ^ Suc (Suc k)" by simp
    then have "n < 10 ^ Suc (Suc k)" using True by linarith
    with True show ?thesis by (simp add: show_nat.simps [of n])
  next
    case False
    then show ?thesis using Suc.IH [of "n div 10"] by (simp add: show_nat.simps [of n] div_less_iff_less_mult mult.commute)
  qed
qed

lemma show_5d_length: "0 \<le> n \<Longrightarrow> length (show_5d n) = 6 \<longleftrightarrow> n < 100000"
  using length_show_nat_iff [of "nat n" 4] by (auto simp: show_5d_def show_int_def nat_less_iff)


section \<open>Thread\<close>

text \<open>\<open>created\<close> says whether \<^verbatim>\<open>pthread_create\<close> succeeded: the code only reports a failure.\<close>

record Thread =
  th_started :: bool
  th_created :: bool
  th_tid :: int
  th_name :: string

definition new_Thread :: "string \<Rightarrow> 32 word \<Rightarrow> Thread \<times> 32 word" where
  "new_Thread n numCreated =
     (\<lparr>th_started = False, th_created = False, th_tid = 0, th_name = n\<rparr>, atomic_increment numCreated)"

definition thread_start :: "bool \<Rightarrow> Thread \<Rightarrow> Thread res" where
  "thread_start created t = cassert (\<not> th_started t) (Inr (t\<lparr>th_started := True, th_created := created\<rparr>))"

text \<open>\<^verbatim>\<open>pthread_join\<close> of a thread identifier that was never set is undefined; otherwise it blocks until the thread has finished.\<close>

definition thread_join :: "bool \<Rightarrow> Thread \<Rightarrow> Thread option res" where
  "thread_join finished t =
     cassert (th_started t)
       (if \<not> th_created t then Inl UndefinedBehaviour else Inr (if finished then Some t else None))"

text \<open>\<open>func\<close> is the thread's function; \<open>None\<close> as its result is an exception, which ends the program.\<close>

definition runInThread :: "int \<Rightarrow> ('s \<Rightarrow> 's option) \<Rightarrow> Thread \<times> tls \<times> 's \<Rightarrow> ((Thread \<times> tls \<times> 's) \<times> bool) res" where
  "runInThread ktid func st =
     (case st of (t, l, s) \<Rightarrow>
      res_bind (tid ktid l) (\<lambda>(n, l).
      let t = t\<lparr>th_tid := n\<rparr>; l = l\<lparr>threadName := th_name t\<rparr> in
      Inr (case func s of
             Some s \<Rightarrow> ((t, l\<lparr>threadName := ''finished''\<rparr>, s), True)
           | None \<Rightarrow> ((t, l\<lparr>threadName := ''crashed''\<rparr>, s), False))))"


section \<open>Mutex and condition variable\<close>

text \<open>
  \<open>owner\<close> is the state of the \<^verbatim>\<open>pthread_mutex_t\<close>, \<open>holder\<close> the member of \<^verbatim>\<open>MutexLock\<close>; \<open>waiting\<close> are the threads
  blocked in \<^verbatim>\<open>pthread_cond_wait\<close>, \<open>woken\<close> those that have been woken and want the mutex back.
\<close>

record sync =
  owner :: "int option"
  holder :: int
  waiting :: "int set"
  woken :: "int set"

definition new_sync :: sync where
  "new_sync = \<lparr>owner = None, holder = 0, waiting = {}, woken = {}\<rparr>"

definition mutex_lock :: "int \<Rightarrow> sync \<Rightarrow> sync option" where
  "mutex_lock t m = (if owner m = None then Some (m\<lparr>owner := Some t, holder := t\<rparr>) else None)"

definition mutex_unlock :: "sync \<Rightarrow> sync" where
  "mutex_unlock m = m\<lparr>holder := 0, owner := None\<rparr>"

definition destroy_mutex :: "sync \<Rightarrow> sync res" where
  "destroy_mutex m = cassert (holder m = 0) (cassert (owner m = None) (Inr m))"

definition isLockedByThisThread :: "int \<Rightarrow> sync \<Rightarrow> bool" where
  "isLockedByThisThread t m \<longleftrightarrow> holder m = t"

definition assertLocked :: "int \<Rightarrow> sync \<Rightarrow> sync res" where
  "assertLocked t m = cassert (isLockedByThisThread t m) (Inr m)"

text \<open>\<^verbatim>\<open>wait()\<close> in two parts: giving the mutex up, and returning with it. Neither touches \<open>holder_\<close>.\<close>

definition cond_wait :: "int \<Rightarrow> sync \<Rightarrow> sync" where
  "cond_wait t m = m\<lparr>owner := None, waiting := insert t (waiting m)\<rparr>"

definition cond_return :: "int \<Rightarrow> sync \<Rightarrow> sync option" where
  "cond_return t m = (if t \<in> woken m \<and> owner m = None then Some (m\<lparr>owner := Some t, woken := woken m - {t}\<rparr>) else None)"

text \<open>\<^verbatim>\<open>notify()\<close> wakes one waiting thread, \<open>t\<close>, if there is one; \<^verbatim>\<open>notifyAll()\<close> all of them.\<close>

definition cond_notify :: "int \<Rightarrow> sync \<Rightarrow> sync" where
  "cond_notify t m = (if t \<in> waiting m then m\<lparr>waiting := waiting m - {t}, woken := insert t (woken m)\<rparr> else m)"

definition cond_notifyAll :: "sync \<Rightarrow> sync" where
  "cond_notifyAll m = m\<lparr>waiting := {}, woken := woken m \<union> waiting m\<rparr>"

text \<open>
  The time at which \<^verbatim>\<open>waitForSeconds\<close> gives up, and its answer: \<open>timedwait\<close> says whether
  \<^verbatim>\<open>pthread_cond_timedwait\<close> with that deadline returns \<^verbatim>\<open>ETIMEDOUT\<close>.
\<close>

definition wait_deadline :: "int \<Rightarrow> int \<times> int \<Rightarrow> int \<times> int" where
  "wait_deadline seconds clock = (case clock of (tv_sec, tv_nsec) \<Rightarrow> (tv_sec + seconds, tv_nsec))"

definition waitForSeconds :: "(int \<times> int \<Rightarrow> bool) \<Rightarrow> int \<Rightarrow> int \<times> int \<Rightarrow> bool" where
  "waitForSeconds timedwait seconds clock = timedwait (wait_deadline seconds clock)"


section \<open>Properties\<close>

text \<open>
  The numbers that \<open>incrementAndGet\<close> hands out, as those of timers, are all different for as many calls as
  the type has values, in whatever order the threads make them, and not for one more.
\<close>

theorem atomic_ids_distinct: "distinct (increments n (v :: 'a::len word)) \<longleftrightarrow> n \<le> 2 ^ LENGTH('a)"
proof
  assume "distinct (increments n v)"
  then have "card (set (increments n v)) = n" by (simp add: distinct_card)
  moreover have "card (set (increments n v)) \<le> card (UNIV :: 'a word set)" by (intro card_mono) simp_all
  ultimately show "n \<le> 2 ^ LENGTH('a)" by (simp add: card_word)
next
  assume le: "n \<le> 2 ^ LENGTH('a)"
  have "inj_on (\<lambda>k. v + word_of_nat (Suc k)) {0..<n}"
  proof (rule inj_onI)
    fix j k assume *: "j \<in> {0..<n}" "k \<in> {0..<n}" "v + word_of_nat (Suc j) = v + word_of_nat (Suc k)"
    then have "(word_of_nat j :: 'a word) = word_of_nat k" by simp
    then have "unat (word_of_nat j :: 'a word) = unat (word_of_nat k :: 'a word)" by (rule arg_cong)
    moreover have "j < 2 ^ LENGTH('a)" "k < 2 ^ LENGTH('a)" using * le by simp_all
    ultimately show "j = k" by (simp only: unat_word_of_nat_id)
  qed
  then show "distinct (increments n v)" by (simp add: increments_eq distinct_map)
qed

text \<open>
  The program ends before \<open>main\<close> when the kernel gives it a number of six digits or more: \<open>cacheTid\<close>
  asserts that the number prints in five characters, and succeeds exactly below 100000.
\<close>

theorem tid_five_digits:
  assumes "0 < ktid"
  shows "ThreadNameInitializer ktid new_tls =
     (if ktid < 100000 then Inr \<lparr>cachedTid = ktid, tidString = show_5d ktid, threadName = ''main''\<rparr> else Inl AssertFail)"
  using show_5d_length [of ktid] assms
  by (auto simp: ThreadNameInitializer_def tid_def cacheTid_def new_tls_def Let_def snprintf_def)

theorem tid_five_digits_witness: "ThreadNameInitializer 100000 new_tls = Inl AssertFail"
  using tid_five_digits [of 100000] by simp

end
