(* ===== verification/EventLoopThread.thy ===== *)
theory EventLoopThread
  imports Threads
begin

text \<open>
  \<^verbatim>\<open>base/src/EventLoopThread.cpp\<close>: a thread that runs an event loop. The object is shared by the thread that
  created it (\<open>p\<close>) and the new thread (\<open>c\<close>): \<open>startLoop\<close> waits, under the mutex and the condition variable, until
  \<open>threadFunc\<close> has published the address \<open>l\<close> of its loop; the destructor asks the loop to quit and joins the
  thread. Each function is a sequence of atomic steps with a position of its thread; \<open>None\<close> means that the step
  cannot be taken now. The condition variable may wake a thread without a notification (\<open>Spurious\<close>).
\<close>

section \<open>State\<close>

datatype parent_pc = Idle | Starting | Testing | Waiting | Leaving | Reading | Returned "nat option" | Joining | Gone

datatype child_pc = NotRunning | Fresh | Built | Locked | Published | Notified | Unlocked | Looping | Finished

text \<open>\<open>quit_set\<close> is the member \<open>quit_\<close> of the loop.\<close>

record EventLoopThread =
  sy :: sync
  loop_ptr :: "nat option"
  exiting :: bool
  thread :: Thread
  quit_set :: bool
  parent :: parent_pc
  child :: child_pc

definition new_EventLoopThread :: EventLoopThread where
  "new_EventLoopThread =
     \<lparr>sy = new_sync, loop_ptr = None, exiting = False, thread = fst (new_Thread [] 0), quit_set = False,
      parent = Idle, child = NotRunning\<rparr>"


section \<open>Steps\<close>

text \<open>\<open>Start ok\<close> is the call of \<^verbatim>\<open>thread_.start()\<close>, where \<open>ok\<close> says whether the system made the thread.\<close>

datatype start_act = Start bool | PLock | PTest | PReturn | Spurious | PUnlock | PRead

fun startLoop :: "int \<Rightarrow> start_act \<Rightarrow> EventLoopThread \<Rightarrow> EventLoopThread option" where
  "startLoop p (Start ok) s =
     (if parent s = Idle then
        case thread_start ok (thread s) of
          Inr t \<Rightarrow> Some (s\<lparr>thread := t, parent := Starting, child := (if ok then Fresh else NotRunning)\<rparr>)
        | Inl _ \<Rightarrow> None
      else None)"
| "startLoop p PLock s =
     (if parent s = Starting then map_option (\<lambda>m. s\<lparr>sy := m, parent := Testing\<rparr>) (mutex_lock p (sy s)) else None)"
| "startLoop p PTest s =
     (if parent s = Testing then
        Some (if loop_ptr s = None then s\<lparr>sy := cond_wait p (sy s), parent := Waiting\<rparr> else s\<lparr>parent := Leaving\<rparr>)
      else None)"
| "startLoop p PReturn s =
     (if parent s = Waiting then map_option (\<lambda>m. s\<lparr>sy := m, parent := Testing\<rparr>) (cond_return p (sy s)) else None)"
| "startLoop p Spurious s =
     (if parent s = Waiting \<and> p \<in> waiting (sy s) then Some (s\<lparr>sy := cond_notify p (sy s)\<rparr>) else None)"
| "startLoop p PUnlock s = (if parent s = Leaving then Some (s\<lparr>sy := mutex_unlock (sy s), parent := Reading\<rparr>) else None)"
| "startLoop p PRead s = (if parent s = Reading then Some (s\<lparr>parent := Returned (loop_ptr s)\<rparr>) else None)"

text \<open>
  \<open>CBuild\<close> makes the loop and runs the init callback; \<open>CEnter\<close> is the entry of \<^verbatim>\<open>EventLoop::loop\<close>, which clears
  \<open>quit_\<close>, and \<open>CLeave\<close> its end, when it finds \<open>quit_\<close> set.
\<close>

datatype func_act = CBuild | CLock | CPublish | CNotify | CUnlock | CEnter | CLeave

fun threadFunc :: "int \<Rightarrow> int \<Rightarrow> nat \<Rightarrow> func_act \<Rightarrow> EventLoopThread \<Rightarrow> EventLoopThread option" where
  "threadFunc p c l CBuild s = (if child s = Fresh then Some (s\<lparr>child := Built\<rparr>) else None)"
| "threadFunc p c l CLock s =
     (if child s = Built then map_option (\<lambda>m. s\<lparr>sy := m, child := Locked\<rparr>) (mutex_lock c (sy s)) else None)"
| "threadFunc p c l CPublish s = (if child s = Locked then Some (s\<lparr>loop_ptr := Some l, child := Published\<rparr>) else None)"
| "threadFunc p c l CNotify s = (if child s = Published then Some (s\<lparr>sy := cond_notify p (sy s), child := Notified\<rparr>) else None)"
| "threadFunc p c l CUnlock s = (if child s = Notified then Some (s\<lparr>sy := mutex_unlock (sy s), child := Unlocked\<rparr>) else None)"
| "threadFunc p c l CEnter s = (if child s = Unlocked then Some (s\<lparr>quit_set := False, child := Looping\<rparr>) else None)"
| "threadFunc p c l CLeave s = (if child s = Looping \<and> quit_set s then Some (s\<lparr>child := Finished\<rparr>) else None)"

text \<open>The destructor: \<open>loop_->quit()\<close> through a null pointer is undefined.\<close>

definition destroy_quit :: "EventLoopThread \<Rightarrow> EventLoopThread res" where
  "destroy_quit s =
     (case loop_ptr s of
        None \<Rightarrow> Inl UndefinedBehaviour
      | Some _ \<Rightarrow> Inr (s\<lparr>exiting := True, quit_set := True, parent := Joining\<rparr>))"

definition destroy_join :: "EventLoopThread \<Rightarrow> EventLoopThread option res" where
  "destroy_join s =
     res_bind (thread_join (child s = Finished) (thread s)) (\<lambda>r.
     Inr (map_option (\<lambda>t. s\<lparr>thread := t, parent := Gone\<rparr>) r))"

datatype act = StartLoop start_act | ThreadFunc func_act | Quit | Join

fun elt_do :: "int \<Rightarrow> int \<Rightarrow> nat \<Rightarrow> act \<Rightarrow> EventLoopThread \<Rightarrow> EventLoopThread option" where
  "elt_do p c l (StartLoop a) s = startLoop p a s"
| "elt_do p c l (ThreadFunc a) s = threadFunc p c l a s"
| "elt_do p c l Quit s =
     (case parent s of Returned _ \<Rightarrow> (case destroy_quit s of Inr s \<Rightarrow> Some s | Inl _ \<Rightarrow> None) | _ \<Rightarrow> None)"
| "elt_do p c l Join s =
     (if parent s = Joining then (case destroy_join s of Inr r \<Rightarrow> r | Inl _ \<Rightarrow> None) else None)"

inductive elt_reach :: "int \<Rightarrow> int \<Rightarrow> nat \<Rightarrow> EventLoopThread \<Rightarrow> bool" for p c l where
  init: "elt_reach p c l new_EventLoopThread"
| step: "elt_reach p c l s \<Longrightarrow> elt_do p c l a s = Some s' \<Longrightarrow> elt_reach p c l s'"


section \<open>Invariant\<close>

fun published :: "child_pc \<Rightarrow> bool" where
  "published pc = (case pc of Published \<Rightarrow> True | Notified \<Rightarrow> True | Unlocked \<Rightarrow> True | Looping \<Rightarrow> True | Finished \<Rightarrow> True | _ \<Rightarrow> False)"

fun notified :: "child_pc \<Rightarrow> bool" where
  "notified pc = (case pc of Notified \<Rightarrow> True | Unlocked \<Rightarrow> True | Looping \<Rightarrow> True | Finished \<Rightarrow> True | _ \<Rightarrow> False)"

fun child_in :: "child_pc \<Rightarrow> bool" where
  "child_in pc = (case pc of Locked \<Rightarrow> True | Published \<Rightarrow> True | Notified \<Rightarrow> True | _ \<Rightarrow> False)"

fun parent_in :: "parent_pc \<Rightarrow> bool" where
  "parent_in pc = (case pc of Testing \<Rightarrow> True | Leaving \<Rightarrow> True | _ \<Rightarrow> False)"

fun parent_done :: "parent_pc \<Rightarrow> bool" where
  "parent_done pc = (case pc of Leaving \<Rightarrow> True | Reading \<Rightarrow> True | Returned v \<Rightarrow> True | Joining \<Rightarrow> True | Gone \<Rightarrow> True | _ \<Rightarrow> False)"

fun returned_ok :: "nat \<Rightarrow> parent_pc \<Rightarrow> bool" where
  "returned_ok l (Returned v) \<longleftrightarrow> v = Some l"
| "returned_ok l _ \<longleftrightarrow> True"

declare published.simps [simp del] notified.simps [simp del] child_in.simps [simp del] parent_in.simps [simp del] parent_done.simps [simp del]

lemmas pc_simps = published.simps notified.simps child_in.simps parent_in.simps parent_done.simps

lemma pc_eval [simp]:
  "\<not> published NotRunning" "\<not> published Fresh" "\<not> published Built" "\<not> published Locked" "published Published"
  "published Notified" "published Unlocked" "published Looping" "published Finished"
  "\<not> notified NotRunning" "\<not> notified Fresh" "\<not> notified Built" "\<not> notified Locked" "\<not> notified Published"
  "notified Notified" "notified Unlocked" "notified Looping" "notified Finished"
  "\<not> child_in NotRunning" "\<not> child_in Fresh" "\<not> child_in Built" "child_in Locked" "child_in Published" "child_in Notified"
  "\<not> child_in Unlocked" "\<not> child_in Looping" "\<not> child_in Finished"
  "\<not> parent_in Idle" "\<not> parent_in Starting" "parent_in Testing" "\<not> parent_in Waiting" "parent_in Leaving" "\<not> parent_in Reading"
  "\<not> parent_in (Returned v)" "\<not> parent_in Joining" "\<not> parent_in Gone"
  "\<not> parent_done Idle" "\<not> parent_done Starting" "\<not> parent_done Testing" "\<not> parent_done Waiting" "parent_done Leaving"
  "parent_done Reading" "parent_done (Returned v)" "parent_done Joining" "parent_done Gone"
  by (simp_all add: pc_simps)

lemma notified_published: "notified pc \<Longrightarrow> published pc"
  by (cases pc) simp_all

text \<open>Who owns the mutex.\<close>

definition mutex_ok :: "int \<Rightarrow> int \<Rightarrow> EventLoopThread \<Rightarrow> bool" where
  [inv_simps]: "mutex_ok p c s \<longleftrightarrow>
     owner (sy s) = (if parent_in (parent s) then Some p else if child_in (child s) then Some c else None) \<and>
     (parent_in (parent s) \<longrightarrow> \<not> child_in (child s))"

text \<open>Who waits: nobody any more once the notification has been sent.\<close>

definition wait_ok :: "int \<Rightarrow> EventLoopThread \<Rightarrow> bool" where
  [inv_simps]: "wait_ok p s \<longleftrightarrow>
     waiting (sy s) \<union> woken (sy s) \<subseteq> {p} \<and> waiting (sy s) \<inter> woken (sy s) = {} \<and>
     (parent s = Waiting \<longleftrightarrow> p \<in> waiting (sy s) \<union> woken (sy s)) \<and> (p \<in> waiting (sy s) \<longrightarrow> \<not> notified (child s))"

text \<open>What has been published and returned, and the state of the thread object.\<close>

definition publish_ok :: "nat \<Rightarrow> EventLoopThread \<Rightarrow> bool" where
  [inv_simps]: "publish_ok l s \<longleftrightarrow>
     loop_ptr s = (if published (child s) then Some l else None) \<and>
     (parent_done (parent s) \<longrightarrow> published (child s)) \<and> returned_ok l (parent s)"

definition thread_ok :: "EventLoopThread \<Rightarrow> bool" where
  [inv_simps]: "thread_ok s \<longleftrightarrow>
     (th_started (thread s) \<longleftrightarrow> parent s \<noteq> Idle) \<and> (th_created (thread s) \<longleftrightarrow> child s \<noteq> NotRunning) \<and>
     (parent s = Idle \<longrightarrow> child s = NotRunning)"

definition elt_inv :: "int \<Rightarrow> int \<Rightarrow> nat \<Rightarrow> EventLoopThread \<Rightarrow> bool" where
  [inv_simps]: "elt_inv p c l s \<longleftrightarrow> mutex_ok p c s \<and> wait_ok p s \<and> publish_ok l s \<and> thread_ok s"

lemmas elt_defs = thread_start_def mutex_lock_def mutex_unlock_def cond_wait_def cond_return_def cond_notify_def

lemma inv_init: "elt_inv p c l new_EventLoopThread"
  by (simp add: inv_simps new_EventLoopThread_def new_sync_def new_Thread_def)

lemma startLoop_mutex: "mutex_ok p c s \<Longrightarrow> thread_ok s \<Longrightarrow> startLoop p a s = Some s' \<Longrightarrow> mutex_ok p c s'"
  by (cases a) (auto simp: mutex_ok_def thread_ok_def elt_defs cassert_def split: if_splits)

lemma startLoop_wait:
  assumes "wait_ok p s" and "publish_ok l s" and "thread_ok s" and "startLoop p a s = Some s'"
  shows "wait_ok p s'"
proof (cases a)
  case PTest
  with assms notified_published [of "child s"] show ?thesis
    by (auto simp: wait_ok_def publish_ok_def cond_wait_def split: if_splits)
qed (use assms(1,3,4) in \<open>auto simp: wait_ok_def thread_ok_def thread_start_def cassert_def mutex_lock_def mutex_unlock_def cond_return_def cond_notify_def split: if_splits\<close>)

lemma startLoop_publish: "publish_ok l s \<Longrightarrow> thread_ok s \<Longrightarrow> startLoop p a s = Some s' \<Longrightarrow> publish_ok l s'"
  by (cases a) (auto simp: publish_ok_def thread_ok_def elt_defs cassert_def split: if_splits)

lemma startLoop_thread: "thread_ok s \<Longrightarrow> startLoop p a s = Some s' \<Longrightarrow> thread_ok s'"
  by (cases a) (auto simp: thread_ok_def elt_defs cassert_def split: if_splits)

lemma threadFunc_mutex: "mutex_ok p c s \<Longrightarrow> threadFunc p c l a s = Some s' \<Longrightarrow> mutex_ok p c s'"
  by (cases a) (auto simp: mutex_ok_def elt_defs split: if_splits)

lemma threadFunc_wait: "wait_ok p s \<Longrightarrow> threadFunc p c l a s = Some s' \<Longrightarrow> wait_ok p s'"
  by (cases a) (auto simp: wait_ok_def elt_defs split: if_splits)

lemma threadFunc_publish: "publish_ok l s \<Longrightarrow> threadFunc p c l a s = Some s' \<Longrightarrow> publish_ok l s'"
  by (cases a) (auto simp: publish_ok_def split: if_splits)

lemma threadFunc_thread: "thread_ok s \<Longrightarrow> threadFunc p c l a s = Some s' \<Longrightarrow> thread_ok s'"
  by (cases a) (auto simp: thread_ok_def split: if_splits)

lemma quit_inv: "elt_inv p c l s \<Longrightarrow> elt_do p c l Quit s = Some s' \<Longrightarrow> elt_inv p c l s'"
  by (auto simp: inv_simps destroy_quit_def split: parent_pc.splits option.splits if_splits)

lemma join_inv: "elt_inv p c l s \<Longrightarrow> elt_do p c l Join s = Some s' \<Longrightarrow> elt_inv p c l s'"
  by (auto simp: inv_simps destroy_join_def thread_join_def cassert_def split: if_splits)

lemma elt_step_inv:
  assumes inv: "elt_inv p c l s" and step: "elt_do p c l a s = Some s'"
  shows "elt_inv p c l s'"
proof (cases a)
  case (StartLoop b)
  with step have "startLoop p b s = Some s'" by simp
  with inv show ?thesis
    using startLoop_mutex startLoop_wait startLoop_publish startLoop_thread unfolding elt_inv_def by metis
next
  case (ThreadFunc b)
  with step have "threadFunc p c l b s = Some s'" by simp
  with inv show ?thesis
    using threadFunc_mutex threadFunc_wait threadFunc_publish threadFunc_thread unfolding elt_inv_def by metis
qed (use assms quit_inv join_inv in blast)+

lemma elt_reach_inv: "elt_reach p c l s \<Longrightarrow> elt_inv p c l s"
  by (induction rule: elt_reach.induct) (blast intro: inv_init elt_step_inv)+


section \<open>Progress\<close>

text \<open>
  How far \<open>startLoop\<close> and \<open>threadFunc\<close> still have to go. A thread that was woken while there is no loop yet has
  been woken spuriously and has to wait again.
\<close>

fun child_rank :: "child_pc \<Rightarrow> nat" where
  "child_rank pc = (case pc of NotRunning \<Rightarrow> 9 | Fresh \<Rightarrow> 8 | Built \<Rightarrow> 7 | Locked \<Rightarrow> 6 | Published \<Rightarrow> 5 | Notified \<Rightarrow> 4
     | Unlocked \<Rightarrow> 3 | Looping \<Rightarrow> 2 | Finished \<Rightarrow> 1)"

definition parent_rank :: "int \<Rightarrow> EventLoopThread \<Rightarrow> nat" where
  "parent_rank p s = (case parent s of
       Idle \<Rightarrow> 8 | Starting \<Rightarrow> 7
     | Testing \<Rightarrow> (if loop_ptr s = None then 5 else 3)
     | Waiting \<Rightarrow> (if p \<in> woken (sy s) \<and> loop_ptr s = None then 6 else 4)
     | Leaving \<Rightarrow> 2 | Reading \<Rightarrow> 1 | _ \<Rightarrow> 0)"

definition rank :: "int \<Rightarrow> EventLoopThread \<Rightarrow> nat" where
  "rank p s = parent_rank p s + child_rank (child s)"

lemma startLoop_rank:
  assumes "wait_ok p s" and "thread_ok s" and "startLoop p a s = Some s'" and "a \<noteq> Spurious" and "a \<noteq> Start False"
  shows "rank p s' < rank p s"
  using assms
  by (cases a) (auto simp: rank_def parent_rank_def wait_ok_def thread_ok_def elt_defs cassert_def split: if_splits)

lemma parent_rank_le:
  assumes "parent s' = parent s" and "loop_ptr s' = loop_ptr s \<and> woken (sy s') = woken (sy s) \<or> loop_ptr s' \<noteq> None"
  shows "parent_rank p s' \<le> parent_rank p s"
  using assms by (cases "parent s") (auto simp: parent_rank_def)

lemma threadFunc_frame:
  assumes "publish_ok l s" and "threadFunc p c l a s = Some s'"
  shows "parent s' = parent s" and "loop_ptr s' = loop_ptr s \<and> woken (sy s') = woken (sy s) \<or> loop_ptr s' \<noteq> None"
    and "child_rank (child s') < child_rank (child s)"
  using assms by (cases a; auto simp: publish_ok_def mutex_lock_def mutex_unlock_def split: if_splits)+

lemma threadFunc_rank:
  assumes "publish_ok l s" and "threadFunc p c l a s = Some s'"
  shows "rank p s' < rank p s"
  using threadFunc_frame(3) [OF assms] parent_rank_le [OF threadFunc_frame(1,2) [OF assms], of p] by (simp add: rank_def)

lemma child_can_step:
  assumes "mutex_ok p c s" and "\<not> parent_in (parent s)" and "child s \<in> {Fresh, Built, Locked, Published, Notified}"
  shows "\<exists>a s'. threadFunc p c l a s = Some s'"
proof -
  have "threadFunc p c l (case child s of Fresh \<Rightarrow> CBuild | Built \<Rightarrow> CLock | Locked \<Rightarrow> CPublish | Published \<Rightarrow> CNotify | _ \<Rightarrow> CUnlock) s \<noteq> None"
    using assms by (auto simp: mutex_ok_def mutex_lock_def)
  then show ?thesis by blast
qed

definition running :: "parent_pc \<Rightarrow> bool" where
  "running pc \<longleftrightarrow> pc \<in> {Starting, Testing, Waiting, Leaving, Reading}"

lemma elt_progress:
  assumes inv: "elt_inv p c l s" and run: "running (parent s)" and ok: "th_created (thread s)"
  shows "(\<exists>a s'. a \<noteq> Spurious \<and> a \<noteq> Start False \<and> startLoop p a s = Some s') \<or> (\<exists>a s'. threadFunc p c l a s = Some s')"
proof -
  have m: "mutex_ok p c s" and w: "wait_ok p s" and nr: "child s \<noteq> NotRunning" using inv ok by (auto simp: elt_inv_def thread_ok_def)
  have free: "owner (sy s) = None" if "\<not> parent_in (parent s)" "\<not> child_in (child s)" using m that by (simp add: mutex_ok_def)
  have step: "\<exists>a s'. threadFunc p c l a s = Some s'" if "\<not> parent_in (parent s)" "child_in (child s)"
    using child_can_step [OF m that(1)] that(2) by (cases "child s") auto
  consider "parent s = Starting" | "parent s = Testing" | "parent s = Waiting" "p \<in> woken (sy s)"
    | "parent s = Waiting" "p \<in> waiting (sy s)" | "parent s = Leaving" | "parent s = Reading"
    using run w by (auto simp: running_def wait_ok_def)
  then show ?thesis
  proof cases
    case 1
    have "startLoop p PLock s \<noteq> None" if "\<not> child_in (child s)" using free that 1 by (simp add: mutex_lock_def)
    with step 1 show ?thesis by fastforce
  next
    case 3
    have "startLoop p PReturn s \<noteq> None" if "\<not> child_in (child s)" using free that 3 by (simp add: cond_return_def)
    with step 3 show ?thesis by fastforce
  next
    case 4
    then have "child s \<in> {Fresh, Built, Locked, Published, Notified}" using w nr by (cases "child s") (auto simp: wait_ok_def)
    with child_can_step [OF m] 4(1) show ?thesis by simp
  next
    case 2
    then have "startLoop p PTest s \<noteq> None" by simp
    then show ?thesis by fastforce
  next
    case 5
    then have "startLoop p PUnlock s \<noteq> None" by simp
    then show ?thesis by fastforce
  next
    case 6
    then have "startLoop p PRead s \<noteq> None" by simp
    then show ?thesis by fastforce
  qed
qed


text \<open>Runs given by their steps.\<close>

fun elt_run :: "int \<Rightarrow> int \<Rightarrow> nat \<Rightarrow> act list \<Rightarrow> EventLoopThread \<Rightarrow> EventLoopThread option" where
  "elt_run p c l [] s = Some s"
| "elt_run p c l (a # as) s = Option.bind (elt_do p c l a s) (elt_run p c l as)"

lemma elt_run_reach: "elt_reach p c l s \<Longrightarrow> elt_run p c l as s = Some s' \<Longrightarrow> elt_reach p c l s'"
proof (induction as arbitrary: s)
  case (Cons a as)
  then obtain s1 where "elt_do p c l a s = Some s1" "elt_run p c l as s1 = Some s'" by (auto split: bind_splits)
  with Cons.IH [of s1] elt_reach.step [OF Cons.prems(1)] show ?case by blast
qed simp

lemmas elt_eval = new_EventLoopThread_def new_sync_def new_Thread_def elt_defs destroy_quit_def


section \<open>Properties\<close>

text \<open>
  C22. \<open>startLoop\<close> returns the address of the new thread's loop, never a null pointer, under every schedule: no
  notification is lost. While it runs and the system has made the thread, one of the two threads can take a
  step, and every step but a spurious wake-up brings both closer to the end, so it returns after at most
  \<open>rank p s\<close> of them.
\<close>

theorem startLoop_returns:
  assumes "elt_reach p c l s"
  shows "(\<forall>v. parent s = Returned v \<longrightarrow> v = Some l) \<and>
         (running (parent s) \<and> th_created (thread s) \<longrightarrow>
            (\<exists>a s'. a \<notin> {StartLoop Spurious, Quit, Join} \<and> elt_do p c l a s = Some s') \<and>
            (\<forall>a s'. a \<notin> {StartLoop Spurious, Quit, Join} \<longrightarrow> elt_do p c l a s = Some s' \<longrightarrow> rank p s' < rank p s))"
proof -
  have inv: "elt_inv p c l s" using elt_reach_inv [OF assms] .
  then have parts: "wait_ok p s" "publish_ok l s" "thread_ok s" by (simp_all add: elt_inv_def)
  have "rank p s' < rank p s" if st: "a \<notin> {StartLoop Spurious, Quit, Join}" "elt_do p c l a s = Some s'" "running (parent s)" for a s'
  proof (cases a)
    case (StartLoop b)
    moreover have "b \<noteq> Start False" using st(2,3) StartLoop by (auto simp: running_def)
    ultimately show ?thesis using startLoop_rank [OF parts(1,3), of b s'] st(1,2) by auto
  next
    case (ThreadFunc b)
    then show ?thesis using threadFunc_rank [OF parts(2), of p c b s'] st(2) by simp
  qed (use st in simp_all)
  moreover have "\<exists>a s'. a \<notin> {StartLoop Spurious, Quit, Join} \<and> elt_do p c l a s = Some s'"
    if "running (parent s)" "th_created (thread s)"
    using elt_progress [OF inv that]
  proof
    assume "\<exists>a s'. a \<noteq> Spurious \<and> a \<noteq> Start False \<and> startLoop p a s = Some s'"
    then obtain a s' where "a \<noteq> Spurious" "startLoop p a s = Some s'" by blast
    then show ?thesis by (intro exI [of _ "StartLoop a"]) simp
  next
    assume "\<exists>a s'. threadFunc p c l a s = Some s'"
    then obtain a s' where "threadFunc p c l a s = Some s'" by blast
    then show ?thesis by (intro exI [of _ "ThreadFunc a"]) simp
  qed
  moreover have "\<forall>v. parent s = Returned v \<longrightarrow> v = Some l" using parts(2) by (auto simp: publish_ok_def)
  ultimately show ?thesis by blast
qed

theorem startLoop_returns_witness:
  "\<exists>s. elt_reach 1 2 9 s \<and> parent s = Waiting \<and> (\<exists>a s'. elt_do 1 2 9 a s = Some s' \<and> rank 1 s' < rank 1 s)"
proof -
  obtain s where s: "elt_run 1 2 9 [StartLoop (Start True), StartLoop PLock, StartLoop PTest] new_EventLoopThread = Some s"
      "parent s = Waiting" "th_created (thread s)"
    by (simp add: elt_eval)
  have r: "elt_reach 1 2 9 s" using elt_run_reach [OF elt_reach.init s(1)] .
  have run: "running (parent s)" using s(2) by (simp add: running_def)
  obtain a s' where "a \<notin> {StartLoop Spurious, Quit, Join}" "elt_do 1 2 9 a s = Some s'" "rank 1 s' < rank 1 s"
    using startLoop_returns [OF r] run s(3) by blast
  with r s(2) show ?thesis by blast
qed

text \<open>
  The destructor may hang: when it asks the loop to quit after \<open>startLoop\<close> returned but before the new thread
  has entered \<open>loop()\<close>, which clears \<open>quit_\<close>, the thread loops on and \<open>join\<close> waits for ever.
\<close>

theorem destructor_may_hang:
  "\<exists>s. elt_reach p c l s \<and> parent s = Joining \<and> child s = Looping \<and> (\<forall>a. elt_do p c l a s = None)"
proof -
  let ?as = "[StartLoop (Start True), ThreadFunc CBuild, ThreadFunc CLock, ThreadFunc CPublish, ThreadFunc CNotify,
      ThreadFunc CUnlock, StartLoop PLock, StartLoop PTest, StartLoop PUnlock, StartLoop PRead, Quit, ThreadFunc CEnter]"
  obtain s where s: "elt_run p c l ?as new_EventLoopThread = Some s" "parent s = Joining" "child s = Looping"
      "\<not> quit_set s" "th_started (thread s)" "th_created (thread s)"
    by (simp add: elt_eval)
  have "elt_do p c l a s = None" for a
  proof (cases a)
    case (StartLoop b)
    then show ?thesis using s by (cases b) simp_all
  next
    case (ThreadFunc b)
    then show ?thesis using s by (cases b) simp_all
  qed (use s in \<open>simp_all add: destroy_join_def thread_join_def\<close>)
  with elt_run_reach [OF elt_reach.init s(1)] s(2,3) show ?thesis by blast
qed

text \<open>When the system cannot make the thread, \<open>startLoop\<close> waits for ever: the failure is only printed.\<close>

theorem failed_start_hangs:
  assumes "elt_reach p c l s" and "\<not> th_created (thread s)"
  shows "parent s \<in> {Idle, Starting, Testing, Waiting}"
proof -
  have "\<not> published (child s)" using elt_reach_inv [OF assms(1)] assms(2) by (simp add: elt_inv_def thread_ok_def)
  then have "\<not> parent_done (parent s)" using elt_reach_inv [OF assms(1)] by (auto simp: elt_inv_def publish_ok_def)
  then show ?thesis by (cases "parent s") auto
qed

text \<open>
  After a wait the mutex no longer knows its holder: \<open>Condition::wait\<close> gives the mutex up and takes it back without
  setting \<open>holder_\<close>, so \<open>assertLocked\<close> fails in the thread that holds the mutex.
\<close>

theorem holder_lost:
  assumes "p \<noteq> 0"
  shows "\<exists>s. elt_reach p c l s \<and> owner (sy s) = Some p \<and> assertLocked p (sy s) = Inl AssertFail"
proof -
  let ?as = "[StartLoop (Start True), StartLoop PLock, StartLoop PTest, ThreadFunc CBuild, ThreadFunc CLock,
      ThreadFunc CPublish, ThreadFunc CNotify, ThreadFunc CUnlock, StartLoop PReturn]"
  obtain s where s: "elt_run p c l ?as new_EventLoopThread = Some s" "owner (sy s) = Some p" "holder (sy s) = 0"
    by (simp add: elt_eval)
  with elt_run_reach [OF elt_reach.init s(1)] assms show ?thesis
    by (auto simp: assertLocked_def isLockedByThisThread_def)
qed

end
