(* ===== verification/EventLoop.thy ===== *)
theory EventLoop
  imports PollPoller
begin

text \<open>
  \<^verbatim>\<open>base/src/EventLoop.cpp\<close>: the reactor of a thread. Its state extends the poller's. Functors that other
  threads hand over are kept in \<open>pendingFunctors\<close>, and the counter of the eventfd that interrupts
  \<^verbatim>\<open>poll(2)\<close> is \<open>wakeups\<close>. What a functor does is the argument \<open>exec\<close>, what a channel's callback does
  the argument \<open>run\<close>; \<open>inLoop\<close> says whether a call is made by the loop's own thread. The second half of
  the theory lets other threads run in between, as a step relation on the same operations.
\<close>

section \<open>State\<close>

record ('f, 'u) EventLoop = PollPoller +
  looping :: bool
  quit_flag :: bool
  loopHandling :: bool
  callingPendingFunctors :: bool
  iteration :: "64 word"
  activeChannels :: "nat list"
  currentActiveChannel :: "nat option"
  wakeupFd :: int
  wakeups :: nat
  pendingFunctors :: "'f list"
  user :: 'u

text \<open>
  The timer queue's channel, the object at address \<open>1\<close>, is made and enabled first, then the wakeup channel, the
  object at address \<open>0\<close>. \<open>tfd\<close> and \<open>wfd\<close> are the descriptors that \<^verbatim>\<open>timerfd_create\<close> and \<^verbatim>\<open>eventfd\<close> returned;
  without the second one the program aborts.
\<close>

definition createEventfd :: "int \<Rightarrow> int res" where
  [simp]: "createEventfd evtfd = cassert (evtfd \<ge> 0) (Inr evtfd)"

definition new_EventLoop :: "int \<Rightarrow> int \<Rightarrow> 'u \<Rightarrow> ('f, 'u) EventLoop res" where
  "new_EventLoop tfd wfd u =
     (let s = \<lparr>heap = [1 \<mapsto> set_callback ReadCB (new_Channel tfd)], pollfds = [], channels = Map.empty,
               looping = False, quit_flag = False, loopHandling = False, callingPendingFunctors = False,
               iteration = 0, activeChannels = [], currentActiveChannel = None, wakeupFd = wfd, wakeups = 0,
               pendingFunctors = [], user = u\<rparr>
      in res_bind (enableReading updateChannel 1 s) (\<lambda>s.
         res_bind (createEventfd wfd) (\<lambda>wfd.
         enableReading updateChannel 0 (s\<lparr>heap := (heap s)(0 \<mapsto> set_callback ReadCB (new_Channel wfd))\<rparr>))))"


section \<open>Operations\<close>

definition wakeup :: "('f, 'u) EventLoop \<Rightarrow> ('f, 'u) EventLoop" where
  "wakeup s = s\<lparr>wakeups := Suc (wakeups s)\<rparr>"

text \<open>The read callback of the wakeup channel: a read of an eventfd takes the whole count.\<close>

definition handleRead_wakeup :: "('f, 'u) EventLoop \<Rightarrow> ('f, 'u) EventLoop" where
  "handleRead_wakeup s = s\<lparr>wakeups := 0\<rparr>"

definition quit :: "bool \<Rightarrow> ('f, 'u) EventLoop \<Rightarrow> ('f, 'u) EventLoop" where
  "quit inLoop s = (let s = s\<lparr>quit_flag := True\<rparr> in if \<not> inLoop then wakeup s else s)"

text \<open>\<open>push_functor\<close> is the part of \<^verbatim>\<open>queueInLoop\<close> under the mutex.\<close>

definition push_functor :: "'f \<Rightarrow> ('f, 'u) EventLoop \<Rightarrow> ('f, 'u) EventLoop" where
  "push_functor f s = s\<lparr>pendingFunctors := pendingFunctors s @ [f]\<rparr>"

definition queueInLoop :: "bool \<Rightarrow> 'f \<Rightarrow> ('f, 'u) EventLoop \<Rightarrow> ('f, 'u) EventLoop" where
  "queueInLoop inLoop f s =
     (let s = push_functor f s in if \<not> inLoop \<or> callingPendingFunctors s then wakeup s else s)"

definition runInLoop ::
  "('f \<Rightarrow> ('f, 'u) EventLoop \<Rightarrow> ('f, 'u) EventLoop res) \<Rightarrow> bool \<Rightarrow> 'f \<Rightarrow> ('f, 'u) EventLoop \<Rightarrow> ('f, 'u) EventLoop res"
where
  "runInLoop exec inLoop f s = (if inLoop then exec f s else Inr (queueInLoop inLoop f s))"

definition take_pending :: "('f, 'u) EventLoop \<Rightarrow> 'f list \<times> ('f, 'u) EventLoop" where
  "take_pending s = (pendingFunctors s, s\<lparr>callingPendingFunctors := True, pendingFunctors := []\<rparr>)"

definition doPendingFunctors ::
  "('f \<Rightarrow> ('f, 'u) EventLoop \<Rightarrow> ('f, 'u) EventLoop res) \<Rightarrow> ('f, 'u) EventLoop \<Rightarrow> ('f, 'u) EventLoop res"
where
  "doPendingFunctors exec s =
     (case take_pending s of (functors, s) \<Rightarrow>
      res_bind (res_fold exec functors s) (\<lambda>s.
      Inr (s\<lparr>callingPendingFunctors := False\<rparr>)))"

definition loop_updateChannel :: "('f, 'u) EventLoop chan_op" where
  "loop_updateChannel a s = updateChannel a s"

definition loop_removeChannel :: "('f, 'u) EventLoop chan_op" where
  "loop_removeChannel a s =
     (if loopHandling s
      then cassert (currentActiveChannel s = Some a \<or> a \<notin> set (activeChannels s)) (removeChannel a s)
      else removeChannel a s)"

text \<open>One round of the loop; \<open>n\<close> and \<open>revs\<close> are what \<^verbatim>\<open>poll(2)\<close> answers.\<close>

definition loop_round ::
  "(nat \<Rightarrow> callback \<Rightarrow> ('f, 'u) EventLoop \<Rightarrow> ('f, 'u) EventLoop res) \<Rightarrow> (nat \<Rightarrow> bool) \<Rightarrow>
   ('f \<Rightarrow> ('f, 'u) EventLoop \<Rightarrow> ('f, 'u) EventLoop res) \<Rightarrow> int \<times> 16 word list \<Rightarrow> ('f, 'u) EventLoop \<Rightarrow> ('f, 'u) EventLoop res"
where
  "loop_round run alive exec answer s =
     (case answer of (n, revs) \<Rightarrow>
      res_bind (poll n revs [] (s\<lparr>activeChannels := []\<rparr>)) (\<lambda>(active, s).
      let s = s\<lparr>activeChannels := active, iteration := iteration s + 1, loopHandling := True\<rparr> in
      res_bind (res_fold (\<lambda>a s. handleEvent run alive a (s\<lparr>currentActiveChannel := Some a\<rparr>)) (activeChannels s) s) (\<lambda>s.
      doPendingFunctors exec (s\<lparr>currentActiveChannel := None, loopHandling := False\<rparr>))))"

text \<open>\<^verbatim>\<open>loop()\<close> with the answers of \<^verbatim>\<open>poll(2)\<close> as a list: \<open>None\<close> is a loop that is still waiting for the next one.\<close>

fun loop_while ::
  "(nat \<Rightarrow> callback \<Rightarrow> ('f, 'u) EventLoop \<Rightarrow> ('f, 'u) EventLoop res) \<Rightarrow> (nat \<Rightarrow> bool) \<Rightarrow>
   ('f \<Rightarrow> ('f, 'u) EventLoop \<Rightarrow> ('f, 'u) EventLoop res) \<Rightarrow> (int \<times> 16 word list) list \<Rightarrow>
   ('f, 'u) EventLoop \<Rightarrow> ('f, 'u) EventLoop res option"
where
  "loop_while run alive exec answers s =
     (if quit_flag s then Some (Inr (s\<lparr>looping := False\<rparr>))
      else case answers of
        [] \<Rightarrow> None
      | answer # answers \<Rightarrow>
          (case loop_round run alive exec answer s of
             Inl e \<Rightarrow> Some (Inl e)
           | Inr s \<Rightarrow> loop_while run alive exec answers s))"

declare loop_while.simps [simp del]

definition loop ::
  "(nat \<Rightarrow> callback \<Rightarrow> ('f, 'u) EventLoop \<Rightarrow> ('f, 'u) EventLoop res) \<Rightarrow> (nat \<Rightarrow> bool) \<Rightarrow>
   ('f \<Rightarrow> ('f, 'u) EventLoop \<Rightarrow> ('f, 'u) EventLoop res) \<Rightarrow> (int \<times> 16 word list) list \<Rightarrow>
   ('f, 'u) EventLoop \<Rightarrow> ('f, 'u) EventLoop res option"
where
  "loop run alive exec answers s =
     (if looping s then Some (Inl AssertFail)
      else loop_while run alive exec answers (s\<lparr>looping := True, quit_flag := False\<rparr>))"


section \<open>Threads\<close>

text \<open>
  Where the loop's thread is: waiting in \<^verbatim>\<open>poll(2)\<close>, handling events, or running the functors it took.
  \<open>pushers\<close> counts the other threads that have pushed a functor and not yet written to the eventfd.
  \<open>pushed\<close> and \<open>ran\<close> record all functors in the order of their pushes and of their runs.
\<close>

datatype 'f phase = Polling | Handling | Running "'f list"

record ('f, 'u) config =
  lp :: "('f, 'u) EventLoop"
  phase :: "'f phase"
  pushers :: nat
  pushed :: "'f list"
  ran :: "'f list"

inductive step :: "('f, 'u) config \<Rightarrow> ('f, 'u) config \<Rightarrow> bool" where
  other_push: "step c (c\<lparr>lp := push_functor f (lp c), pushers := Suc (pushers c), pushed := pushed c @ [f]\<rparr>)"
| other_wakeup: "pushers c = Suc n \<Longrightarrow> step c (c\<lparr>lp := wakeup (lp c), pushers := n\<rparr>)"
| poll_returns: "phase c = Polling \<Longrightarrow> step c (c\<lparr>phase := Handling\<rparr>)"
| read_eventfd: "phase c = Handling \<Longrightarrow> step c (c\<lparr>lp := handleRead_wakeup (lp c)\<rparr>)"
| queue_handling: "phase c = Handling \<Longrightarrow> step c (c\<lparr>lp := queueInLoop True f (lp c), pushed := pushed c @ [f]\<rparr>)"
| swap: "phase c = Handling \<Longrightarrow> take_pending (lp c) = (fs, s) \<Longrightarrow> step c (c\<lparr>lp := s, phase := Running fs\<rparr>)"
| run: "phase c = Running (f # fs) \<Longrightarrow> step c (c\<lparr>phase := Running fs, ran := ran c @ [f]\<rparr>)"
| queue_running: "phase c = Running fs \<Longrightarrow> step c (c\<lparr>lp := queueInLoop True f (lp c), pushed := pushed c @ [f]\<rparr>)"
| round_ends: "phase c = Running [] \<Longrightarrow>
    step c (c\<lparr>lp := (lp c)\<lparr>callingPendingFunctors := False\<rparr>, phase := Polling\<rparr>)"

inductive_cases step_cases: "step c c'"

inductive reachable :: "('f, 'u) config \<Rightarrow> bool" where
  start: "pendingFunctors s = [] \<Longrightarrow> \<not> callingPendingFunctors s \<Longrightarrow>
    reachable \<lparr>lp = s, phase = Polling, pushers = 0, pushed = [], ran = []\<rparr>"
| more: "reachable c \<Longrightarrow> step c c' \<Longrightarrow> reachable c'"

definition to_run :: "'f phase \<Rightarrow> 'f list" where
  "to_run p = (case p of Running fs \<Rightarrow> fs | _ \<Rightarrow> [])"

definition conc_inv :: "('f, 'u) config \<Rightarrow> bool" where
  [inv_simps]: "conc_inv c \<longleftrightarrow>
     (phase c \<noteq> Handling \<longrightarrow> pendingFunctors (lp c) \<noteq> [] \<longrightarrow> 0 < wakeups (lp c) \<or> 0 < pushers c) \<and>
     (callingPendingFunctors (lp c) \<longleftrightarrow> (\<exists>fs. phase c = Running fs)) \<and>
     ran c @ to_run (phase c) @ pendingFunctors (lp c) = pushed c"

lemmas queue_defs = push_functor_def wakeup_def queueInLoop_def handleRead_wakeup_def take_pending_def Let_def

lemma step_inv: "step c c' \<Longrightarrow> conc_inv c \<Longrightarrow> conc_inv c'"
  by (induction rule: step.induct) (auto simp: conc_inv_def queue_defs to_run_def)

lemma reachable_inv: "reachable c \<Longrightarrow> conc_inv c"
proof (induction rule: reachable.induct)
  case (start s)
  then show ?case by (simp add: conc_inv_def to_run_def)
qed (rule step_inv)


section \<open>Properties\<close>


definition idle_loop :: "(nat, unit) EventLoop" where
  "idle_loop = \<lparr>heap = Map.empty, pollfds = [], channels = Map.empty, looping = True, quit_flag = False,
     loopHandling = False, callingPendingFunctors = False, iteration = 0, activeChannels = [],
     currentActiveChannel = None, wakeupFd = 3, wakeups = 0, pendingFunctors = [], user = ()\<rparr>"




text \<open>
  C12. Functors that are queued while the loop runs functors wait for the next round, so one round of
  \<open>doPendingFunctors\<close> always ends, even when every functor queues others or itself: it leaves pending what
  the functors queued, in order.
\<close>

theorem queued_functors_wait:
  assumes "\<forall>f s. \<exists>s'. exec f s = Inr s' \<and> pendingFunctors s' = pendingFunctors s @ new f"
  shows "\<exists>s'. doPendingFunctors exec s = Inr s' \<and> \<not> callingPendingFunctors s' \<and>
           pendingFunctors s' = concat (map new (pendingFunctors s))"
proof -
  have "\<exists>s'. res_fold exec fs s = Inr s' \<and> pendingFunctors s' = pendingFunctors s @ concat (map new fs)" for fs s
  proof (induction fs arbitrary: s)
    case (Cons f fs)
    obtain s1 where s1: "exec f s = Inr s1" "pendingFunctors s1 = pendingFunctors s @ new f" using assms by blast
    from Cons.IH [of s1] s1 show ?case by auto
  qed simp
  from this [of "pendingFunctors s" "snd (take_pending s)"] show ?thesis
    by (auto simp: doPendingFunctors_def take_pending_def)
qed

theorem queued_functors_wait_witness:
  "\<exists>s'. doPendingFunctors (\<lambda>f s. Inr (queueInLoop True f s)) (push_functor 1 (push_functor 2 idle_loop)) = Inr s' \<and>
        pendingFunctors s' = [2, 1]"
proof -
  have "\<forall>f s. \<exists>s'. (\<lambda>f s. Inr (queueInLoop True f s) :: (nat, unit) EventLoop res) f s = Inr s' \<and>
      pendingFunctors s' = pendingFunctors s @ [f]"
    by (simp add: queueInLoop_def push_functor_def wakeup_def Let_def)
  from queued_functors_wait [OF this, of "push_functor 1 (push_functor 2 idle_loop)"] show ?thesis
    by (auto simp: push_functor_def idle_loop_def)
qed

text \<open>
  A \<open>quit\<close> that comes before \<open>loop\<close> is forgotten: \<open>loop\<close> starts by resetting the flag and then waits in
  \<open>poll\<close> as if \<open>quit\<close> had not been called.
\<close>

theorem early_quit_lost:
  assumes "\<not> looping s"
  shows "loop run alive exec answers (quit True s) = loop run alive exec answers s \<and>
         loop run alive exec [] (quit inLoop s) = None"
  using assms by (simp add: loop_def quit_def wakeup_def Let_def loop_while.simps)

theorem early_quit_lost_witness:
  "loop (\<lambda>a cb s. Inr s) (\<lambda>_. True) (\<lambda>f s. Inr s) [] (quit False (idle_loop\<lparr>looping := False\<rparr>)) = None"
  using early_quit_lost [of "idle_loop\<lparr>looping := False\<rparr>" "\<lambda>a cb s. Inr s" "\<lambda>_. True" "\<lambda>f s. Inr s" "[]" False]
  by simp

text \<open>
  A new loop is consistent: it watches exactly its timer descriptor and its eventfd, both for reading, has nothing
  pending and is in a state from which the interleavings of the properties above start.
\<close>

theorem new_loop_watches:
  assumes "0 \<le> tfd" and "0 \<le> wfd" and "tfd \<noteq> wfd"
  shows "\<exists>s. (new_EventLoop tfd wfd u :: ('f, 'u) EventLoop res) = Inr s \<and> poller_inv s \<and> user s = u \<and>
           watch s = [tfd \<mapsto> (True, ucast kReadEvent), wfd \<mapsto> (True, ucast kReadEvent)] \<and>
           reachable \<lparr>lp = s, phase = Polling, pushers = 0, pushed = [], ran = []\<rparr>"
proof -
  obtain s :: "('f, 'u) EventLoop" where s: "new_EventLoop tfd wfd u = Inr s"
      "heap s = [1 \<mapsto> (set_callback ReadCB (new_Channel tfd))\<lparr>events := kReadEvent, index := 0\<rparr>,
                 0 \<mapsto> (set_callback ReadCB (new_Channel wfd))\<lparr>events := kReadEvent, index := 1\<rparr>]"
      "pollfds s = [\<lparr>pfd_fd = tfd, pfd_events = ucast kReadEvent, pfd_revents = 0\<rparr>,
                    \<lparr>pfd_fd = wfd, pfd_events = ucast kReadEvent, pfd_revents = 0\<rparr>]"
      "channels s = [tfd \<mapsto> 1, wfd \<mapsto> 0]" "pendingFunctors s = []" "\<not> callingPendingFunctors s" "user s = u"
    using assms
    by (simp add: new_EventLoop_def enableReading_def set_events_def ch_simps updateChannel_def set_callback_def
        new_Channel_def Let_def)
  have "poller_inv s"
    using assms by (auto simp: poller_inv_def s fd_of_def set_callback_def new_Channel_def less_Suc_eq split: if_splits)
  moreover have "watch s = [tfd \<mapsto> (True, ucast kReadEvent), wfd \<mapsto> (True, ucast kReadEvent)]"
    using assms by (auto simp: watch_def s fun_eq_iff)
  ultimately show ?thesis using s reachable.start [of s] by blast
qed

end
