(* ===== verification/ThreadLoops.thy ===== *)
theory ThreadLoops
  imports EventLoop
begin

text \<open>
  Which loop belongs to which thread: the thread-local variable \<^verbatim>\<open>t_loopInThisThread\<close> and the member \<^verbatim>\<open>threadId_\<close> of
  \<^verbatim>\<open>base/src/EventLoop.cpp\<close>, with the parts of the constructor and the destructor that change them. Threads and
  loop objects are numbers.
\<close>

section \<open>State and operations\<close>

record loop_table =
  t_loopInThisThread :: "nat \<Rightarrow> nat option"
  threadId :: "nat \<rightharpoonup> nat"

definition no_loops :: loop_table where
  "no_loops = \<lparr>t_loopInThisThread = (\<lambda>_. None), threadId = Map.empty\<rparr>"

definition getEventLoopOfCurrentThread :: "nat \<Rightarrow> loop_table \<Rightarrow> nat option" where
  "getEventLoopOfCurrentThread t s = t_loopInThisThread s t"

text \<open>The constructor of loop \<open>this\<close> in thread \<open>t\<close>: a second loop in a thread is not reported.\<close>

definition register_loop :: "nat \<Rightarrow> nat \<Rightarrow> loop_table \<Rightarrow> loop_table" where
  "register_loop t this s =
     (let s = s\<lparr>threadId := (threadId s)(this \<mapsto> t)\<rparr> in
      if t_loopInThisThread s t \<noteq> None then s
      else s\<lparr>t_loopInThisThread := (t_loopInThisThread s)(t := Some this)\<rparr>)"

definition destroy_EventLoop :: "nat \<Rightarrow> nat \<Rightarrow> loop_table \<Rightarrow> loop_table" where
  "destroy_EventLoop t this s =
     s\<lparr>t_loopInThisThread := (t_loopInThisThread s)(t := None), threadId := (threadId s)(this := None)\<rparr>"

definition isInLoopThread :: "nat \<Rightarrow> nat \<Rightarrow> loop_table \<Rightarrow> bool" where
  "isInLoopThread t this s \<longleftrightarrow> threadId s this = Some t"

text \<open>The body, which should end the program, is commented out.\<close>

definition abortNotInLoopThread :: "loop_table \<Rightarrow> loop_table res" where
  "abortNotInLoopThread s = Inr s"

definition assertInLoopThread :: "nat \<Rightarrow> nat \<Rightarrow> loop_table \<Rightarrow> loop_table res" where
  "assertInLoopThread t this s = (if \<not> isInLoopThread t this s then abortNotInLoopThread s else Inr s)"

text \<open>\<open>runInLoop\<close> called by thread \<open>t\<close> on the loop \<open>this\<close>, whose state is \<open>s\<close>.\<close>

definition run_from :: "('f \<Rightarrow> ('f, 'u) EventLoop \<Rightarrow> ('f, 'u) EventLoop res) \<Rightarrow> nat \<Rightarrow> nat \<Rightarrow> 'f \<Rightarrow> loop_table \<Rightarrow> ('f, 'u) EventLoop \<Rightarrow> ('f, 'u) EventLoop res" where
  "run_from exec t this f tab s = runInLoop exec (isInLoopThread t this tab) f s"


section \<open>One loop per thread\<close>

text \<open>Programs that make a loop only in a thread without one, and destroy it in its own thread.\<close>

inductive one_loop :: "loop_table \<Rightarrow> bool" where
  start: "one_loop no_loops"
| make: "one_loop s \<Longrightarrow> t \<notin> Map.ran (threadId s) \<Longrightarrow> this \<notin> dom (threadId s) \<Longrightarrow> one_loop (register_loop t this s)"
| destroy: "one_loop s \<Longrightarrow> isInLoopThread t this s \<Longrightarrow> one_loop (destroy_EventLoop t this s)"

definition loops_match :: "loop_table \<Rightarrow> bool" where
  [inv_simps]: "loops_match s \<longleftrightarrow> (\<forall>t l. t_loopInThisThread s t = Some l \<longleftrightarrow> threadId s l = Some t)"

lemma one_loop_match: "one_loop s \<Longrightarrow> loops_match s"
proof (induction rule: one_loop.induct)
  case start
  show ?case by (simp add: loops_match_def no_loops_def)
next
  case (make s t this)
  then have "t_loopInThisThread s t = None" by (cases "t_loopInThisThread s t") (auto simp: loops_match_def Map.ran_def)
  moreover have "threadId s l \<noteq> Some t" for l using make(2) by (auto simp: Map.ran_def)
  ultimately show ?case using make by (auto simp: loops_match_def register_loop_def dom_def)
next
  case (destroy s t this)
  have iff: "t_loopInThisThread s u = Some l \<longleftrightarrow> threadId s l = Some u" for u l
    using destroy.IH by (simp add: loops_match_def)
  have own: "threadId s this = Some t" using destroy(2) by (simp add: isInLoopThread_def)
  then have only: "threadId s l \<noteq> Some t" if "l \<noteq> this" for l using that iff [of t l] iff [of t this] by auto
  show ?case unfolding loops_match_def
  proof (intro allI)
    fix u l
    show "t_loopInThisThread (destroy_EventLoop t this s) u = Some l \<longleftrightarrow> threadId (destroy_EventLoop t this s) l = Some u"
      using own only [of l] iff [of u l] by (cases "u = t"; cases "l = this") (simp_all add: destroy_EventLoop_def)
  qed
qed


section \<open>Properties\<close>

text \<open>
  As long as every thread has at most one loop and destroys it itself, \<open>getEventLoopOfCurrentThread\<close> gives the loop of the
  calling thread, if there is one and only then; a thread that is not the one of a loop never runs a functor
  itself but queues it, and \<open>assertInLoopThread\<close> lets it pass all the same: the check never fails.
\<close>

theorem loop_of_thread:
  assumes "one_loop tab"
  shows "(getEventLoopOfCurrentThread t tab = Some l \<longleftrightarrow> isInLoopThread t l tab) \<and>
    (isInLoopThread t l tab \<longrightarrow> (\<forall>t'. isInLoopThread t' l tab \<longrightarrow> t' = t) \<and> (\<forall>l'. isInLoopThread t l' tab \<longrightarrow> l' = l)) \<and>
    (t \<notin> Map.ran (threadId tab) \<longrightarrow> run_from exec t l f tab s = Inr (EventLoop.queueInLoop False f s)) \<and>
    assertInLoopThread t l tab = Inr tab"
proof -
  have m: "loops_match tab" by (rule one_loop_match [OF assms])
  have "run_from exec t l f tab s = Inr (EventLoop.queueInLoop False f s)" if "t \<notin> Map.ran (threadId tab)"
    using that by (auto simp: run_from_def runInLoop_def isInLoopThread_def Map.ran_def)
  moreover have "isInLoopThread t l tab \<Longrightarrow> isInLoopThread t l' tab \<Longrightarrow> l' = l" for l'
    using m by (metis isInLoopThread_def loops_match_def option.inject)
  ultimately show ?thesis
    using m by (auto simp: getEventLoopOfCurrentThread_def loops_match_def isInLoopThread_def assertInLoopThread_def abortNotInLoopThread_def)
qed

theorem loop_of_thread_witness:
  "getEventLoopOfCurrentThread 1 (register_loop 1 8 no_loops) = Some 8 \<and>
   assertInLoopThread 2 8 (register_loop 1 8 no_loops) = Inr (register_loop 1 8 no_loops)"
proof -
  have "one_loop (register_loop 1 8 no_loops)" by (rule one_loop.make [OF one_loop.start]) (simp_all add: no_loops_def)
  note at = loop_of_thread [OF this]
  have "isInLoopThread 1 8 (register_loop 1 8 no_loops)" by (simp add: isInLoopThread_def register_loop_def no_loops_def)
  then have "getEventLoopOfCurrentThread 1 (register_loop 1 8 no_loops) = Some 8" using at [THEN conjunct1, of 1 8] by blast
  then show ?thesis using at [THEN conjunct2, THEN conjunct2, THEN conjunct2, of 2 8] by blast
qed

text \<open>
  Two loops in one thread are accepted, and destroying either of them makes the thread forget the other, since
  the destructor clears the variable without looking at it.
\<close>

theorem second_loop_forgets:
  assumes "a \<noteq> b" and "t_loopInThisThread s t = None"
  shows "getEventLoopOfCurrentThread t (destroy_EventLoop t b (register_loop t b (register_loop t a s))) = None \<and>
    isInLoopThread t a (destroy_EventLoop t b (register_loop t b (register_loop t a s)))"
  using assms by (simp add: getEventLoopOfCurrentThread_def destroy_EventLoop_def register_loop_def isInLoopThread_def Let_def)

end
