(* ===== verification/TimerQueue.thy ===== *)
theory TimerQueue
  imports Timestamp
begin

text \<open>
  \<^verbatim>\<open>base/inc/Timer.h\<close>, \<^verbatim>\<open>base/inc/TimerId.h\<close> and \<^verbatim>\<open>base/src/TimerQueue.cpp\<close>. Timers are heap objects; a
  \<^verbatim>\<open>TimerId\<close> is the address of one with its sequence number. \<open>arm\<close> records the calls of \<^verbatim>\<open>timerfd_settime\<close>.
  What the callback of a timer does to the queue is the argument \<open>run\<close>.
\<close>

section \<open>Timer\<close>

record 'k Timer =
  tm_callback :: 'k
  tm_expiration :: Timestamp
  tm_interval :: double
  tm_repeat :: bool
  tm_sequence :: "64 word"

definition restart :: "Timestamp \<Rightarrow> 'k Timer \<Rightarrow> 'k Timer" where
  "restart nw t = (if tm_repeat t then t else t\<lparr>tm_expiration := invalid\<rparr>)"


section \<open>TimerQueue\<close>

text \<open>\<^verbatim>\<open>timespec\<close> as seconds and nanoseconds.\<close>

definition howMuchTimeFromNow :: "Timestamp \<Rightarrow> Timestamp \<Rightarrow> int \<times> int" where
  "howMuchTimeFromNow nw when =
     (let microseconds = sint (when - nw);
          microseconds = (if microseconds < 100 then 100 else microseconds)
      in (c_div microseconds kMicroSecondsPerSecond, c_mod microseconds kMicroSecondsPerSecond * 1000))"

text \<open>
  \<open>timers\<close> is the \<^verbatim>\<open>std::set<pair<Timestamp, Timer*>>\<close> in its order; \<open>numCreated\<close> is the static counter of
  \<^verbatim>\<open>Timer\<close>; \<open>ran\<close> lists the callbacks that were run.
\<close>

record 'k TimerQueue =
  tm_heap :: "nat \<rightharpoonup> 'k Timer"
  timers :: "(Timestamp \<times> nat) list"
  activeTimers :: "(nat \<times> 64 word) set"
  callingExpiredTimers :: bool
  cancelingTimers :: "(nat \<times> 64 word) set"
  arm :: "(int \<times> int) list"
  numCreated :: "64 word"
  ran :: "'k list"

definition new_TimerQueue :: "64 word \<Rightarrow> 'k TimerQueue" where
  "new_TimerQueue created =
     \<lparr>tm_heap = Map.empty, timers = [], activeTimers = {}, callingExpiredTimers = False, cancelingTimers = {},
      arm = [], numCreated = created, ran = []\<rparr>"

text \<open>\<^verbatim>\<open>new Timer\<close> at address \<open>a\<close>: the constructor takes the next number and decides whether the timer repeats.\<close>

definition new_Timer :: "nat \<Rightarrow> 'k \<Rightarrow> Timestamp \<Rightarrow> double \<Rightarrow> 'k TimerQueue \<Rightarrow> 64 word \<times> 'k TimerQueue" where
  "new_Timer a cb when interval q =
     (let sq = numCreated q + 1;
          t = \<lparr>tm_callback = cb, tm_expiration = when, tm_interval = interval, tm_repeat = (interval > 0), tm_sequence = sq\<rparr>
      in (sq, q\<lparr>tm_heap := (tm_heap q)(a \<mapsto> t), numCreated := sq\<rparr>))"

definition resetTimerfd :: "Timestamp \<Rightarrow> Timestamp \<Rightarrow> 'k TimerQueue \<Rightarrow> 'k TimerQueue" where
  "resetTimerfd nw expiration q = q\<lparr>arm := arm q @ [howMuchTimeFromNow nw expiration]\<rparr>"

definition deref :: "nat \<Rightarrow> 'k TimerQueue \<Rightarrow> 'k Timer res" where
  "deref a q = (case tm_heap q a of Some t \<Rightarrow> Inr t | None \<Rightarrow> Inl UndefinedBehaviour)"

text \<open>\<^verbatim>\<open>TimerQueue::insert\<close> computes whether the earliest expiration changes, and inserts nothing.\<close>

definition insert_timer :: "nat \<Rightarrow> 'k TimerQueue \<Rightarrow> (bool \<times> 'k TimerQueue) res" where
  "insert_timer a q =
     res_bind (deref a q) (\<lambda>t. Inr (timers q = [], q))"

definition addTimerInLoop :: "Timestamp \<Rightarrow> nat \<Rightarrow> 'k TimerQueue \<Rightarrow> 'k TimerQueue res" where
  "addTimerInLoop nw a q =
     res_bind (insert_timer a q) (\<lambda>(earliestChanged, q).
     if earliestChanged then res_bind (deref a q) (\<lambda>t. Inr (resetTimerfd nw (tm_expiration t) q)) else Inr q)"

text \<open>\<open>a\<close> is the address \<^verbatim>\<open>new Timer\<close> returns; the result is the \<^verbatim>\<open>TimerId\<close>. Called in the loop's thread.\<close>

definition addTimer ::
  "Timestamp \<Rightarrow> nat \<Rightarrow> 'k \<Rightarrow> Timestamp \<Rightarrow> double \<Rightarrow> 'k TimerQueue \<Rightarrow> ((nat \<times> 64 word) \<times> 'k TimerQueue) res"
where
  "addTimer nw a cb when interval q =
     (case new_Timer a cb when interval q of (sq, q) \<Rightarrow>
      res_bind (addTimerInLoop nw a q) (\<lambda>q. Inr ((a, sq), q)))"

definition cancelInLoop :: "nat \<times> 64 word \<Rightarrow> 'k TimerQueue \<Rightarrow> 'k TimerQueue" where
  "cancelInLoop timer q =
     (if timer \<in> activeTimers q then
        q\<lparr>tm_heap := (tm_heap q)(fst timer := None), activeTimers := activeTimers q - {timer}\<rparr>
      else if callingExpiredTimers q then q\<lparr>cancelingTimers := Set.insert timer (cancelingTimers q)\<rparr>
      else q)"

text \<open>Entries below \<^verbatim>\<open>(now, UINTPTR_MAX)\<close> in the order of pairs.\<close>

definition expired_entry :: "Timestamp \<Rightarrow> Timestamp \<times> nat \<Rightarrow> bool" where
  "expired_entry nw e \<longleftrightarrow> ts_less (fst e) nw \<or> (\<not> ts_less nw (fst e) \<and> snd e < 2 ^ 64 - 1)"

fun erase_active :: "(Timestamp \<times> nat) list \<Rightarrow> 'k TimerQueue \<Rightarrow> 'k TimerQueue res" where
  "erase_active [] q = Inr q"
| "erase_active (e # es) q =
     res_bind (deref (snd e) q) (\<lambda>t.
     erase_active es (q\<lparr>activeTimers := activeTimers q - {(snd e, tm_sequence t)}\<rparr>))"

definition getExpired :: "Timestamp \<Rightarrow> 'k TimerQueue \<Rightarrow> ((Timestamp \<times> nat) list \<times> 'k TimerQueue) res" where
  "getExpired nw q =
     (let expired = takeWhile (expired_entry nw) (timers q);
          q = q\<lparr>timers := dropWhile (expired_entry nw) (timers q)\<rparr>
      in res_bind (erase_active expired q) (\<lambda>q. Inr (expired, q)))"

fun reset_each :: "Timestamp \<Rightarrow> (Timestamp \<times> nat) list \<Rightarrow> 'k TimerQueue \<Rightarrow> 'k TimerQueue res" where
  "reset_each nw [] q = Inr q"
| "reset_each nw (e # es) q =
     res_bind (deref (snd e) q) (\<lambda>t.
     res_bind
       (if tm_repeat t \<and> (snd e, tm_sequence t) \<notin> cancelingTimers q then
          res_bind (insert_timer (snd e) (q\<lparr>tm_heap := (tm_heap q)(snd e \<mapsto> restart nw t)\<rparr>)) (\<lambda>(_, q). Inr q)
        else Inr (q\<lparr>tm_heap := (tm_heap q)(snd e := None)\<rparr>))
       (reset_each nw es))"

definition reset_timers :: "Timestamp \<Rightarrow> (Timestamp \<times> nat) list \<Rightarrow> 'k TimerQueue \<Rightarrow> 'k TimerQueue res" where
  "reset_timers nw expired q =
     res_bind (reset_each nw expired q) (\<lambda>q.
     res_bind (case timers q of [] \<Rightarrow> Inr invalid | e # _ \<Rightarrow> res_bind (deref (snd e) q) (\<lambda>t. Inr (tm_expiration t)))
       (\<lambda>nextExpire. Inr (if valid nextExpire then resetTimerfd nw nextExpire q else q)))"

fun run_expired :: "('k \<Rightarrow> 'k TimerQueue \<Rightarrow> 'k TimerQueue res) \<Rightarrow> (Timestamp \<times> nat) list \<Rightarrow> 'k TimerQueue \<Rightarrow> 'k TimerQueue res" where
  "run_expired run [] q = Inr q"
| "run_expired run (e # es) q =
     res_bind (deref (snd e) q) (\<lambda>t.
     res_bind (run (tm_callback t) (q\<lparr>ran := ran q @ [tm_callback t]\<rparr>)) (run_expired run es))"

definition handleRead_timer :: "('k \<Rightarrow> 'k TimerQueue \<Rightarrow> 'k TimerQueue res) \<Rightarrow> Timestamp \<Rightarrow> 'k TimerQueue \<Rightarrow> 'k TimerQueue res" where
  "handleRead_timer run nw q =
     res_bind (getExpired nw q) (\<lambda>(expired, q).
     res_bind (run_expired run expired (q\<lparr>callingExpiredTimers := True, cancelingTimers := {}\<rparr>)) (\<lambda>q.
     reset_timers nw expired (q\<lparr>callingExpiredTimers := False\<rparr>)))"


section \<open>What the queue holds\<close>

text \<open>Any sequence of the operations, with any callbacks.\<close>

inductive tq_reachable :: "'k TimerQueue \<Rightarrow> bool" where
  start: "tq_reachable (new_TimerQueue n)"
| add: "tq_reachable q \<Longrightarrow> addTimer nw a cb when rep q = Inr (i, q') \<Longrightarrow> tq_reachable q'"
| cancel: "tq_reachable q \<Longrightarrow> tq_reachable (cancelInLoop i q)"
| alarm: "tq_reachable q \<Longrightarrow> handleRead_timer run nw q = Inr q' \<Longrightarrow> tq_reachable q'"

definition tq_empty :: "'k TimerQueue \<Rightarrow> bool" where
  "tq_empty q \<longleftrightarrow> timers q = [] \<and> activeTimers q = {} \<and> ran q = []"

lemma addTimer_eq:
  "timers q = [] \<Longrightarrow> addTimer nw a cb when rep q =
     Inr ((a, numCreated q + 1),
          resetTimerfd nw when (q\<lparr>tm_heap := (tm_heap q)(a \<mapsto> \<lparr>tm_callback = cb, tm_expiration = when, tm_interval = rep, tm_repeat = (rep > 0),
             tm_sequence = numCreated q + 1\<rparr>), numCreated := numCreated q + 1\<rparr>))"
  by (simp add: addTimer_def new_Timer_def addTimerInLoop_def insert_timer_def deref_def Let_def)

lemma alarm_empty:
  "tq_empty q \<Longrightarrow> handleRead_timer run nw q = Inr (q\<lparr>callingExpiredTimers := False, cancelingTimers := {}\<rparr>)"
  by (simp add: tq_empty_def handleRead_timer_def getExpired_def reset_timers_def valid_def invalid_def Let_def)

lemma reachable_empty: "tq_reachable q \<Longrightarrow> tq_empty q"
proof (induction rule: tq_reachable.induct)
  case (start n)
  show ?case by (simp add: tq_empty_def new_TimerQueue_def)
next
  case (add q nw a cb "when" rep i q')
  then show ?case by (auto simp: addTimer_eq tq_empty_def resetTimerfd_def)
next
  case (cancel q i)
  then show ?case by (simp add: tq_empty_def cancelInLoop_def)
next
  case (alarm q run nw q')
  then show ?case by (auto simp: alarm_empty) (simp add: tq_empty_def)
qed

lemma cancel_frees_nothing: "tq_reachable q \<Longrightarrow> tm_heap (cancelInLoop i q) = tm_heap q"
  using reachable_empty [of q] by (auto simp: cancelInLoop_def tq_empty_def)

text \<open>The time a descriptor is armed with.\<close>

lemma armed_time:
  assumes "howMuchTimeFromNow nw when = (sec, nsec)"
  shows "0 \<le> sec \<and> 0 \<le> nsec \<and> nsec < 1000000000 \<and> (0 < sec \<or> 0 < nsec) \<and>
         sec * 1000000000 + nsec = max 100 (sint (when - nw)) * 1000"
proof -
  define u where "u = max 100 (sint (when - nw))"
  define d where "d = u div 1000000"
  have eq: "sec = d" "nsec = (u - 1000000 * d) * 1000"
    using assms by (auto simp: howMuchTimeFromNow_def kMicroSecondsPerSecond_def c_div_def c_mod_def Let_def
        max_def u_def d_def split: if_splits)
  have "100 \<le> u" by (simp add: u_def)
  moreover have "0 \<le> u mod 1000000" "u mod 1000000 < 1000000" by simp_all
  moreover have "d * 1000000 + u mod 1000000 = u" unfolding d_def by (rule div_mult_mod_eq)
  ultimately have r: "0 \<le> u - 1000000 * d" "u - 1000000 * d < 1000000" "0 \<le> d" "0 < d \<or> 0 < u - 1000000 * d"
    by linarith+
  then show ?thesis unfolding eq u_def [symmetric] by auto
qed


section \<open>Properties\<close>

text \<open>
  No timer ever fires: \<open>TimerQueue::insert\<close> puts nothing into \<open>timers_\<close> or \<open>activeTimers_\<close>, so whatever is
  added, cancelled and however often the timer descriptor alarms, both stay empty and no callback is run;
  cancelling frees nothing.
\<close>

theorem timers_never_fire:
  assumes "tq_reachable q"
  shows "timers q = [] \<and> activeTimers q = {} \<and> ran q = [] \<and>
         (\<exists>q'. handleRead_timer run nw q = Inr q' \<and> ran q' = [] \<and> tm_heap q' = tm_heap q) \<and>
         tm_heap (cancelInLoop i q) = tm_heap q"
  using reachable_empty [OF assms] cancel_frees_nothing [OF assms] by (auto simp: alarm_empty) (simp_all add: tq_empty_def)

theorem timers_never_fire_witness:
  "\<exists>i q q'. addTimer 0 8 ''retry'' 1000 0 (new_TimerQueue 0) = Inr (i, q) \<and>
     handleRead_timer (\<lambda>k q. Inr q) 5000 q = Inr q' \<and> ran q' = []"
proof -
  obtain i q where q: "addTimer 0 8 ''retry'' 1000 0 (new_TimerQueue 0) = Inr (i, q)"
    by (simp add: addTimer_eq new_TimerQueue_def)
  have "tq_reachable q" using tq_reachable.add [OF tq_reachable.start q] .
  from timers_never_fire [OF this, of "\<lambda>k q. Inr q" 5000] q show ?thesis by blast
qed

text \<open>
  The time the descriptor is armed with is at least 100 microseconds, so arming never disarms it, the
  nanoseconds are in range, and together they are exactly the time until the expiration in nanoseconds when
  that is longer.
\<close>

theorem timer_armed_positive:
  assumes "howMuchTimeFromNow nw when = (sec, nsec)"
  shows "0 \<le> sec \<and> 0 \<le> nsec \<and> nsec < 1000000000 \<and> (0 < sec \<or> 0 < nsec) \<and>
         sec * 1000000000 + nsec = max 100 (sint (when - nw)) * 1000"
  using armed_time [OF assms] .

theorem timer_armed_positive_witness:
  "howMuchTimeFromNow 5000000 6500000 = (1, 500000000) \<and> (0 < (1::int) \<or> 0 < (500000000::int))"
proof -
  have h: "howMuchTimeFromNow 5000000 6500000 = (1, 500000000)"
    by (simp add: howMuchTimeFromNow_def kMicroSecondsPerSecond_def c_div_def c_mod_def Let_def)
  with timer_armed_positive [OF h] show ?thesis by simp
qed

end
