(* ===== verification/LoopTimers.thy ===== *)
theory LoopTimers
  imports EventLoop TimerQueue
begin

text \<open>
  The timers of an event loop: \<^verbatim>\<open>EventLoop::runAt\<close>, \<^verbatim>\<open>runAfter\<close>, \<^verbatim>\<open>runEvery\<close> and \<^verbatim>\<open>cancel\<close>, which any thread may
  call. They hand their work to the loop's own thread as functors, so the state here is an event loop whose
  functors include those of the timer queue and whose remaining state is the queue. \<open>inLoop\<close> says whether the
  caller is the loop's thread; \<open>nw\<close> is the time at the call, \<open>nw'\<close> the time when the loop's thread gets to it.
\<close>

section \<open>Operations\<close>

datatype 'f loop_functor = AddTimerInLoop nat | CancelInLoop "nat \<times> 64 word" | UserFunctor 'f

type_synonym ('f, 'k) timed_loop = "('f loop_functor, 'k TimerQueue) EventLoop"
type_synonym ('f, 'k) user_exec = "'f \<Rightarrow> ('f, 'k) timed_loop \<Rightarrow> ('f, 'k) timed_loop res"

fun exec_functor :: "('f, 'k) user_exec \<Rightarrow> Timestamp \<Rightarrow> 'f loop_functor \<Rightarrow> ('f, 'k) timed_loop \<Rightarrow> ('f, 'k) timed_loop res" where
  "exec_functor ex nw (AddTimerInLoop a) s = res_bind (addTimerInLoop nw a (user s)) (\<lambda>q. Inr (s\<lparr>user := q\<rparr>))"
| "exec_functor ex nw (CancelInLoop i) s = Inr (s\<lparr>user := cancelInLoop i (user s)\<rparr>)"
| "exec_functor ex nw (UserFunctor f) s = ex f s"

definition loop_addTimer ::
  "('f, 'k) user_exec \<Rightarrow> bool \<Rightarrow> Timestamp \<Rightarrow> nat \<Rightarrow> 'k \<Rightarrow> Timestamp \<Rightarrow> double \<Rightarrow> ('f, 'k) timed_loop \<Rightarrow>
     ((nat \<times> 64 word) \<times> ('f, 'k) timed_loop) res"
where
  "loop_addTimer ex inLoop nw' a cb when interval s =
     (case new_Timer a cb when interval (user s) of (sq, q) \<Rightarrow>
      res_bind (runInLoop (exec_functor ex nw') inLoop (AddTimerInLoop a) (s\<lparr>user := q\<rparr>)) (\<lambda>s. Inr ((a, sq), s)))"

definition loop_cancel :: "('f, 'k) user_exec \<Rightarrow> bool \<Rightarrow> nat \<times> 64 word \<Rightarrow> ('f, 'k) timed_loop \<Rightarrow> ('f, 'k) timed_loop res" where
  "loop_cancel ex inLoop i s = runInLoop (exec_functor ex 0) inLoop (CancelInLoop i) s"

definition runAt ::
  "('f, 'k) user_exec \<Rightarrow> bool \<Rightarrow> Timestamp \<Rightarrow> nat \<Rightarrow> Timestamp \<Rightarrow> 'k \<Rightarrow> ('f, 'k) timed_loop \<Rightarrow> ((nat \<times> 64 word) \<times> ('f, 'k) timed_loop) res"
where
  "runAt ex inLoop nw' a time cb s = loop_addTimer ex inLoop nw' a cb time 0 s"

definition runAfter ::
  "('f, 'k) user_exec \<Rightarrow> bool \<Rightarrow> Timestamp \<Rightarrow> Timestamp \<Rightarrow> nat \<Rightarrow> double \<Rightarrow> 'k \<Rightarrow> ('f, 'k) timed_loop \<Rightarrow> ((nat \<times> 64 word) \<times> ('f, 'k) timed_loop) res"
where
  "runAfter ex inLoop nw nw' a delay cb s =
     res_bind (addTime nw delay) (\<lambda>time. runAt ex inLoop nw' a time cb s)"

definition runEvery ::
  "('f, 'k) user_exec \<Rightarrow> bool \<Rightarrow> Timestamp \<Rightarrow> Timestamp \<Rightarrow> nat \<Rightarrow> double \<Rightarrow> 'k \<Rightarrow> ('f, 'k) timed_loop \<Rightarrow> ((nat \<times> 64 word) \<times> ('f, 'k) timed_loop) res"
where
  "runEvery ex inLoop nw nw' a interval cb s =
     res_bind (addTime nw interval) (\<lambda>time. loop_addTimer ex inLoop nw' a cb time interval s)"

text \<open>The destructor of the queue deletes the timers of \<^verbatim>\<open>timers_\<close>.\<close>

definition destroy_TimerQueue :: "'k TimerQueue \<Rightarrow> 'k TimerQueue" where
  "destroy_TimerQueue q = q\<lparr>tm_heap := (tm_heap q) |` (- snd ` set (timers q))\<rparr>"

text \<open>The read callback of the timer channel; \<open>run\<close> is what the callback of a timer does to the queue.\<close>

definition timer_alarm :: "('k \<Rightarrow> 'k TimerQueue \<Rightarrow> 'k TimerQueue res) \<Rightarrow> Timestamp \<Rightarrow> ('f, 'k) timed_loop \<Rightarrow> ('f, 'k) timed_loop res" where
  "timer_alarm run nw s = res_bind (handleRead_timer run nw (user s)) (\<lambda>q. Inr (s\<lparr>user := q\<rparr>))"


section \<open>Calls from other threads\<close>

lemma loop_addTimer_inLoop:
  "loop_addTimer ex True nw' a cb when rep s =
     res_bind (addTimer nw' a cb when rep (user s)) (\<lambda>(i, q). Inr (i, s\<lparr>user := q\<rparr>))"
  by (cases "addTimerInLoop nw' a (snd (new_Timer a cb when rep (user s)))")
    (simp_all add: loop_addTimer_def new_Timer_def runInLoop_def addTimer_def Let_def)

text \<open>What a pending functor of the queue needs: its timer is still there.\<close>

definition pending_ok :: "'k TimerQueue \<Rightarrow> 'f loop_functor \<Rightarrow> bool" where
  "pending_ok q f \<longleftrightarrow> (\<forall>a. f = AddTimerInLoop a \<longrightarrow> tm_heap q a \<noteq> None)"

definition timed_inv :: "('f, 'k) timed_loop \<Rightarrow> bool" where
  [inv_simps]: "timed_inv s \<longleftrightarrow> tq_empty (user s) \<and> (\<forall>f \<in> set (pendingFunctors s). pending_ok (user s) f)"

text \<open>User functors that leave the timers alone; their timer calls are steps of their own.\<close>

definition quiet_exec :: "('f, 'k) user_exec \<Rightarrow> bool" where
  "quiet_exec ex \<longleftrightarrow> (\<forall>f s. \<exists>s'. ex f s = Inr s' \<and> user s' = user s \<and> pendingFunctors s' = pendingFunctors s)"

lemma queue_user [simp]:
  "user (queueInLoop b f s) = user s" "pendingFunctors (queueInLoop b f s) = pendingFunctors s @ [f]"
  by (simp_all add: queueInLoop_def push_functor_def wakeup_def Let_def)

lemma new_Timer_empty:
  assumes "tq_empty q" and "new_Timer a cb when rep q = (sq, q')"
  shows "tq_empty q'" and "tm_heap q' a \<noteq> None" and "pending_ok q f \<Longrightarrow> pending_ok q' f"
  using assms by (auto simp: new_Timer_def tq_empty_def pending_ok_def Let_def)

lemma exec_ok_timed:
  assumes "quiet_exec ex" and "tq_empty (user s)" and "pending_ok (user s) f"
  shows "\<exists>s'. exec_functor ex nw f s = Inr s' \<and> tq_empty (user s') \<and> tm_heap (user s') = tm_heap (user s) \<and>
           pendingFunctors s' = pendingFunctors s"
proof (cases f)
  case (AddTimerInLoop a)
  then obtain t where "tm_heap (user s) a = Some t" using assms(3) by (auto simp: pending_ok_def)
  then show ?thesis
    using assms(2) AddTimerInLoop
    by (auto simp: addTimerInLoop_def insert_timer_def deref_def resetTimerfd_def tq_empty_def)
next
  case (CancelInLoop i)
  then show ?thesis using assms(2) by (simp add: cancelInLoop_def tq_empty_def)
next
  case (UserFunctor g)
  then show ?thesis using assms(1,2) by (auto simp: quiet_exec_def) metis
qed

lemma fold_ok_timed:
  assumes "quiet_exec ex" and "tq_empty (user s)" and "\<forall>f \<in> set fs. pending_ok (user s) f"
  shows "\<exists>s'. res_fold (exec_functor ex nw) fs s = Inr s' \<and> tq_empty (user s') \<and>
           tm_heap (user s') = tm_heap (user s) \<and> pendingFunctors s' = pendingFunctors s"
  using assms(2,3)
proof (induction fs arbitrary: s)
  case (Cons f fs)
  obtain s1 where s1: "exec_functor ex nw f s = Inr s1" "tq_empty (user s1)" "tm_heap (user s1) = tm_heap (user s)"
      "pendingFunctors s1 = pendingFunctors s"
    using exec_ok_timed [OF assms(1) Cons.prems(1), of f nw] Cons.prems(2) by auto
  from Cons.IH [OF s1(2)] Cons.prems(2) s1 show ?case by (simp add: pending_ok_def)
qed simp

lemma round_ok_timed:
  assumes "quiet_exec ex" and "timed_inv s"
  shows "\<exists>s'. doPendingFunctors (exec_functor ex nw) s = Inr s' \<and> timed_inv s' \<and> pendingFunctors s' = [] \<and>
           tm_heap (user s') = tm_heap (user s)"
  using fold_ok_timed [OF assms(1), of "s\<lparr>callingPendingFunctors := True, pendingFunctors := []\<rparr>" "pendingFunctors s" nw] assms(2)
  by (auto simp: doPendingFunctors_def take_pending_def timed_inv_def)

lemma add_ok_timed:
  assumes "timed_inv s" and "quiet_exec ex"
  shows "\<exists>i s'. loop_addTimer ex inLoop nw' a cb when rep s = Inr (i, s') \<and> timed_inv s' \<and>
           dom (tm_heap (user s')) = insert a (dom (tm_heap (user s)))"
proof -
  obtain sq q where n: "new_Timer a cb when rep (user s) = (sq, q)" by fastforce
  have e: "tq_empty (user s)" using assms(1) by (simp add: timed_inv_def)
  note n' = new_Timer_empty [OF e n]
  have d: "dom (tm_heap q) = insert a (dom (tm_heap (user s)))" using n by (auto simp: new_Timer_def Let_def)
  have ok: "\<forall>f \<in> set (pendingFunctors s). pending_ok q f" using assms(1) n'(3) by (auto simp: timed_inv_def)
  show ?thesis
  proof (cases inLoop)
    case True
    obtain s1 where "exec_functor ex nw' (AddTimerInLoop a) (s\<lparr>user := q\<rparr>) = Inr s1" "tq_empty (user s1)"
        "tm_heap (user s1) = tm_heap q" "pendingFunctors s1 = pendingFunctors s"
      using exec_ok_timed [OF assms(2), of "s\<lparr>user := q\<rparr>" "AddTimerInLoop a" nw'] n'(1,2) by (auto simp: pending_ok_def)
    with True n d ok show ?thesis by (auto simp: loop_addTimer_def runInLoop_def timed_inv_def pending_ok_def)
  next
    case False
    with n n' d ok show ?thesis by (auto simp: loop_addTimer_def runInLoop_def timed_inv_def) (auto simp: pending_ok_def)
  qed
qed

lemma cancel_ok_timed:
  assumes "timed_inv s"
  shows "\<exists>s'. loop_cancel ex inLoop i s = Inr s' \<and> timed_inv s' \<and> tm_heap (user s') = tm_heap (user s)"
  using assms
  by (auto simp: loop_cancel_def runInLoop_def timed_inv_def pending_ok_def cancelInLoop_def tq_empty_def)

lemma alarm_ok_timed:
  assumes "timed_inv s"
  shows "\<exists>s'. timer_alarm run nw s = Inr s' \<and> timed_inv s' \<and> tm_heap (user s') = tm_heap (user s)"
  using assms alarm_empty [of "user s" run nw]
  by (auto simp: timer_alarm_def timed_inv_def pending_ok_def tq_empty_def)

text \<open>Any program: calls from the loop's thread or others, rounds of the loop, alarms of the descriptor.\<close>

inductive timed_reach :: "('f, 'k) timed_loop \<Rightarrow> bool" where
  start: "new_EventLoop tfd wfd (new_TimerQueue n) = Inr s \<Longrightarrow> timed_reach s"
| run_at: "timed_reach s \<Longrightarrow> quiet_exec ex \<Longrightarrow> runAt ex inLoop nw' a time cb s = Inr (i, s') \<Longrightarrow> timed_reach s'"
| run_after: "timed_reach s \<Longrightarrow> quiet_exec ex \<Longrightarrow> runAfter ex inLoop nw nw' a delay cb s = Inr (i, s') \<Longrightarrow> timed_reach s'"
| run_every: "timed_reach s \<Longrightarrow> quiet_exec ex \<Longrightarrow> runEvery ex inLoop nw nw' a interval cb s = Inr (i, s') \<Longrightarrow> timed_reach s'"
| cancel: "timed_reach s \<Longrightarrow> loop_cancel ex inLoop i s = Inr s' \<Longrightarrow> timed_reach s'"
| round: "timed_reach s \<Longrightarrow> quiet_exec ex \<Longrightarrow> doPendingFunctors (exec_functor ex nw) s = Inr s' \<Longrightarrow> timed_reach s'"
| alarm: "timed_reach s \<Longrightarrow> timer_alarm run nw s = Inr s' \<Longrightarrow> timed_reach s'"

lemma new_loop_state:
  "new_EventLoop tfd wfd u = Inr s \<Longrightarrow> user s = u \<and> pendingFunctors s = []"
  by (auto simp: new_EventLoop_def enableReading_def set_events_def ch_simps updateChannel_def set_callback_def
      new_Channel_def Let_def cassert_def split: if_splits)

lemma timed_reach_inv: "timed_reach s \<Longrightarrow> timed_inv s"
proof (induction rule: timed_reach.induct)
  case (start tfd wfd n s)
  then show ?case using new_loop_state by (fastforce simp: timed_inv_def tq_empty_def new_TimerQueue_def)
next
  case (run_at s ex inLoop nw' a time cb i s')
  then show ?case using add_ok_timed [of s ex inLoop nw' a cb time 0] by (auto simp: runAt_def)
next
  case (run_after s ex inLoop nw nw' a delay cb i s')
  then obtain time where "loop_addTimer ex inLoop nw' a cb time 0 s = Inr (i, s')" by (auto simp: runAfter_def runAt_def res_bind_eq_Inr)
  then show ?case using add_ok_timed [OF run_after.IH run_after(2), of inLoop nw' a cb time 0] by simp
next
  case (run_every s ex inLoop nw nw' a interval cb i s')
  then obtain time where "loop_addTimer ex inLoop nw' a cb time interval s = Inr (i, s')" by (auto simp: runEvery_def res_bind_eq_Inr)
  then show ?case using add_ok_timed [OF run_every.IH run_every(2), of inLoop nw' a cb time interval] by simp
next
  case (cancel s ex inLoop i s')
  then show ?case using cancel_ok_timed [of s ex inLoop i] by auto
next
  case (round s ex nw s')
  then show ?case using round_ok_timed [of ex s nw] by auto
next
  case (alarm s run nw s')
  then show ?case using alarm_ok_timed [of s run nw] by auto
qed


section \<open>Properties\<close>


definition timed_loop :: "(nat, string) timed_loop" where
  "timed_loop = \<lparr>heap = Map.empty, pollfds = [], channels = Map.empty, looping = True, quit_flag = False,
     loopHandling = False, callingPendingFunctors = False, iteration = 0, activeChannels = [],
     currentActiveChannel = None, wakeupFd = 3, wakeups = 0, pendingFunctors = [], user = new_TimerQueue 0\<rparr>"


text \<open>
  C13. Timers of a loop never fire and are never freed: whatever \<open>runAt\<close>, \<open>runAfter\<close>, \<open>runEvery\<close> and \<open>cancel\<close>
  calls are made, in the loop's thread or in others, however often the loop runs its functors and the
  descriptor alarms, no timer callback runs. The loop itself keeps going: running the functors and handling
  an alarm never fail or touch a freed timer. Not even the destructor of the queue frees a timer.
\<close>

theorem loop_timers_never_fire:
  assumes "timed_reach s" and "quiet_exec ex"
  shows "TimerQueue.ran (user s) = [] \<and>
         (\<exists>s'. doPendingFunctors (exec_functor ex nw) s = Inr s' \<and> TimerQueue.ran (user s') = []) \<and>
         (\<exists>s'. timer_alarm run nw s = Inr s' \<and> TimerQueue.ran (user s') = []) \<and>
         (\<forall>i. \<exists>s'. loop_cancel ex inLoop i s = Inr s' \<and> tm_heap (user s') = tm_heap (user s)) \<and>
         tm_heap (destroy_TimerQueue (user s)) = tm_heap (user s)"
proof -
  have inv: "timed_inv s" by (rule timed_reach_inv [OF assms(1)])
  have ran: "TimerQueue.ran (user s) = []" if "timed_inv s" for s :: "('a, 'b) timed_loop"
    using that by (simp add: timed_inv_def tq_empty_def)
  have "timers (user s) = []" using inv by (simp add: timed_inv_def tq_empty_def)
  then have "tm_heap (destroy_TimerQueue (user s)) = tm_heap (user s)" by (simp add: destroy_TimerQueue_def restrict_map_def)
  with ran inv round_ok_timed [OF assms(2) inv, of nw] alarm_ok_timed [OF inv, of run nw] cancel_ok_timed [OF inv]
  show ?thesis by metis
qed

theorem loop_timers_never_fire_witness:
  "\<exists>s i s1 s2. (new_EventLoop 3 4 (new_TimerQueue 0) :: (nat, string) timed_loop res) = Inr s \<and>
     runAfter (\<lambda>f s. Inr s) False 1000 1000 8 (1 / 2) ''retry'' s = Inr (i, s1) \<and>
     doPendingFunctors (exec_functor (\<lambda>f s. Inr s) 1000) s1 = Inr s2 \<and> TimerQueue.ran (user s2) = []"
proof -
  have q: "quiet_exec (\<lambda>f s. Inr s)" by (simp add: quiet_exec_def)
  obtain s :: "(nat, string) timed_loop" where s: "new_EventLoop 3 4 (new_TimerQueue 0) = Inr s"
    by (rule exE [OF new_loop_watches [of 3 4 "new_TimerQueue 0"]]) auto
  have r: "timed_reach s" using timed_reach.start [OF s] .
  have half: "addTime 1000 (1 / 2) = Inr 501000" by code_simp
  obtain i s1 where s1: "runAfter (\<lambda>f s. Inr s) False 1000 1000 8 (1 / 2) ''retry'' s = Inr (i, s1)"
    using add_ok_timed [OF timed_reach_inv [OF r] q] unfolding runAfter_def runAt_def half res_bind.simps by blast
  from loop_timers_never_fire [OF timed_reach.run_after [OF r q s1] q, of 1000] s s1 show ?thesis by blast
qed



end
