(* ===== verification/Singleton.thy ===== *)
theory Singleton
  imports Prelude
begin

text \<open>
  \<^verbatim>\<open>base/inc/Singleton.h\<close> and the cast of \<^verbatim>\<open>base/inc/Callbacks.h\<close>. Any number of threads call \<^verbatim>\<open>instance\<close>; the state is
  the two static members, the objects that are alive, the functions registered with \<^verbatim>\<open>atexit\<close> and where each
  thread is. \<^verbatim>\<open>pthread_once\<close> lets one thread run its argument and makes the others wait until it has returned.
  The address of a new object is an argument.
\<close>

section \<open>State and operations\<close>

datatype pthread_once_t = OnceInit | OnceRunning | OnceDone

text \<open>A thread before its call, in \<^verbatim>\<open>init\<close> before and after the assignment, and after the call with its result.\<close>

datatype instance_pc = Called | InInit | Assigned | Returned "nat option"

record Singleton =
  ponce :: pthread_once_t
  value_ptr :: "nat option"
  alive :: "nat set"
  atexit_count :: nat
  built :: nat
  pcs :: "nat \<Rightarrow> instance_pc"

definition new_Singleton :: Singleton where
  "new_Singleton = \<lparr>ponce = OnceInit, value_ptr = None, alive = {}, atexit_count = 0, built = 0, pcs = (\<lambda>_. Called)\<rparr>"

text \<open>
  \<^verbatim>\<open>init\<close>, in its two steps: the object is made and assigned, its destruction is registered. With the second, the call
  of \<^verbatim>\<open>pthread_once\<close> is complete.
\<close>

definition init_new :: "nat \<Rightarrow> Singleton \<Rightarrow> Singleton" where
  "init_new a s = s\<lparr>value_ptr := Some a, alive := insert a (alive s), built := Suc (built s)\<rparr>"

definition init_register :: "Singleton \<Rightarrow> Singleton" where
  "init_register s = s\<lparr>atexit_count := Suc (atexit_count s), ponce := OnceDone\<rparr>"

text \<open>The next step of thread \<open>t\<close> in \<^verbatim>\<open>instance\<close>; \<open>None\<close> when it has to wait or has returned.\<close>

definition instance_step :: "nat \<Rightarrow> nat \<Rightarrow> Singleton \<Rightarrow> Singleton option" where
  "instance_step a t s =
     (case pcs s t of
        Called \<Rightarrow>
          (case ponce s of
             OnceInit \<Rightarrow> Some (s\<lparr>ponce := OnceRunning, pcs := (pcs s)(t := InInit)\<rparr>)
           | OnceRunning \<Rightarrow> None
           | OnceDone \<Rightarrow> Some (s\<lparr>pcs := (pcs s)(t := Returned (value_ptr s))\<rparr>))
      | InInit \<Rightarrow> if a \<in> alive s then None else Some ((init_new a s)\<lparr>pcs := (pcs s)(t := Assigned)\<rparr>)
      | Assigned \<Rightarrow> Some ((init_register s)\<lparr>pcs := (pcs s)(t := Returned (value_ptr s))\<rparr>)
      | Returned v \<Rightarrow> None)"

text \<open>\<^verbatim>\<open>delete\<close> of the null pointer does nothing, of a dead object it is undefined.\<close>

definition destroy_Singleton :: "Singleton \<Rightarrow> Singleton res" where
  "destroy_Singleton s =
     (case value_ptr s of
        None \<Rightarrow> Inr s
      | Some a \<Rightarrow> if a \<in> alive s then Inr (s\<lparr>alive := alive s - {a}\<rparr>) else Inl UndefinedBehaviour)"

text \<open>At exit every registered function runs.\<close>

definition run_atexit :: "Singleton \<Rightarrow> Singleton res" where
  "run_atexit s = res_fold (\<lambda>_. destroy_Singleton) [0..<atexit_count s] s"

text \<open>\<open>isTo\<close> is the test of \<^verbatim>\<open>dynamic_cast\<close>; a pointer is an address or null.\<close>

definition down_pointer_cast :: "(nat \<Rightarrow> bool) \<Rightarrow> nat option \<Rightarrow> nat option res" where
  "down_pointer_cast isTo f = cassert (f = None \<or> isTo (the f)) (Inr f)"


section \<open>Every schedule\<close>

inductive once_reach :: "Singleton \<Rightarrow> bool" where
  init: "once_reach new_Singleton"
| step: "once_reach s \<Longrightarrow> instance_step a t s = Some s' \<Longrightarrow> once_reach s'"

text \<open>
  In each phase of \<^verbatim>\<open>pthread_once\<close>: what has been built, where the threads can be, and that at most one is inside
  \<^verbatim>\<open>init\<close>.
\<close>

definition once_inv :: "Singleton \<Rightarrow> bool" where
  [inv_simps]: "once_inv s \<longleftrightarrow>
     (case ponce s of
        OnceInit \<Rightarrow> value_ptr s = None \<and> alive s = {} \<and> atexit_count s = 0 \<and> built s = 0 \<and> (\<forall>t. pcs s t = Called)
      | OnceRunning \<Rightarrow> atexit_count s = 0 \<and> (\<exists>t. (\<forall>u. u \<noteq> t \<longrightarrow> pcs s u = Called) \<and>
          (pcs s t = InInit \<and> value_ptr s = None \<and> alive s = {} \<and> built s = 0 \<or>
           pcs s t = Assigned \<and> (\<exists>a. value_ptr s = Some a \<and> alive s = {a}) \<and> built s = 1))
      | OnceDone \<Rightarrow> atexit_count s = 1 \<and> built s = 1 \<and> (\<exists>a. value_ptr s = Some a \<and> alive s = {a} \<and>
          (\<forall>t. pcs s t \<in> {Called, Returned (Some a)})))"

lemma once_step:
  assumes "once_inv s" and "instance_step a t s = Some s'"
  shows "once_inv s'"
proof (cases "ponce s")
  case OnceInit
  then show ?thesis using assms by (auto simp: once_inv_def instance_step_def)
next
  case OnceRunning
  obtain u where u: "\<forall>v. v \<noteq> u \<longrightarrow> pcs s v = Called"
    "pcs s u = InInit \<and> value_ptr s = None \<and> alive s = {} \<and> built s = 0 \<or>
     pcs s u = Assigned \<and> (\<exists>a. value_ptr s = Some a \<and> alive s = {a}) \<and> built s = 1" and z: "atexit_count s = 0"
    using assms(1) OnceRunning by (auto simp: once_inv_def)
  have t: "t = u" using assms(2) u(1) OnceRunning by (rule_tac ccontr) (auto simp: instance_step_def)
  show ?thesis using assms(2) u z OnceRunning unfolding t
    by (auto simp: once_inv_def instance_step_def init_new_def init_register_def split: if_splits)
next
  case OnceDone
  then obtain b where b: "atexit_count s = 1" "built s = 1" "value_ptr s = Some b" "alive s = {b}"
      "\<forall>t. pcs s t \<in> {Called, Returned (Some b)}"
    using assms(1) by (auto simp: once_inv_def)
  then have "pcs s t = Called \<or> pcs s t = Returned (Some b)" by blast
  then have "pcs s t = Called" using assms(2) by (auto simp: instance_step_def)
  then have "s' = s\<lparr>pcs := (pcs s)(t := Returned (Some b))\<rparr>" using assms(2) b(3) OnceDone by (simp add: instance_step_def)
  with b OnceDone show ?thesis by (auto simp: once_inv_def)
qed

lemma once_reach_inv: "once_reach s \<Longrightarrow> once_inv s"
proof (induction rule: once_reach.induct)
  case init
  show ?case by (simp add: once_inv_def new_Singleton_def)
qed (rule once_step)


section \<open>Properties\<close>

text \<open>
  C30. However threads race in \<open>instance\<close>, the object is built once: all calls that have returned gave the same
  object, it is alive, it is the only one, and running the functions registered with \<open>atexit\<close> deletes it without an
  error and leaves nothing behind. No schedule gets stuck: as long as a thread has not returned, some thread has a
  step, for any address that is free.
\<close>

theorem singleton_once:
  assumes "once_reach s"
  shows "built s \<le> 1 \<and>
    (\<forall>t u v w. pcs s t = Returned v \<and> pcs s u = Returned w \<longrightarrow> v = w \<and> (\<exists>a. v = Some a \<and> alive s = {a})) \<and>
    (\<forall>t v. pcs s t = Returned v \<longrightarrow> (\<exists>s'. run_atexit s = Inr s' \<and> alive s' = {})) \<and>
    (\<forall>t a. (\<forall>v. pcs s t \<noteq> Returned v) \<and> a \<notin> alive s \<longrightarrow> (\<exists>u. instance_step a u s \<noteq> None))"
proof -
  have inv: "once_inv s" by (rule once_reach_inv [OF assms])
  show ?thesis
  proof (cases "ponce s")
    case OnceInit
    with inv show ?thesis by (auto simp: once_inv_def instance_step_def)
  next
    case OnceRunning
    then obtain t where t: "\<forall>u. u \<noteq> t \<longrightarrow> pcs s u = Called" "built s \<le> 1" "pcs s t = InInit \<or> pcs s t = Assigned"
      using inv by (auto simp: once_inv_def)
    then have "\<forall>u v. pcs s u \<noteq> Returned v" by (metis instance_pc.distinct(5) instance_pc.distinct(9) instance_pc.distinct(11))
    moreover have "instance_step a t s \<noteq> None" if "a \<notin> alive s" for a
      using t(3) that by (auto simp: instance_step_def)
    ultimately show ?thesis using t(2) by blast
  next
    case OnceDone
    then obtain b where b: "atexit_count s = 1" "built s = 1" "value_ptr s = Some b" "alive s = {b}"
        "\<forall>t. pcs s t \<in> {Called, Returned (Some b)}"
      using inv by (auto simp: once_inv_def)
    have "\<exists>s'. run_atexit s = Inr s' \<and> alive s' = {}" using b by (simp add: run_atexit_def destroy_Singleton_def)
    moreover have "instance_step a t s \<noteq> None" if "\<forall>v. pcs s t \<noteq> Returned v" for a t
    proof -
      have "pcs s t = Called" using b(5) that by blast
      then show ?thesis using OnceDone by (simp add: instance_step_def)
    qed
    moreover have "pcs s t = Returned v \<Longrightarrow> v = Some b" for t v
      using b(5) by (metis insert_iff instance_pc.distinct(5) instance_pc.inject singletonD)
    ultimately show ?thesis using b(2,4) by (metis order_refl)
  qed
qed

theorem singleton_once_witness:
  "\<exists>s1 s2 s3 s4 s'. instance_step 8 1 new_Singleton = Some s1 \<and> instance_step 8 2 s1 = None \<and> instance_step 8 1 s1 = Some s2 \<and>
     instance_step 8 1 s2 = Some s3 \<and> instance_step 8 2 s3 = Some s4 \<and> pcs s4 2 = Returned (Some 8) \<and>
     run_atexit s4 = Inr s' \<and> alive s' = {}"
proof -
  obtain s1 s2 s3 s4 where s: "instance_step 8 1 new_Singleton = Some s1" "instance_step 8 2 s1 = None"
      "instance_step 8 1 s1 = Some s2" "instance_step 8 1 s2 = Some s3" "instance_step 8 2 s3 = Some s4" "pcs s4 2 = Returned (Some 8)"
    by (simp add: instance_step_def new_Singleton_def init_new_def init_register_def)
  then have "once_reach s4" by (meson once_reach.intros)
  from singleton_once [OF this] s show ?thesis by blast
qed

end
