(* ===== verification/Spec2Isabelle.thy ===== *)
theory Spec2Isabelle
  imports Dispatch Registration Probes PeerClient WaterMarks FdFlags EventLoopThread ThreadLoops LoopTimers Singleton
begin

text \<open>
  HUAWEIP2P distributes the parts of a file between the peers of a machine. It consists of a network library in the
  style of muduo (\<^verbatim>\<open>source/base\<close>), a directory server (\<^verbatim>\<open>source/p2pserver\<close>) and a peer (\<^verbatim>\<open>source/p2pclient\<close>). This
  development models the three of them and proves what makes them work; where the code does not do what it means to,
  the theorems say what it does instead.

  \<^bold>\<open>How the parts interact.\<close> A loop (\<^verbatim>\<open>EventLoop\<close>) waits in \<^verbatim>\<open>poll(2)\<close> for the channels registered with its poller and
  runs the functors other threads hand to it. Acceptor, connector, connection and timer queue each own a channel. A
  \<^verbatim>\<open>TcpServer\<close> accepts in its base loop and gives the connections to the loops of a pool of threads; a \<^verbatim>\<open>TcpClient\<close>
  makes one connection at a time with a \<^verbatim>\<open>Connector\<close>. A \<^verbatim>\<open>TcpConnection\<close> has an input and an output \<^verbatim>\<open>Buffer\<close>; the codec cuts
  the input into messages of up to 65536 bytes. Peers register with the directory server under the four digits of
  their port; it keeps up to three peers for each prefix of three digits and answers with the others. A peer asks the
  best of its neighbours for the next part of the file, level by level up to 100, and serves other peers.

  \<^bold>\<open>Theories, in the order of their dependencies\<close> (sources relative to \<^verbatim>\<open>src/source\<close>):

  \<^item> \<open>Prelude\<close>: results with the three ways the program can fail (a failed assertion, an uncaught \<^verbatim>\<open>out_of_range\<close>,
    undefined behaviour), bytes, \<^verbatim>\<open>size_t\<close> as \<open>64 word\<close>, \<^verbatim>\<open>std::string\<close>, \<^verbatim>\<open>atoi\<close> and \<^verbatim>\<open>snprintf\<close>.
  \<^item> \<open>Buffer\<close> (\<^verbatim>\<open>base/inc/Buffer.h\<close>, \<^verbatim>\<open>base/src/Buffer.cpp\<close>): a vector with 64-bit indices; it implements the byte queue
    of the locale \<open>byte_queue\<close>.
  \<^item> \<open>Codec\<close> (\<^verbatim>\<open>base/inc/codec.h\<close>, \<^verbatim>\<open>StringPiece.h\<close>): framing; round trip through any segmentation. The locales
    \<open>codec_connection\<close> and \<open>message_handler\<close> are the contracts between codec, connection and message callback.
  \<^item> \<open>Containers\<close>: \<^verbatim>\<open>std::map\<close> as the locale \<open>ordered_map\<close>. \<open>UserCatalogue\<close> (\<^verbatim>\<open>p2pserver/src/usercatalogue.cpp\<close>): the
    groups, refining an abstract replacement policy.
  \<^item> \<open>P2PServer\<close> and \<open>P2PClient\<close> (\<^verbatim>\<open>p2pserver.cpp\<close>, \<^verbatim>\<open>p2pclient.cpp\<close>): the callbacks of both programs, shown to be message
    handlers over any connection that keeps its contract.
  \<^item> \<open>Channel\<close>, \<open>PollPoller\<close>: channels in a store and the poller's registry of them, a \<open>channel_registry\<close>.
  \<^item> \<open>EventLoop\<close>, \<open>ThreadLoops\<close>: the loop with its functors in every interleaving with other threads, and which loop belongs
    to which thread. \<open>Timestamp\<close>, \<open>TimerQueue\<close>, \<open>LoopTimers\<close> (\<^verbatim>\<open>Timestamp.h\<close>, \<^verbatim>\<open>Timer.h\<close>, \<^verbatim>\<open>TimerQueue.cpp\<close>): times with the rounding of
    \<^verbatim>\<open>double\<close> seconds, the timers, and the timer calls of a loop from any thread.
  \<^item> \<open>Threads\<close>, \<open>EventLoopThread\<close> (\<^verbatim>\<open>Atomic.h\<close>, \<^verbatim>\<open>Thread.cpp\<close>, \<^verbatim>\<open>Mutex.h\<close>, \<^verbatim>\<open>Condition.h\<close>, \<^verbatim>\<open>EventLoopThread.cpp\<close>): the handshake that
    starts the loop of a new thread, as two programs of atomic steps. \<open>Singleton\<close> (\<^verbatim>\<open>Singleton.h\<close>, \<^verbatim>\<open>Callbacks.h\<close>): an object
    built once by racing threads.
  \<^item> \<open>InetAddress\<close>, \<open>Sockets\<close>, \<open>FdFlags\<close>, \<open>Acceptor\<close>, \<open>Connector\<close>: addresses and their text, the wrappers of the system calls, the
    flags of descriptors in both builds, accepting over a kernel with a limited number of descriptors, and
    connecting with retries. \<open>Probes\<close>: the sockets with which both programs try out peers, as descriptors of the process.
  \<^item> \<open>TcpConnection\<close>, \<open>TcpServer\<close>, \<open>TcpClient\<close>: one connection, a server with its pool (the locale \<open>connection_callback\<close> is what
    it asks of a user's callback) and a client that its own callbacks may delete. \<open>WaterMarks\<close>: when a connection calls
    back. \<open>Registration\<close>: the field \<open>watched\<close> of a connection is what the poller watches for it. \<open>Teardown\<close>: the destructor of a server over all its loops. \<open>Descriptors\<close>: a server with its acceptor over the
    descriptor table of the process, from \<^verbatim>\<open>accept\<close> to the destructor that closes the socket; its locale \<open>keeps_descriptor\<close>
    extends \<open>connection_callback\<close>.
  \<^item> \<open>Protocol\<close>, \<open>Programs\<close>: the message handlers over the connections of the library, the two \<^verbatim>\<open>main\<close> functions. \<open>PeerClient\<close>: the
    calls of the peer's client carried out on the \<^verbatim>\<open>TcpClient\<close> they are made on. \<open>Service\<close>: the two servers as wholes, in
    every execution, and \<open>Dispatch\<close>: the events of a round of the loop, from the poller through \<^verbatim>\<open>Channel::handleEvent\<close> to the handlers of
    the connections; the locale \<open>service\<close> puts \<open>connection_callback\<close> and \<open>message_handler\<close> together, \<open>reactive_service\<close> adds \<open>keeps_descriptor\<close>; both are
    interpreted for both programs. This theory: exchanges between the programs from end to end.

  \<^bold>\<open>How code becomes definitions.\<close> A class is a record of its members, an operation a function from the state to a new state
  or an error; every assertion, early return and unchecked access is a branch. Objects that are shared or deleted live
  in stores with addresses (channels, timers) or positions (connections). What code outside the repository decides is
  an argument: the answers of \<^verbatim>\<open>poll\<close>, \<^verbatim>\<open>readv\<close>, \<^verbatim>\<open>write\<close>, \<^verbatim>\<open>accept\<close>, \<^verbatim>\<open>connect\<close>, the clock, the number of a thread, which
  ports are reachable, and what callbacks do. Where a theorem needs more of them than that they answer, it says so as a
  hypothesis (\<open>poll_contract\<close>: \<^verbatim>\<open>poll\<close> sets events for as many entries as it says; a write takes at most the
  bytes it is given). Threads are interleaved steps of the loops and of the functions that hand work to them.

  \<^bold>\<open>What is shown.\<close> Invariants and their preservation for buffer, poller, catalogue, connection, connector, server and client;
  every byte sent comes out once and in order, and a connection that is shut down drains first; no wakeup is lost
  and every functor runs once; accepting, closing and destroying connections passes all assertions in every interleaving
  of a server's loops, whose requests run out, and leaks or shares no descriptor; \<open>startLoop\<close> returns under every schedule; messages and neighbour lists are read back as they were
  written; a registration and an exchange between peers are correct from end to end; both servers run any sequence of
  connections, segments and closes without a failure as long as their messages are valid, and whatever the poller reports in
  a round comes down to such steps; a peer can replace its client
  from inside a callback of it; delays reach the timer descriptor with a known error; searches end while the directory
  server is up. The failures that are proved (timers that never fire, a comparison that is not an order, the unchecked
  lookup of a new prefix, a lost \<^verbatim>\<open>quit\<close>, descriptors used up by dead clients) are stated as they happen.

  \<^bold>\<open>Bounds.\<close> Buffers are shorter than \<open>2\<^sup>6\<^sup>4 - 9\<close> bytes (\<open>conn_room\<close>; appending more would wrap the indices); an answer of the
  directory server takes at most 22 bytes and one of a peer 11, the costs of their handlers; a server makes fewer
  than \<open>2\<^sup>3\<^sup>1 - 1\<close> connections, and for names that differ its address has at most 19 characters; times are within
  \<open>2\<^sup>6\<^sup>2\<close> microseconds of the epoch and delays below \<open>2\<^sup>5\<^sup>2\<close> microseconds, so that nothing overflows. No definition uses
  fuel: the search loops that may run forever are partial functions with \<open>None\<close> for no result, and \<open>loop\<close> consumes a list
  of answers of \<^verbatim>\<open>poll\<close>.

  \<^bold>\<open>Not modelled.\<close> Infinite \<^verbatim>\<open>double\<close> values and NaN; the type definitions of \<^verbatim>\<open>Callbacks.h\<close> and the declarations, accessors and
  setters of the headers that hold no logic; trace output;
  data races on the static members of \<^verbatim>\<open>P2PCServer\<close> (its callbacks are taken one at a time); the behaviour of
  \<^verbatim>\<open>std::set\<close> under a comparison that is no order, which is undefined: properties of the catalogue are stated for the
  comparison by address that the commented-out criterion of \<^verbatim>\<open>usercatalogue.h\<close> gives.
\<close>

section \<open>Properties across components\<close>



text \<open>
  C5. An exchange between two peers from end to end: a peer with level \<open>updateFile g\<close> asks a serving peer for the
  next part. However the request and the answer are cut into segments, the serving peer remembers the asking one
  with its level and keeps its own, its answer is the next thing on the connection, which stays open, and the
  asking peer's level rises by one exactly when the serving peer's is higher; it never rises above it.
\<close>

theorem peers_exchange:
  assumes "peer_inv gs" and "peer_inv g" and "conn_wf c" and "conn_state c = StateE.kConnected" and "11 \<le> conn_room c"
    and "concat segs = encode (part_request g)" and "\<forall>seg \<in> set segs. length seg \<le> 65536"
    and "concat segs2 = encode (part_reply gs)" and "\<forall>seg \<in> set segs2. length seg \<le> 65536"
  shows "\<exists>gs' c' b g' b'.
      receive (P2PCServer_onStringMessage conn_send) (on_conn conn_shutdown) segs (gs, c) new_Buffer = Inr ((gs', c'), b) \<and>
      map_of (neiIP gs') = (map_of (neiIP gs))(selfIP g \<mapsto> known_file (updateFile g)) \<and> updateFile gs' = updateFile gs \<and>
      conn_wf c' \<and> conn_state c' = StateE.kConnected \<and> stream c' = stream c @ encode (part_reply gs) \<and>
      receive learn Inr segs2 g new_Buffer = Inr (g', b') \<and> peer_inv gs' \<and> peer_inv g' \<and>
      updateFile g' = updateFile g + (if updateFile g < updateFile gs then 1 else 0) \<and>
      updateFile g' \<le> max (updateFile g) (updateFile gs)"
proof -
  let ?h = "P2PCServer_onStringMessage conn_send" and ?gs = "insertNeiIP (selfIP g) (updateFile g) gs"
  let ?g = "(insertNeiIP (selfIP gs) (updateFile gs) g)\<lparr>updateFile := updateFile g + (if updateFile g < updateFile gs then 1 else 0)\<rparr>"
  obtain c' where c': "?h (gs, c) (part_request g) = Inr (?gs, c')" "conn_wf c'" "conn_state c' = StateE.kConnected"
      "stream c' = stream c @ encode (part_reply gs)"
    by (rule serve_over_connection [OF assms(1-5)])
  have len: "length (part_request g) \<le> 65536" "length (part_reply gs) \<le> 65536"
    using part_request_simps [OF assms(2)] part_request_simps [OF assms(1)] by simp_all
  obtain b where b: "receive ?h (on_conn conn_shutdown) segs (gs, c) new_Buffer = Inr ((?gs, c'), b)"
    using receive_one [OF assms(6) len(1) assms(7), of ?h "on_conn conn_shutdown" "(gs, c)"] c'(1) by auto
  obtain b' where b': "receive learn Inr segs2 g new_Buffer = Inr (?g, b')"
    using receive_one [OF assms(8) len(2) assms(9), of learn Inr g] learn_part [OF assms(1), of g] by auto
  have "om_wf (neiIP gs)" using assms(1) by (simp add: peer_inv_def)
  then have "map_of (neiIP ?gs) = (map_of (neiIP gs))(selfIP g \<mapsto> known_file (updateFile g))" by (simp add: om.put_look)
  moreover have "peer_inv ?gs" "peer_inv ?g" using assms(1,2) by (simp_all add: peer_inv_def om.put_wf)
  ultimately show ?thesis using b b' c'
    by (intro exI [of _ ?gs] exI [of _ c'] exI [of _ b] exI [of _ ?g] exI [of _ b']) simp
qed

theorem peers_exchange_witness:
  "\<exists>gs' c' b g' b'.
      receive (P2PCServer_onStringMessage conn_send) (on_conn conn_shutdown)
        [encode (part_request \<lparr>neiIP = [], updateFile = 5, selfIP = ''1113''\<rparr>)]
        (\<lparr>neiIP = [], updateFile = 9, selfIP = ''1112''\<rparr>, open_conn) new_Buffer = Inr ((gs', c'), b) \<and>
      map_of (neiIP gs') = [''1113'' \<mapsto> 5] \<and>
      receive learn Inr [encode (part_reply \<lparr>neiIP = [], updateFile = 9, selfIP = ''1112''\<rparr>)]
        \<lparr>neiIP = [], updateFile = 5, selfIP = ''1113''\<rparr> new_Buffer = Inr (g', b') \<and> updateFile g' = 6"
proof -
  let ?gs = "\<lparr>neiIP = [], updateFile = 9, selfIP = ''1112''\<rparr>" and ?g = "\<lparr>neiIP = [], updateFile = 5, selfIP = ''1113''\<rparr>"
  have inv: "peer_inv ?gs" "peer_inv ?g" by (simp_all add: peer_inv_def om_wf_def)
  have room: "11 \<le> conn_room open_conn" using open_conn_wf(4) by simp
  have "concat [encode (part_request ?g)] = encode (part_request ?g)" "\<forall>seg \<in> set [encode (part_request ?g)]. length seg \<le> 65536"
      "concat [encode (part_reply ?gs)] = encode (part_reply ?gs)" "\<forall>seg \<in> set [encode (part_reply ?gs)]. length seg \<le> 65536"
    by (simp_all add: part_request_def part_reply_def getIP_def encode_def)
  from peers_exchange [OF inv open_conn_wf(1,2) room this] show ?thesis
    by (auto simp: known_file_def)
qed

text \<open>
  The directory server survives any sequence of valid messages on a connection of the library: whatever
  segments the kernel delivers, whatever part of the answers it takes, the codec hands each message over once and
  in order, every callback returns, and the catalogue and the connection keep their invariants.
\<close>

theorem server_handles_stream:
  assumes "P2PServer.server_inv d" and "conn_wf c" and "22 * length ms \<le> conn_room c"
    and "\<forall>m \<in> set ms. server_valid d m \<and> length m \<le> 65536"
    and "concat segs = concat (map encode ms)" and "\<forall>seg \<in> set segs. length seg \<le> 65536"
    and "length (concat segs) + 1040 < 2 ^ 64"
  shows "\<exists>d' c' b.
      receive (P2PServer_onStringMessage UserInfoSortCriterion reach conn_send conn_shutdown) (on_conn conn_shutdown)
        segs (d, c) new_Buffer = Inr ((d', c'), b) \<and> content b = [] \<and> P2PServer.server_inv d' \<and> conn_wf c' \<and>
      res_fold (\<lambda>m st. P2PServer_onStringMessage UserInfoSortCriterion reach conn_send conn_shutdown st m) ms (d, c) =
        Inr (d', c')"
  using directory.receive_total [of "(d, c)" ms segs reach] assms
  by (auto simp: server_conn_inv_def)

theorem server_handles_stream_witness:
  "\<exists>d' c' b.
      receive (P2PServer_onStringMessage UserInfoSortCriterion (\<lambda>_. True) conn_send conn_shutdown) (on_conn conn_shutdown)
        [encode (register_request ''1112'')] (first_server, open_conn) new_Buffer = Inr ((d', c'), b) \<and> P2PServer.server_inv d'"
proof -
  let ?m = "register_request ''1112''"
  have "server_valid first_server ?m" by (rule first_server_valid) (simp_all add: register_request_def)
  then have "\<forall>m \<in> set [?m]. server_valid first_server m \<and> length m \<le> 65536" by (simp add: register_request_def)
  from server_handles_stream [OF first_server_inv open_conn_wf(1) _ this, of "[encode ?m]" "\<lambda>_. True"] open_conn_wf(4)
  show ?thesis by (auto simp: register_request_def encode_def)
qed

end
